(* ===== verification/Prelude.thy ===== *)
theory Prelude
  imports "HOL-Library.Word"
begin

text \<open>
  Shared vocabulary of the development: bytes and machine integers, big-endian
  packing, slices, windows and index searches as the Rust standard library defines
  them on slices, the result of a poll, and two interfaces that several components
  implement: length-delimited units in a byte stream (VLESS response header, Vision
  frames, TLS records) and transition systems with an invariant.
\<close>

unbundle bit_operations_syntax

section \<open>Bytes and machine integers\<close>

type_synonym u8 = "8 word"
type_synonym u16 = "16 word"
type_synonym u32 = "32 word"
type_synonym u64 = "64 word"
type_synonym bytes = "u8 list"

named_theorems byte_simps "packing and unpacking of integers in bytes"
named_theorems const_defs "the numeric constants of the source"

text \<open>
  \<^verbatim>\<open>to_be_bytes\<close> and \<^verbatim>\<open>from_be_bytes\<close> of \<^verbatim>\<open>u16\<close> and \<^verbatim>\<open>u32\<close>, \<^verbatim>\<open>u64::to_le_bytes\<close>, and
  \<^verbatim>\<open>x as u8\<close>, \<^verbatim>\<open>x as u16\<close> of a \<^verbatim>\<open>usize\<close> (\<^term>\<open>of_nat\<close>: the cast truncates).
\<close>

definition u16_be :: "u16 \<Rightarrow> bytes" where
  "u16_be w = [of_nat (unat w div 256), of_nat (unat w mod 256)]"

definition be_u16 :: "u8 \<Rightarrow> u8 \<Rightarrow> u16" where
  "be_u16 a b = of_nat (256 * unat a + unat b)"

fun to_be :: "nat \<Rightarrow> nat \<Rightarrow> bytes" where
  "to_be 0 x = []"
| "to_be (Suc n) x = to_be n (x div 256) @ [of_nat (x mod 256)]"

definition of_be :: "bytes \<Rightarrow> nat" where
  "of_be bs = foldl (\<lambda>n b. 256 * n + unat b) 0 bs"

definition u32_be :: "u32 \<Rightarrow> bytes" where
  "u32_be w = to_be 4 (unat w)"

definition be_u32 :: "bytes \<Rightarrow> u32" where
  "be_u32 bs = of_nat (of_be bs)"

definition u64_le :: "u64 \<Rightarrow> bytes" where
  "u64_le w = map (\<lambda>k. of_nat (unat w div 256 ^ k mod 256)) [0 ..< 8]"

lemma length_u16_be [simp]: "length (u16_be w) = 2"
  by (simp add: u16_be_def)

lemma length_to_be [simp]: "length (to_be n x) = n"
  by (induction n arbitrary: x) simp_all

lemma length_u32_be [simp]: "length (u32_be w) = 4"
  by (simp add: u32_be_def)

lemma length_u64_le [simp]: "length (u64_le w) = 8"
  by (simp add: u64_le_def)

lemma unat_u8_bound: "unat (b :: u8) < 256"
  using unsigned_less [of b] by simp

lemma unat_u16_bound: "unat (w :: u16) < 65536"
  using unsigned_less [of w] by simp

lemma unat_u32_bound: "unat (w :: u32) < 4294967296"
  using unsigned_less [of w] by simp

lemma unat_u8_of_nat [simp]: "n < 256 \<Longrightarrow> unat (of_nat n :: u8) = n"
  by (simp add: unat_of_nat take_bit_nat_eq_self)

lemma unat_u16_of_nat [simp]: "n < 65536 \<Longrightarrow> unat (of_nat n :: u16) = n"
  by (simp add: unat_of_nat take_bit_nat_eq_self)

lemma unat_u32_of_nat [simp]: "n < 4294967296 \<Longrightarrow> unat (of_nat n :: u32) = n"
  by (simp add: unat_of_nat take_bit_nat_eq_self)

lemma unat_u8_add: "unat a + unat b < 256 \<Longrightarrow> unat (a + b :: u8) = unat a + unat b"
  by (simp add: unat_word_ariths)

lemma unat_push_or:
  assumes "unat (l :: 'a::len word) < 2 ^ n"
  shows "unat (push_bit n h OR l) = (2 ^ n * unat h) mod 2 ^ LENGTH('a) + unat l"
proof -
  have l: "take_bit n l = l"
    using assms by (simp add: word_unat_eq_iff unsigned_take_bit_eq take_bit_nat_eq_self)
  have "unat (push_bit n h OR l) = push_bit n (unat h) mod 2 ^ LENGTH('a) OR unat l"
    by (simp add: unsigned_or_eq unsigned_push_bit_eq take_bit_eq_mod)
  also have "\<dots> = push_bit n (unat h) mod 2 ^ LENGTH('a) + unat l"
  proof (rule disjunctive_add [symmetric])
    fix k
    have "bit (unat l) k \<Longrightarrow> k < n"
      by (metis l bit_take_bit_iff unsigned_take_bit_eq)
    then show "\<not> bit (push_bit n (unat h) mod 2 ^ LENGTH('a)) k \<or> \<not> bit (unat l) k"
      by (auto simp: take_bit_eq_mod [symmetric] bit_simps)
  qed
  finally show ?thesis by (simp add: push_bit_eq_mult mult.commute)
qed

lemma unat_be_u16 [byte_simps]: "unat (be_u16 a b) = 256 * unat a + unat b"
  using unat_u8_bound [of a] unat_u8_bound [of b]
  by (simp add: be_u16_def del: of_nat_add of_nat_mult)

lemma be_u16_u16_be [simp]:
  "be_u16 (of_nat (unat w div 256)) (of_nat (unat w mod 256)) = w"
proof -
  have "unat w div 256 < 256" using unat_u16_bound [of w] by simp
  then show ?thesis by (simp add: be_u16_def)
qed

lemma be_u16_of_nat [simp]:
  "n < 65536 \<Longrightarrow> be_u16 (of_nat (n div 256)) (of_nat (n mod 256)) = of_nat n"
  using be_u16_u16_be [of "of_nat n"] by simp

lemma u16_be_be_u16 [simp]: "u16_be (be_u16 a b) = [a, b]"
  using unat_u8_bound [of b] by (simp add: u16_be_def unat_be_u16)

lemma to_be_numeral [byte_simps]:
  "to_be (numeral k) x = to_be (pred_numeral k) (x div 256) @ [of_nat (x mod 256)]"
  by (simp only: numeral_eq_Suc [of k] to_be.simps)

lemma of_be_snoc [simp]: "of_be (bs @ [b]) = 256 * of_be bs + unat b"
  by (simp add: of_be_def)

lemma of_be_Nil [simp]: "of_be [] = 0"
  by (simp add: of_be_def)

lemma of_be_to_be: "of_be (to_be n x) = x mod 256 ^ n"
proof (induction n arbitrary: x)
  case (Suc n)
  have "256 * (x div 256 mod 256 ^ n) + x mod 256 = x mod (256 * 256 ^ n)"
    by (simp add: mod_mult2_eq)
  with Suc.IH [of "x div 256"] show ?case by simp
qed simp

lemma to_be_of_be [simp]: "to_be (length bs) (of_be bs) = bs"
proof (induction bs rule: rev_induct)
  case (snoc b bs)
  then show ?case using unat_u8_bound [of b] by simp
qed simp

lemma of_be_bound: "of_be bs < 256 ^ length bs"
proof (induction bs rule: rev_induct)
  case (snoc b bs)
  then show ?case using unat_u8_bound [of b] by simp
qed simp

lemma be_u32_u32_be [simp]: "be_u32 (u32_be w) = w"
  using unat_u32_bound [of w] by (simp add: be_u32_def u32_be_def of_be_to_be)

section \<open>Results\<close>

text \<open>
  The \<^verbatim>\<open>?\<close> operator on a \<^verbatim>\<open>Result\<close>, and \<^verbatim>\<open>collect\<close> of an iterator of results, which stops at
  the first error.
\<close>

fun and_then :: "'e + 'a \<Rightarrow> ('a \<Rightarrow> 'e + 'b) \<Rightarrow> 'e + 'b" where
  "and_then (Inl e) f = Inl e"
| "and_then (Inr a) f = f a"

fun collect :: "('e + 'a) list \<Rightarrow> 'e + 'a list" where
  "collect [] = Inr []"
| "collect (r # rs) = and_then r (\<lambda>a. and_then (collect rs) (\<lambda>as. Inr (a # as)))"

lemma and_then_Inr: "and_then r f = Inr b \<longleftrightarrow> (\<exists>a. r = Inr a \<and> f a = Inr b)"
  by (cases r) auto

lemma and_then_Inl: "and_then r f = Inl e \<longleftrightarrow> r = Inl e \<or> (\<exists>a. r = Inr a \<and> f a = Inl e)"
  by (cases r) auto

lemma collect_Inr: "collect rs = Inr as \<longleftrightarrow> rs = map Inr as"
  by (induction rs arbitrary: as) (auto simp: and_then_Inr map_eq_Cons_conv)

lemma collect_Inl: "collect rs = Inl e \<Longrightarrow> Inl e \<in> set rs"
  by (induction rs) (auto simp: and_then_Inl)

section \<open>Slices\<close>

text \<open>
  \<^verbatim>\<open>xs.get(a..b)\<close>, which is \<^verbatim>\<open>None\<close> out of range, \<^verbatim>\<open>slice::windows\<close>, and
  \<^verbatim>\<open>Iterator::position\<close> and \<^verbatim>\<open>rposition\<close>: the index of the first and of the last hit.
\<close>

definition slice :: "nat \<Rightarrow> nat \<Rightarrow> 'a list \<Rightarrow> 'a list" where
  "slice a b xs = take (b - a) (drop a xs)"

definition get_range :: "nat \<Rightarrow> nat \<Rightarrow> 'a list \<Rightarrow> 'a list option" where
  "get_range a b xs = (if a \<le> b \<and> b \<le> length xs then Some (slice a b xs) else None)"

definition windows :: "nat \<Rightarrow> 'a list \<Rightarrow> 'a list list" where
  "windows n xs = map (\<lambda>i. take n (drop i xs)) [0 ..< Suc (length xs) - n]"

text \<open>\<^verbatim>\<open>chunks(2)\<close> of a slice of even length.\<close>

fun chunks2 :: "bytes \<Rightarrow> (u8 \<times> u8) list" where
  "chunks2 (a # b # r) = (a, b) # chunks2 r"
| "chunks2 _ = []"

fun position :: "('a \<Rightarrow> bool) \<Rightarrow> 'a list \<Rightarrow> nat option" where
  "position P [] = None"
| "position P (x # xs) = (if P x then Some 0 else map_option Suc (position P xs))"

fun rposition :: "('a \<Rightarrow> bool) \<Rightarrow> 'a list \<Rightarrow> nat option" where
  "rposition P [] = None"
| "rposition P (x # xs) =
     (case rposition P xs of Some i \<Rightarrow> Some (Suc i) | None \<Rightarrow> if P x then Some 0 else None)"

lemma length_2_iff: "length xs = 2 \<longleftrightarrow> (\<exists>a b. xs = [a, b])"
  by (auto simp: numeral_2_eq_2 length_Suc_conv)

lemma length_4_iff: "length xs = 4 \<longleftrightarrow> (\<exists>a b c d. xs = [a, b, c, d])"
  by (auto simp: eval_nat_numeral length_Suc_conv)

lemma length_1_iff: "length xs = Suc 0 \<longleftrightarrow> (\<exists>a. xs = [a])"
  by (auto simp: length_Suc_conv)

lemma length_slice [simp]: "length (slice a b xs) = min (b - a) (length xs - a)"
  by (simp add: slice_def)

lemma take_drop_append [simp]: "take n xs @ drop n xs @ ys = xs @ ys"
  by (simp flip: append_assoc)

lemma take_drop_take:
  assumes "length (take n (drop i (take m xs))) = n"
  shows "take n (drop i (take m xs)) = take n (drop i xs)"
proof -
  from assms have "n \<le> m - i" by (simp add: drop_take)
  then show ?thesis by (simp add: drop_take min_absorb1)
qed

lemma position_Some:
  "position P xs = Some i \<longleftrightarrow> i < length xs \<and> P (xs ! i) \<and> (\<forall>j < i. \<not> P (xs ! j))"
proof (induction xs arbitrary: i)
  case (Cons x xs)
  show ?case by (cases i) (auto simp: Cons.IH less_Suc_eq_0_disj)
qed simp

lemma position_None: "position P xs = None \<longleftrightarrow> (\<forall>x \<in> set xs. \<not> P x)"
  by (induction xs) auto

lemma position_append:
  "position P (xs @ ys) =
     (case position P xs of Some i \<Rightarrow> Some i
      | None \<Rightarrow> map_option ((+) (length xs)) (position P ys))"
  by (induction xs) (cases "position P ys"; auto split: option.splits)+

lemma rposition_Some_less: "rposition P xs = Some i \<Longrightarrow> i < length xs"
  by (induction xs arbitrary: i) (auto split: option.splits if_splits)

lemma rposition_Some_sat: "rposition P xs = Some i \<Longrightarrow> P (xs ! i)"
  by (induction xs arbitrary: i) (auto split: option.splits if_splits)

lemma length_windows [simp]: "length (windows n xs) = Suc (length xs) - n"
  by (simp add: windows_def)

lemma nth_windows [simp]:
  "i < Suc (length xs) - n \<Longrightarrow> windows n xs ! i = take n (drop i xs)"
  by (simp add: windows_def del: upt_Suc)

section \<open>Length-delimited units\<close>

text \<open>
  Several components cut a byte stream into units that announce their own length in a
  header of fixed size. \<open>complete h ulen b\<close>: the buffer \<open>b\<close> starts with a whole unit;
  \<open>units\<close> cuts off as many as there are, \<open>unit_rest\<close> is what remains.
\<close>

definition complete :: "nat \<Rightarrow> (bytes \<Rightarrow> nat) \<Rightarrow> bytes \<Rightarrow> bool" where
  "complete h ulen b \<longleftrightarrow> h \<le> length b \<and> ulen b \<le> length b"

function units :: "nat \<Rightarrow> (bytes \<Rightarrow> nat) \<Rightarrow> bytes \<Rightarrow> bytes list" where
  "units h ulen b =
     (if complete h ulen b \<and> 0 < ulen b
      then take (ulen b) b # units h ulen (drop (ulen b) b) else [])"
  by pat_completeness auto
termination
  by (relation "measure (\<lambda>(h, ulen, b). length b)") (auto simp: complete_def)

function unit_rest :: "nat \<Rightarrow> (bytes \<Rightarrow> nat) \<Rightarrow> bytes \<Rightarrow> bytes" where
  "unit_rest h ulen b =
     (if complete h ulen b \<and> 0 < ulen b then unit_rest h ulen (drop (ulen b) b) else b)"
  by pat_completeness auto
termination
  by (relation "measure (\<lambda>(h, ulen, b). length b)") (auto simp: complete_def)

declare units.simps [simp del] unit_rest.simps [simp del]

lemma units_rest: "concat (units h ulen b) @ unit_rest h ulen b = b"
proof (induction h ulen b rule: units.induct)
  case (1 h ulen b)
  then show ?case
    by (auto simp: units.simps [of h ulen b] unit_rest.simps [of h ulen b])
qed

text \<open>The laws of such a header: its size, and that the length depends on it alone.\<close>

locale delimited =
  fixes hdr :: nat and ulen :: "bytes \<Rightarrow> nat"
  assumes hdr_pos: "0 < hdr"
    and hdr_le: "hdr \<le> length b \<Longrightarrow> hdr \<le> ulen b"
    and size_append: "hdr \<le> length b \<Longrightarrow> ulen (b @ c) = ulen b"
begin

lemma size_take: "hdr \<le> length b \<Longrightarrow> ulen (take hdr b) = ulen b"
  by (metis append_take_drop_id length_take min.absorb2 order_refl size_append)

lemma size_pos: "hdr \<le> length b \<Longrightarrow> 0 < ulen b"
  using hdr_pos hdr_le [of b] by linarith

lemma complete_append: "complete hdr ulen b \<Longrightarrow> complete hdr ulen (b @ c)"
  by (simp add: complete_def size_append)

lemma take_unit: "complete hdr ulen b \<Longrightarrow> take (ulen (b @ c)) (b @ c) = take (ulen b) b"
  by (simp add: complete_def size_append)

lemma drop_unit: "complete hdr ulen b \<Longrightarrow> drop (ulen (b @ c)) (b @ c) = drop (ulen b) b @ c"
  by (simp add: complete_def size_append)

lemma units_unit:
  assumes "hdr \<le> length u" and "ulen u = length u"
  shows "units hdr ulen (u @ c) = u # units hdr ulen c"
    and "unit_rest hdr ulen (u @ c) = unit_rest hdr ulen c"
  using assms size_pos [of u]
  by (simp_all add: units.simps [of hdr ulen "u @ c"] unit_rest.simps [of hdr ulen "u @ c"]
      complete_def size_append)

lemma units_concat:
  assumes "\<forall>u \<in> set us. hdr \<le> length u \<and> ulen u = length u"
  shows "units hdr ulen (concat us @ c) = us @ units hdr ulen c"
    and "unit_rest hdr ulen (concat us @ c) = unit_rest hdr ulen c"
  using assms by (induction us) (simp_all add: units_unit)

lemma units_sound: "u \<in> set (units hdr ulen b) \<Longrightarrow> hdr \<le> length u \<and> ulen u = length u"
proof (induction "length b" arbitrary: b rule: less_induct)
  case less
  show ?case
  proof (cases "complete hdr ulen b")
    case True
    then have len: "hdr \<le> ulen b" "ulen b \<le> length b" "0 < ulen b"
      using hdr_le [of b] size_pos [of b] by (auto simp: complete_def)
    from len have "ulen (take (ulen b) b) = ulen b"
      using size_append [of "take (ulen b) b" "drop (ulen b) b"] by simp
    with True len less.prems less.hyps [of "drop (ulen b) b"] show ?thesis
      by (auto simp: units.simps [of hdr ulen b])
  next
    case False
    with less show ?thesis by (simp add: units.simps [of hdr ulen b])
  qed
qed

end

section \<open>Event-driven machines\<close>

text \<open>
  A component that reacts to events: a transition function and a property every reaction
  keeps. \<open>run nxt s es\<close> is the state after the events \<open>es\<close>.
\<close>

definition run :: "('s \<Rightarrow> 'e \<Rightarrow> 's) \<Rightarrow> 's \<Rightarrow> 'e list \<Rightarrow> 's" where
  "run nxt s es = foldl nxt s es"

lemma run_Nil [simp]: "run nxt s [] = s"
  by (simp add: run_def)

lemma run_Cons [simp]: "run nxt s (e # es) = run nxt (nxt s e) es"
  by (simp add: run_def)

lemma run_append: "run nxt s (es @ fs) = run nxt (run nxt s es) fs"
  by (simp add: run_def)

locale invariant_machine =
  fixes nxt :: "'s \<Rightarrow> 'e \<Rightarrow> 's" and inv :: "'s \<Rightarrow> bool"
  assumes nxt_inv: "inv s \<Longrightarrow> inv (nxt s e)"
begin

lemma run_inv: "inv s \<Longrightarrow> inv (run nxt s es)"
  by (induction es arbitrary: s) (simp_all add: nxt_inv)

end

text \<open>A machine that only ever moves up in a preorder: what holds later held since then.\<close>

locale monotone_machine = invariant_machine nxt inv
  for nxt :: "'s \<Rightarrow> 'e \<Rightarrow> 's" and inv :: "'s \<Rightarrow> bool" +
  fixes le :: "'s \<Rightarrow> 's \<Rightarrow> bool"
  assumes le_refl: "le s s"
    and le_trans: "le s t \<Longrightarrow> le t u \<Longrightarrow> le s u"
    and nxt_le: "inv s \<Longrightarrow> le s (nxt s e)"
begin

lemma run_le: "inv s \<Longrightarrow> le s (run nxt s es)"
proof (induction es arbitrary: s)
  case (Cons e es)
  then show ?case
    using le_trans [OF nxt_le [of s e]] nxt_inv [of s e] by simp
qed (simp add: le_refl)

end

section \<open>Keyed stores\<close>

text \<open>
  The contract of a cache with keys: what a lookup returns after storing and after removing.
  A client that sees a value knows which operation put it there.
\<close>

datatype ('k, 'v) store_op = Put 'k 'v | Del 'k

fun op_key :: "('k, 'v) store_op \<Rightarrow> 'k" where
  "op_key (Put k v) = k"
| "op_key (Del k) = k"

fun apply_op :: "('k \<Rightarrow> 'v \<Rightarrow> 's \<Rightarrow> 's) \<Rightarrow> ('k \<Rightarrow> 's \<Rightarrow> 's) \<Rightarrow> 's \<Rightarrow> ('k, 'v) store_op \<Rightarrow> 's" where
  "apply_op put del s (Put k v) = put k v s"
| "apply_op put del s (Del k) = del k s"

locale keyed_store =
  fixes get :: "'s \<Rightarrow> 'k \<Rightarrow> 'v option"
    and put :: "'k \<Rightarrow> 'v \<Rightarrow> 's \<Rightarrow> 's"
    and del :: "'k \<Rightarrow> 's \<Rightarrow> 's"
    and empty :: 's
  assumes get_empty: "get empty k = None"
    and get_put: "get (put k v s) k' = (if k' = k then Some v else get s k')"
    and get_del: "get (del k s) k' = (if k' = k then None else get s k')"
begin

lemma last_put:
  "get (run (apply_op put del) empty h) k = Some v \<Longrightarrow>
     \<exists>h1 h2. h = h1 @ Put k v # h2 \<and> (\<forall>op \<in> set h2. op_key op \<noteq> k)"
proof (induction h rule: rev_induct)
  case (snoc op h)
  show ?case
  proof (cases "op_key op = k")
    case True
    with snoc.prems have "op = Put k v"
      by (cases op) (auto simp: run_append get_put get_del)
    then show ?thesis by (intro exI [of _ h] exI [of _ "[]"]) simp
  next
    case False
    with snoc.prems have "get (run (apply_op put del) empty h) k = Some v"
      by (cases op) (auto simp: run_append get_put get_del split: if_splits)
    with snoc.IH obtain h1 h2 where "h = h1 @ Put k v # h2" "\<forall>op \<in> set h2. op_key op \<noteq> k"
      by blast
    with False show ?thesis by (intro exI [of _ h1] exI [of _ "h2 @ [op]"]) simp
  qed
qed (simp add: get_empty)

end

end
