(* ===== verification/RErrors.thy ===== *)
theory RErrors
  imports Prelude
begin

text \<open>
  The error type of \<^verbatim>\<open>src/error.rs\<close> with its \<^verbatim>\<open>Display\<close> texts and \<^verbatim>\<open>is_peer_gone\<close>,
  the I/O errors of the Rust standard library as far as the program names them, and the
  result of an asynchronous operation that is polled once. Strings are UTF-8 byte strings.
\<close>

section \<open>Text\<close>

text \<open>A Rust string literal as its UTF-8 bytes.\<close>

definition str :: "string \<Rightarrow> bytes" where
  "str s = map of_char s"

lemma str_Nil [simp]: "str [] = []" and str_Cons [simp]: "str (c # s) = of_char c # str s"
  by (simp_all add: str_def)

lemma length_str [simp]: "length (str s) = length s"
  by (simp add: str_def)

section \<open>I/O errors\<close>

text \<open>\<^verbatim>\<open>std::io::ErrorKind\<close>: the kinds the program names, the others by number.\<close>

datatype io_kind =
    ConnectionReset | ConnectionAborted | BrokenPipe | UnexpectedEof | WriteZero
  | TimedOut | NotFound | InvalidData | OtherKind nat

datatype io_error = IoError (io_kind_of: io_kind) (io_text: bytes)

datatype 'a poll = Pending | Ready 'a

section \<open>RError\<close>

datatype rerror =
    IO io_error
  | Timeout
  | Config bytes
  | Socks5 bytes
  | Reality bytes
  | Vless bytes
  | Protocol bytes
  | Custom bytes bytes

text \<open>
  \<^verbatim>\<open>#[error("...")]\<close>. The text of an I/O error and of tokio's \<^verbatim>\<open>Elapsed\<close> come from the
  libraries: the first is part of the error value here, the second a constant argument.
\<close>

fun display :: "bytes \<Rightarrow> rerror \<Rightarrow> bytes" where
  "display elapsed (IO e) = str ''I/O error: '' @ io_text e"
| "display elapsed Timeout = str ''Timeout error: '' @ elapsed"
| "display elapsed (Config m) = str ''config error: '' @ m"
| "display elapsed (Socks5 m) = str ''SOCKS5 error: '' @ m"
| "display elapsed (Reality m) = str ''Reality error: '' @ m"
| "display elapsed (Vless m) = str ''VLESS error: '' @ m"
| "display elapsed (Protocol m) = str ''protocol error: '' @ m"
| "display elapsed (Custom p m) = str ''['' @ p @ str ''] An error occurred: '' @ m"

fun is_peer_gone :: "rerror \<Rightarrow> bool" where
  "is_peer_gone (IO e) =
     (case io_kind_of e of
        ConnectionReset \<Rightarrow> True | ConnectionAborted \<Rightarrow> True | BrokenPipe \<Rightarrow> True
      | _ \<Rightarrow> False)"
| "is_peer_gone _ = False"

lemma is_peer_gone_iff:
  "is_peer_gone e \<longleftrightarrow>
     (\<exists>k m. e = IO (IoError k m) \<and> k \<in> {ConnectionReset, ConnectionAborted, BrokenPipe})"
proof (cases e rule: is_peer_gone.cases)
  case (1 e)
  then show ?thesis by (cases e) (simp split: io_kind.splits)
qed simp_all

section \<open>Blocking use of a connection\<close>

text \<open>
  A connection used with \<^verbatim>\<open>read_exact\<close> and \<^verbatim>\<open>write_all\<close> under \<^verbatim>\<open>await\<close>: what the peer will
  send before the stream ends (\<open>c_in\<close>), the error \<^verbatim>\<open>read_exact\<close> reports when that runs
  out (\<open>UnexpectedEof\<close> for an orderly end), what was written (\<open>c_out\<close>), and the outcome
  of the coming \<^verbatim>\<open>write_all\<close> calls: \<open>None\<close> succeeds, \<open>Some (k, e)\<close> fails with \<open>e\<close>
  after \<open>k\<close> bytes; calls beyond the list succeed.
\<close>

record conn =
  c_in :: bytes
  c_end :: io_error
  c_out :: bytes
  c_wres :: "(nat \<times> io_error) option list"

definition read_exact :: "nat \<Rightarrow> conn \<Rightarrow> (io_error + bytes) \<times> conn" where
  "read_exact n c =
     (if n \<le> length (c_in c) then (Inr (take n (c_in c)), c\<lparr>c_in := drop n (c_in c)\<rparr>)
      else (Inl (c_end c), c\<lparr>c_in := []\<rparr>))"

definition write_all :: "bytes \<Rightarrow> conn \<Rightarrow> (io_error + unit) \<times> conn" where
  "write_all bs c =
     (case c_wres c of
        [] \<Rightarrow> (Inr (), c\<lparr>c_out := c_out c @ bs\<rparr>)
      | None # ws \<Rightarrow> (Inr (), c\<lparr>c_out := c_out c @ bs, c_wres := ws\<rparr>)
      | Some (k, e) # ws \<Rightarrow> (Inl e, c\<lparr>c_out := c_out c @ take k bs, c_wres := ws\<rparr>))"

lemma read_exact_Inr:
  "read_exact n c = (Inr bs, c') \<longleftrightarrow>
     length bs = n \<and> (\<exists>r. c_in c = bs @ r \<and> c' = c\<lparr>c_in := r\<rparr>)"
proof
  assume "read_exact n c = (Inr bs, c')"
  then have "length bs = n" "c_in c = bs @ drop n (c_in c)" "c' = c\<lparr>c_in := drop n (c_in c)\<rparr>"
    by (auto simp: read_exact_def split: if_splits)
  then show "length bs = n \<and> (\<exists>r. c_in c = bs @ r \<and> c' = c\<lparr>c_in := r\<rparr>)" by blast
qed (auto simp: read_exact_def)

lemma read_exact_Inl:
  "read_exact n c = (Inl e, c') \<longleftrightarrow>
     length (c_in c) < n \<and> e = c_end c \<and> c' = c\<lparr>c_in := []\<rparr>"
  by (auto simp: read_exact_def)

lemma write_all_Inr:
  "write_all bs c = (Inr u, c') \<longleftrightarrow>
     (c_wres c = [] \<or> hd (c_wres c) = None) \<and>
     c' = c\<lparr>c_out := c_out c @ bs, c_wres := tl (c_wres c)\<rparr>"
  by (cases "c_wres c") (auto simp: write_all_def split: option.splits)

lemma write_all_Inl:
  "write_all bs c = (Inl e, c') \<longleftrightarrow>
     (\<exists>k ws. c_wres c = Some (k, e) # ws \<and> c' = c\<lparr>c_out := c_out c @ take k bs, c_wres := ws\<rparr>)"
  by (auto simp: write_all_def split: list.splits option.splits)

lemmas conn_ops = read_exact_Inr read_exact_Inl write_all_Inr write_all_Inl

end
