(* ===== verification/VisionFrame.thy ===== *)
theory VisionFrame
  imports RErrors
begin

text \<open>
  Vision frames of \<^verbatim>\<open>src/outbound/vision.rs\<close>: the padding length, the framing of a piece
  of content, and \<^verbatim>\<open>Unpadder\<close>, the deframing state machine of the receiving side. The
  random generator of the \<^verbatim>\<open>rand\<close> crate is a parameter: \<open>rr r n\<close> is the value
  \<^verbatim>\<open>random_range(0..n)\<close> draws in generator state \<open>r\<close>, with the next state.
\<close>

section \<open>Constants\<close>

definition cmd_padding_continue :: u8 where "cmd_padding_continue = 0"
definition cmd_padding_end :: u8 where "cmd_padding_end = 1"
definition cmd_padding_direct :: u8 where "cmd_padding_direct = 2"
definition header_len :: nat where "header_len = 5"
definition uuid_len :: nat where "uuid_len = 16"
definition read_chunk :: nat where "read_chunk = 16 * 1024"
definition buf_size :: nat where "buf_size = 8192"
definition max_frame_content :: nat where
  "max_frame_content = buf_size - uuid_len - header_len"
definition seed_long_threshold :: nat where "seed_long_threshold = 900"
definition seed_long_range :: nat where "seed_long_range = 500"
definition seed_long_base :: nat where "seed_long_base = 900"
definition seed_short_range :: nat where "seed_short_range = 256"

lemmas frame_consts [const_defs] =
  cmd_padding_continue_def cmd_padding_end_def cmd_padding_direct_def header_len_def
  uuid_len_def read_chunk_def buf_size_def max_frame_content_def seed_long_threshold_def
  seed_long_range_def seed_long_base_def seed_short_range_def

section \<open>Framing\<close>

type_synonym 'r rng = "'r \<Rightarrow> nat \<Rightarrow> nat \<times> 'r"

text \<open>The documented contract of \<^verbatim>\<open>random_range\<close> on a non-empty range.\<close>

definition rng_ok :: "'r rng \<Rightarrow> bool" where
  "rng_ok rr \<longleftrightarrow> (\<forall>r n. 0 < n \<longrightarrow> fst (rr r n) < n)"

text \<open>\<^verbatim>\<open>saturating_sub\<close> is the subtraction of \<^typ>\<open>nat\<close>.\<close>

definition padding_len :: "'r rng \<Rightarrow> 'r \<Rightarrow> nat \<Rightarrow> bool \<Rightarrow> nat \<times> 'r" where
  "padding_len rr r content_len long_padding =
     (let (pad, r) =
        (if content_len < seed_long_threshold \<and> long_padding
         then (let (x, r) = rr r seed_long_range in (x + seed_long_base - content_len, r))
         else rr r seed_short_range);
        cap = buf_size - (21 + content_len)
      in (if cap < pad then cap else pad, r))"

definition frame_bytes :: "bytes \<Rightarrow> u8 \<Rightarrow> nat \<Rightarrow> bytes option \<Rightarrow> bytes" where
  "frame_bytes data command pad uuid =
     (case uuid of Some ident \<Rightarrow> ident | None \<Rightarrow> []) @ [command]
       @ u16_be (of_nat (length data)) @ u16_be (of_nat pad) @ data @ replicate pad 0"

definition xtls_padding_into ::
  "'r rng \<Rightarrow> 'r \<Rightarrow> bytes \<Rightarrow> bytes \<Rightarrow> u8 \<Rightarrow> bytes option \<Rightarrow> bool \<Rightarrow> bytes \<times> 'r" where
  "xtls_padding_into rr r out data command uuid long_padding =
     (let (pad, r) = padding_len rr r (length data) long_padding in
      (out @ frame_bytes data command pad uuid, r))"

definition xtls_padding ::
  "'r rng \<Rightarrow> 'r \<Rightarrow> bytes \<Rightarrow> u8 \<Rightarrow> bytes option \<Rightarrow> bool \<Rightarrow> bytes \<times> 'r" where
  "xtls_padding rr r data command uuid long_padding =
     xtls_padding_into rr r [] data command uuid long_padding"

section \<open>The deframing state machine\<close>

record unpadder =
  expect_uuid :: bool
  up_done :: bool
  up_direct :: bool

definition unpadder_new :: unpadder where
  "unpadder_new = \<lparr>expect_uuid = True, up_done = False, up_direct = False\<rparr>"

definition is_done :: "unpadder \<Rightarrow> bool" where "is_done u = up_done u"
definition is_direct :: "unpadder \<Rightarrow> bool" where "is_direct u = up_direct u"

text \<open>
  \<^verbatim>\<open>Unpadder::unpad\<close>: the outcome, the new state, what is left in the buffer and the
  output so far. Every round of the loop that continues consumes a whole frame.
\<close>

function unpad ::
  "unpadder \<Rightarrow> bytes \<Rightarrow> bytes \<Rightarrow> (rerror + unit) \<times> unpadder \<times> bytes \<times> bytes" where
  "unpad u buf out =
     (if up_done u then (Inr (), u, [], out @ buf)
      else
        let pre = (if expect_uuid u then uuid_len else 0) in
        if length buf < pre + header_len then (Inr (), u, buf, out)
        else
          let h = slice pre (pre + header_len) buf;
              command = h ! 0;
              content_len = unat (be_u16 (h ! 1) (h ! 2));
              pad_len = unat (be_u16 (h ! 3) (h ! 4));
              total = pre + header_len + content_len + pad_len
          in if length buf < total then (Inr (), u, buf, out)
          else
            let buf1 = drop (pre + header_len) buf;
                u1 = u\<lparr>expect_uuid := False\<rparr>;
                out1 = out @ take content_len buf1;
                buf2 = drop (content_len + pad_len) buf1
            in if command = cmd_padding_continue then unpad u1 buf2 out1
            else if command = cmd_padding_end then unpad (u1\<lparr>up_done := True\<rparr>) buf2 out1
            else if command = cmd_padding_direct
              then unpad (u1\<lparr>up_done := True, up_direct := True\<rparr>) buf2 out1
            else (Inl (Protocol (str ''unknown vision padding command'')), u1, buf2, out1))"
  by pat_completeness auto
termination
  by (relation "measure (\<lambda>(u, buf, out). length buf)") (auto simp: header_len_def)

declare unpad.simps [simp del]

section \<open>Frames as delimited units\<close>

text \<open>The whole length of a frame behind a prefix of \<open>pre\<close> bytes.\<close>

definition frame_len :: "nat \<Rightarrow> bytes \<Rightarrow> nat" where
  "frame_len pre b = pre + 5 + unat (be_u16 (b ! (pre + 1)) (b ! (pre + 2)))
     + unat (be_u16 (b ! (pre + 3)) (b ! (pre + 4)))"

interpretation frame: delimited "pre + 5" "frame_len pre" for pre
  by unfold_locales (auto simp: frame_len_def nth_append)

definition prefix_of :: "unpadder \<Rightarrow> nat" where
  "prefix_of u = (if expect_uuid u then 16 else 0)"

definition frame_ready :: "unpadder \<Rightarrow> bytes \<Rightarrow> bool" where
  "frame_ready u b = complete (prefix_of u + 5) (frame_len (prefix_of u)) b"

definition frame_command :: "unpadder \<Rightarrow> bytes \<Rightarrow> u8" where
  "frame_command u b = b ! prefix_of u"

definition frame_content :: "unpadder \<Rightarrow> bytes \<Rightarrow> bytes" where
  "frame_content u b =
     (let p = prefix_of u in
      take (unat (be_u16 (b ! (p + 1)) (b ! (p + 2)))) (drop (p + 5) b))"

text \<open>The state after a frame with a known command.\<close>

definition after_command :: "unpadder \<Rightarrow> u8 \<Rightarrow> unpadder" where
  "after_command u c = u\<lparr>expect_uuid := False, up_done := c \<noteq> 0, up_direct := up_direct u \<or> c = 2\<rparr>"

lemma unpad_done: "up_done u \<Longrightarrow> unpad u b out = (Inr (), u, [], out @ b)"
  by (simp add: unpad.simps)

lemma unpad_wait: "\<not> up_done u \<Longrightarrow> \<not> frame_ready u b \<Longrightarrow> unpad u b out = (Inr (), u, b, out)"
  by (auto simp: unpad.simps [of u b out] frame_ready_def prefix_of_def complete_def frame_len_def
      slice_def Let_def const_defs add.commute)

lemma slice_header:
  "p + 5 \<le> length b \<Longrightarrow> k < 5 \<Longrightarrow> slice p (p + 5) b ! k = b ! (p + k)"
  by (simp add: slice_def)

lemma unpad_frame:
  assumes "\<not> up_done u" and "frame_ready u b"
  shows "unpad u b out =
    (let b' = drop (frame_len (prefix_of u) b) b; out' = out @ frame_content u b in
     if frame_command u b \<in> {0, 1, 2}
     then unpad (after_command u (frame_command u b)) b' out'
     else (Inl (Protocol (str ''unknown vision padding command'')), u\<lparr>expect_uuid := False\<rparr>, b', out'))"
proof -
  define p where "p = prefix_of u"
  have len: "p + 5 \<le> length b" "frame_len p b \<le> length b"
    using assms(2) by (auto simp: frame_ready_def complete_def p_def)
  have p: "(if expect_uuid u then uuid_len else 0) = p"
    by (simp add: p_def prefix_of_def const_defs)
  note hd = slice_header [OF len(1)]
  have up: "u\<lparr>expect_uuid := False, up_done := False\<rparr> = u\<lparr>expect_uuid := False\<rparr>"
    using assms(1) by (cases u) simp
  show ?thesis
    using assms(1) len
    by (simp add: unpad.simps [of u b out] p Let_def header_len_def hd frame_command_def
        frame_content_def p_def [symmetric] frame_len_def after_command_def up
        cmd_padding_continue_def cmd_padding_end_def cmd_padding_direct_def add.commute
        add.left_commute)
qed

lemma frame_ready_append:
  assumes "frame_ready u b"
  shows "frame_ready u (b @ c)" and "frame_command u (b @ c) = frame_command u b"
    and "frame_content u (b @ c) = frame_content u b"
    and "frame_len (prefix_of u) (b @ c) = frame_len (prefix_of u) b"
    and "frame_len (prefix_of u) b \<le> length b"
proof -
  let ?p = "prefix_of u"
  have r: "complete (?p + 5) (frame_len ?p) b" using assms by (simp add: frame_ready_def)
  then show "frame_ready u (b @ c)"
    unfolding frame_ready_def by (rule frame.complete_append)
  show "frame_len ?p (b @ c) = frame_len ?p b" "frame_len ?p b \<le> length b"
    using r by (simp_all add: complete_def frame.size_append)
  have len: "?p + 5 \<le> length b" "frame_len ?p b \<le> length b" using r by (auto simp: complete_def)
  then show "frame_command u (b @ c) = frame_command u b"
    by (simp add: frame_command_def nth_append)
  show "frame_content u (b @ c) = frame_content u b"
    using len by (simp add: frame_content_def Let_def nth_append frame_len_def)
qed

text \<open>What was decided on a buffer stays decided when more bytes follow.\<close>

lemma unpad_append:
  "unpad u b out = (r, u', b', out') \<Longrightarrow>
     (case r of
        Inr _ \<Rightarrow> unpad u (b @ c) out = unpad u' (b' @ c) out'
      | Inl e \<Rightarrow> unpad u (b @ c) out = (Inl e, u', b' @ c, out'))"
proof (induction "length b" arbitrary: u b out rule: less_induct)
  case less
  consider "up_done u" | "\<not> up_done u" "\<not> frame_ready u b" | "\<not> up_done u" "frame_ready u b"
    by blast
  then show ?case
  proof cases
    case 1
    with less.prems show ?thesis by (auto simp: unpad_done)
  next
    case 2
    with less.prems show ?thesis by (auto simp: unpad_wait)
  next
    case 3
    let ?b = "drop (frame_len (prefix_of u) b) b"
    have "length ?b < length b"
      using 3(2) frame.size_pos [of "prefix_of u" b] by (auto simp: frame_ready_def complete_def)
    note IH = less.hyps [OF this]
    show ?thesis
      using less.prems IH
      by (cases r) (auto simp: unpad_frame [OF 3] unpad_frame [OF 3(1) frame_ready_append(1) [OF 3(2)]]
          frame_ready_append [OF 3(2)] Let_def split: if_splits)
  qed
qed

text \<open>Output is only ever appended, and the flags only rise.\<close>

lemma unpad_extends:
  "unpad u b out = (r, u', b', out') \<Longrightarrow>
     (\<exists>x. out' = out @ x) \<and> (up_done u \<longrightarrow> up_done u') \<and> (up_direct u \<longrightarrow> up_direct u')
     \<and> length b' \<le> length b"
proof (induction "length b" arbitrary: u b out rule: less_induct)
  case less
  consider "up_done u" | "\<not> up_done u" "\<not> frame_ready u b" | "\<not> up_done u" "frame_ready u b"
    by blast
  then show ?case
  proof cases
    case 3
    let ?b = "drop (frame_len (prefix_of u) b) b"
    have l: "length ?b < length b"
      using 3(2) frame.size_pos [of "prefix_of u" b] by (auto simp: frame_ready_def complete_def)
    show ?thesis
    proof (cases "frame_command u b \<in> {0, 1, 2}")
      case True
      then have "unpad (after_command u (frame_command u b)) ?b (out @ frame_content u b)
          = (r, u', b', out')"
        using less.prems by (simp add: unpad_frame [OF 3] Let_def)
      from less.hyps [OF l this] l 3(1) show ?thesis
        by (fastforce simp: after_command_def)
    qed (use less.prems l 3 in \<open>auto simp: unpad_frame Let_def\<close>)
  qed (use less.prems in \<open>auto simp: unpad_done unpad_wait\<close>)
qed

text \<open>The output so far does not matter; a frame that is rejected leaves the flags as they were.\<close>

lemma unpad_acc:
  "unpad u b out = (r, u', b', out') \<Longrightarrow> unpad u b (pre @ out) = (r, u', b', pre @ out')"
proof (induction "length b" arbitrary: u b out rule: less_induct)
  case less
  consider "up_done u" | "\<not> up_done u" "\<not> frame_ready u b" | "\<not> up_done u" "frame_ready u b"
    by blast
  then show ?case
  proof cases
    case 3
    have "length (drop (frame_len (prefix_of u) b) b) < length b"
      using 3(2) frame.size_pos [of "prefix_of u" b] by (auto simp: frame_ready_def complete_def)
    from less.hyps [OF this] less.prems show ?thesis
      by (auto simp: unpad_frame [OF 3] Let_def split: if_splits)
  qed (use less.prems in \<open>auto simp: unpad_done unpad_wait\<close>)
qed

lemma unpad_error_flags:
  "unpad u b out = (Inl e, u', b', out') \<Longrightarrow> \<not> up_done u' \<and> up_direct u' = up_direct u"
proof (induction "length b" arbitrary: u b out rule: less_induct)
  case less
  consider "up_done u" | "\<not> up_done u" "\<not> frame_ready u b" | "\<not> up_done u" "frame_ready u b"
    by blast
  then show ?case
  proof cases
    case 3
    let ?b = "drop (frame_len (prefix_of u) b) b"
    have l: "length ?b < length b"
      using 3(2) frame.size_pos [of "prefix_of u" b] by (auto simp: frame_ready_def complete_def)
    show ?thesis
    proof (cases "frame_command u b = 0")
      case True
      then have "unpad (after_command u 0) ?b (out @ frame_content u b) = (Inl e, u', b', out')"
        using less.prems by (simp add: unpad_frame [OF 3] Let_def)
      from less.hyps [OF l this] show ?thesis by (simp add: after_command_def)
    next
      case False
      have "up_done (after_command u (frame_command u b))" using False by (simp add: after_command_def)
      with less.prems 3(1) show ?thesis
        by (auto simp: unpad_frame [OF 3] Let_def unpad_done split: if_splits)
    qed
  qed (use less.prems in \<open>auto simp: unpad_done unpad_wait\<close>)
qed

text \<open>One frame, produced by the framing side, followed by anything.\<close>

lemma frame_bytes_ready:
  assumes "length data < 65536" and "pad < 65536"
    and "expect_uuid u = (uuid \<noteq> None)" and "\<And>i. uuid = Some i \<Longrightarrow> length i = 16"
    and b_def: "b = frame_bytes data command pad uuid"
  shows "frame_ready u (b @ c)" and "frame_command u (b @ c) = command"
    and "frame_content u (b @ c) = data" and "drop (frame_len (prefix_of u) (b @ c)) (b @ c) = c"
proof -
  define i where "i = (case uuid of Some ident \<Rightarrow> ident | None \<Rightarrow> [])"
  define p where "p = prefix_of u"
  have p: "length i = p" using assms(3,4) by (auto simp: i_def p_def prefix_of_def split: option.splits)
  have n: "of_nat (length data) = (of_nat (length data) :: u16)" ..
  obtain x y where xy: "u16_be (of_nat (length data)) = [x, y]" by (simp add: u16_be_def)
  obtain z w where zw: "u16_be (of_nat pad) = [z, w]" by (simp add: u16_be_def)
  have "be_u16 x y = of_nat (length data)" "be_u16 z w = of_nat pad"
    using xy zw by (metis be_u16_u16_be list.inject u16_be_def)+
  then have lens: "unat (be_u16 x y) = length data" "unat (be_u16 z w) = pad"
    using assms(1,2) by simp_all
  have bc: "b @ c = i @ [command, x, y, z, w] @ data @ replicate pad 0 @ c"
    by (simp add: b_def frame_bytes_def i_def xy zw)
  have nths: "(b @ c) ! p = command" "(b @ c) ! (p + 1) = x" "(b @ c) ! (p + 2) = y"
    "(b @ c) ! (p + 3) = z" "(b @ c) ! (p + 4) = w"
    by (simp_all add: bc nth_append p)
  have d5: "drop (p + 5) (b @ c) = data @ replicate pad 0 @ c"
    by (simp add: bc p drop_Cons' flip: p)
  have fl: "frame_len p (b @ c) = p + 5 + (length data + pad)"
    by (simp only: frame_len_def nths lens add.assoc)
  show "frame_ready u (b @ c)"
    unfolding frame_ready_def p_def [symmetric] complete_def fl by (simp add: bc p)
  show "frame_command u (b @ c) = command"
    by (simp add: frame_command_def p_def [symmetric] nths)
  show "frame_content u (b @ c) = data"
    by (simp only: frame_content_def p_def [symmetric] Let_def nths lens d5) simp
  have "drop (p + 5 + (length data + pad)) (b @ c)
      = drop (length data + pad) (drop (p + 5) (b @ c))"
    by (simp only: drop_drop add.commute)
  then show "drop (frame_len (prefix_of u) (b @ c)) (b @ c) = c"
    unfolding p_def [symmetric] fl d5 by simp
qed

lemma unpad_frame_bytes:
  assumes "length data < 65536" and "pad < 65536" and "\<not> up_done u" and "command \<in> {0, 1, 2}"
    and "expect_uuid u = (uuid \<noteq> None)" and "\<And>i. uuid = Some i \<Longrightarrow> length i = 16"
  shows "unpad u (frame_bytes data command pad uuid @ c) out
    = unpad (after_command u command) c (out @ data)"
  using unpad_frame [OF assms(3), of "frame_bytes data command pad uuid @ c" out] assms(4)
    frame_bytes_ready [OF assms(1,2,5) assms(6) refl, of command c]
  by (simp add: Let_def)

section \<open>Properties\<close>

text \<open>
  C39: Padding follows the formula of the protocol and never outgrows the peer's buffer:
  with any generator that keeps its contract, a frame of at most \<^verbatim>\<open>MAX_FRAME_CONTENT\<close> bytes
  with its UUID prefix and header fits \<^verbatim>\<open>BUF_SIZE\<close>; short content under long padding is
  filled up to between 900 and 1399 bytes; otherwise fewer than 256 bytes are added.
\<close>

theorem padding_len_bounds:
  assumes "rng_ok rr" and "content_len \<le> max_frame_content"
  shows "let pad = fst (padding_len rr r content_len long_padding) in
    uuid_len + header_len + content_len + pad \<le> buf_size \<and>
    (if content_len < 900 \<and> long_padding
     then 900 \<le> content_len + pad \<and> content_len + pad < 1400 else pad < 256)"
proof -
  have "fst (rr r 500) < 500" "fst (rr r 256) < 256"
    using assms(1) by (simp_all add: rng_ok_def)
  with assms(2) show ?thesis
    by (auto simp: padding_len_def Let_def const_defs split: prod.splits)
qed

theorem padding_len_bounds_witness:
  "let pad = fst (padding_len (\<lambda>r n. (n - 1, r)) () 10 True) in
    uuid_len + header_len + 10 + pad \<le> buf_size \<and>
    (if 10 < (900 :: nat) \<and> True then 900 \<le> 10 + pad \<and> 10 + pad < 1400 else pad < 256)"
proof -
  have "rng_ok (\<lambda>r n. (n - 1, r))" by (simp add: rng_ok_def)
  moreover have "10 \<le> max_frame_content" by (simp add: const_defs)
  ultimately show ?thesis by (rule padding_len_bounds)
qed

text \<open>
  C26: Deframing does not depend on how the bytes arrive: running the state machine on a
  buffer and then on what it left plus further bytes ends in the same outcome, state,
  remainder and output as running it once on all bytes; an unknown command is rejected
  either way.
\<close>

theorem unpad_chunking:
  "case unpad u b out of
     (Inr _, u', b', out') \<Rightarrow> unpad u (b @ c) out = unpad u' (b' @ c) out'
   | (Inl e, u', b', out') \<Rightarrow> unpad u (b @ c) out = (Inl e, u', b' @ c, out')"
  using unpad_append [of u b out _ _ _ _ c] by (auto split: prod.splits sum.splits)

text \<open>
  A complete frame with a command other than 0, 1, 2 is a protocol error, raised after
  the content of that frame was delivered; nothing behind the frame is consumed.
\<close>

theorem unpad_unknown_command:
  assumes "length data < 65536" and "pad < 65536" and "\<not> up_done u" and "command \<notin> {0, 1, 2}"
    and "expect_uuid u = (uuid \<noteq> None)" and "length (case uuid of Some i \<Rightarrow> i | None \<Rightarrow> []) = prefix_of u"
  shows "unpad u (frame_bytes data command pad uuid @ c) out =
    (Inl (Protocol (str ''unknown vision padding command'')), u\<lparr>expect_uuid := False\<rparr>, c, out @ data)"
proof -
  have "\<And>i. uuid = Some i \<Longrightarrow> length i = 16"
    using assms(5,6) by (simp add: prefix_of_def)
  from frame_bytes_ready [OF assms(1,2,5) this refl, of command c]
    unpad_frame [OF assms(3), of "frame_bytes data command pad uuid @ c" out] assms(4)
  show ?thesis by (simp add: Let_def)
qed

theorem unpad_unknown_command_witness:
  "unpad \<lparr>expect_uuid = False, up_done = False, up_direct = False\<rparr>
      (frame_bytes [120] 127 3 None @ [9]) [] =
    (Inl (Protocol (str ''unknown vision padding command'')),
     \<lparr>expect_uuid = False, up_done = False, up_direct = False\<rparr>, [9], [120])"
  using unpad_unknown_command [of "[120]" 3
      "\<lparr>expect_uuid = False, up_done = False, up_direct = False\<rparr>" 127 None "[9]" "[]"]
  by (simp add: prefix_of_def)

end
