(* ===== verification/TlsRecord.thy ===== *)
theory TlsRecord
  imports Prelude
begin

text \<open>
  The TLS record layout that the record gate and the Vision sniffing share: a five-byte
  header whose last two bytes are the length of the payload.
\<close>

definition tls_record_header_len :: nat where "tls_record_header_len = 5"

definition record_len :: "bytes \<Rightarrow> nat" where
  "record_len b = 5 + unat (be_u16 (b ! 3) (b ! 4))"

interpretation rec: delimited 5 record_len
  by unfold_locales (auto simp: record_len_def nth_append)

text \<open>A record with the given type byte, version bytes and payload.\<close>

definition tls_record :: "u8 \<Rightarrow> u8 \<Rightarrow> u8 \<Rightarrow> bytes \<Rightarrow> bytes" where
  "tls_record kind v1 v2 payload = [kind, v1, v2] @ u16_be (of_nat (length payload)) @ payload"

lemma length_tls_record [simp]: "length (tls_record k a b p) = 5 + length p"
  by (simp add: tls_record_def)

lemma record_len_tls_record:
  "length p < 65536 \<Longrightarrow> record_len (tls_record k a b p @ c) = 5 + length p"
  by (simp add: tls_record_def record_len_def u16_be_def)

lemma tls_record_split:
  assumes "complete 5 record_len b"
  shows "\<exists>k v1 v2 p. take (record_len b) b = tls_record k v1 v2 p \<and> length p < 65536 \<and> k = b ! 0"
proof -
  obtain k v1 v2 x y r where b: "b = k # v1 # v2 # x # y # r"
    using assms by (auto simp: complete_def Suc_le_length_iff numeral_eq_Suc)
  let ?n = "unat (be_u16 x y)"
  have n: "?n \<le> length r" "?n < 65536" using assms unat_u16_bound [of "be_u16 x y"]
    by (auto simp: b complete_def record_len_def)
  then have "u16_be (of_nat (length (take ?n r))) = [x, y]" by (simp add: min_def)
  moreover have "take (5 + ?n) ([k, v1, v2, x, y] @ r) = [k, v1, v2, x, y] @ take ?n r"
    by (simp only: take_append) simp
  ultimately have "take (record_len b) b = tls_record k v1 v2 (take ?n r)"
    by (simp add: b record_len_def tls_record_def)
  then show ?thesis
    using n(2) by (intro exI [of _ k] exI [of _ v1] exI [of _ v2] exI [of _ "take ?n r"]) (simp add: b)
qed

lemma tls_record_complete:
  "length p < 65536 \<Longrightarrow> complete 5 record_len (tls_record k a b p @ c)"
  by (simp add: complete_def record_len_tls_record)

end
