(* ===== verification/VisionTraffic.thy ===== *)
theory VisionTraffic
  imports VisionFrame TlsRecord
begin

text \<open>
  Sniffing of the proxied traffic (\<^verbatim>\<open>TrafficState\<close>), the test for complete
  application-data records and the splitting of a write into pieces that fit a frame, from
  \<^verbatim>\<open>src/outbound/vision.rs\<close>. An \<^verbatim>\<open>i32\<close> is an integer, wrapped by \<open>i32\<close> wherever an
  operation of the source could leave the range.
\<close>

definition tls_application_data_start :: bytes where
  "tls_application_data_start = [0x17, 0x03, 0x03]"
definition tls_handshake_start :: bytes where "tls_handshake_start = [0x16, 0x03]"
definition tls_server_handshake_start :: bytes where
  "tls_server_handshake_start = [0x16, 0x03, 0x03]"
definition tls_handshake_client_hello :: u8 where "tls_handshake_client_hello = 1"
definition tls_handshake_server_hello :: u8 where "tls_handshake_server_hello = 2"
definition tls13_supported_versions :: bytes where
  "tls13_supported_versions = [0x00, 0x2b, 0x00, 0x02, 0x03, 0x04]"
definition filter_packets :: int where "filter_packets = 8"

text \<open>\<^verbatim>\<open>XTLS_CIPHERS.contains\<close>\<close>

definition xtls_ciphers :: "u16 \<Rightarrow> bool" where
  "xtls_ciphers c \<longleftrightarrow> 0x1301 \<le> c \<and> c \<le> 0x1304"

lemmas traffic_consts [const_defs] =
  tls_application_data_start_def tls_handshake_start_def tls_server_handshake_start_def
  tls_handshake_client_hello_def tls_handshake_server_hello_def tls13_supported_versions_def
  filter_packets_def tls_record_header_len_def

section \<open>Sniffing\<close>

record traffic_state =
  filter_budget :: int
  is_tls :: bool
  is_tls12_or_above :: bool
  enable_xtls :: bool
  cipher :: u16
  remaining_server_hello :: int

definition i32 :: "int \<Rightarrow> int" where
  "i32 x = signed_take_bit 31 x"

definition traffic_new :: traffic_state where
  "traffic_new = \<lparr>filter_budget = filter_packets, is_tls = False, is_tls12_or_above = False,
     enable_xtls = False, cipher = 0, remaining_server_hello = - 1\<rparr>"

text \<open>The packet as the start of a handshake: ServerHello or ClientHello.\<close>

definition sniff_hello :: "bytes \<Rightarrow> traffic_state \<Rightarrow> traffic_state" where
  "sniff_hello b ts =
     (if 6 \<le> length b then
        if take 3 b = tls_server_handshake_start \<and> b ! 5 = tls_handshake_server_hello then
          let ts = ts\<lparr>remaining_server_hello :=
                  (push_bit 8 (int (unat (b ! 3))) OR int (unat (b ! 4))) + int tls_record_header_len,
                is_tls12_or_above := True, is_tls := True\<rparr>
          in if 79 \<le> length b \<and> 79 \<le> remaining_server_hello ts then
               (case get_range (44 + unat (b ! 43)) (46 + unat (b ! 43)) b of
                  Some c \<Rightarrow> ts\<lparr>cipher := be_u16 (c ! 0) (c ! 1)\<rparr>
                | None \<Rightarrow> ts)
             else ts
        else if take 2 b = tls_handshake_start \<and> b ! 5 = tls_handshake_client_hello
          then ts\<lparr>is_tls := True\<rparr>
        else ts
      else ts)"

text \<open>The part of the packet that still belongs to the ServerHello.\<close>

definition sniff_versions :: "bytes \<Rightarrow> traffic_state \<Rightarrow> traffic_state" where
  "sniff_versions b ts =
     (if 0 < remaining_server_hello ts then
        let stop = min (nat (remaining_server_hello ts)) (length b);
            ts = ts\<lparr>remaining_server_hello :=
                   i32 (remaining_server_hello ts - i32 (int (length b)))\<rparr>
        in if tls13_supported_versions \<in> set (windows (length tls13_supported_versions) (take stop b))
           then ts\<lparr>enable_xtls := xtls_ciphers (cipher ts), filter_budget := 0\<rparr>
           else if remaining_server_hello ts \<le> 0 then ts\<lparr>filter_budget := 0\<rparr>
           else ts
      else ts)"

definition traffic_filter :: "traffic_state \<Rightarrow> bytes \<Rightarrow> traffic_state" where
  "traffic_filter ts b =
     (if filter_budget ts \<le> 0 then ts
      else sniff_versions b (sniff_hello b (ts\<lparr>filter_budget := filter_budget ts - 1\<rparr>)))"

section \<open>Complete records\<close>

function complete_from :: "bytes \<Rightarrow> nat \<Rightarrow> bool" where
  "complete_from d i =
     (if i < length d then
        if length d - i < tls_record_header_len then False
        else if d ! i \<noteq> hd tls_application_data_start then False
        else complete_from d (i + (tls_record_header_len + unat (be_u16 (d ! (i + 3)) (d ! (i + 4)))))
      else i = length d)"
  by pat_completeness auto
termination
  by (relation "measure (\<lambda>(d, i). length d - i)") (auto simp: tls_record_header_len_def)

declare complete_from.simps [simp del]

definition is_complete_record :: "bytes \<Rightarrow> bool" where
  "is_complete_record d = complete_from d 0"

section \<open>Splitting a write\<close>

definition reshape_at :: "bytes \<Rightarrow> nat" where
  "reshape_at rest =
     (let window = take (min (max_frame_content + length tls_application_data_start) (length rest)) rest in
      case rposition (\<lambda>w. w = tls_application_data_start)
             (windows (length tls_application_data_start) window) of
        Some i \<Rightarrow> if uuid_len + header_len \<le> i \<and> i \<le> max_frame_content then i else buf_size div 2
      | None \<Rightarrow> buf_size div 2)"

lemma reshape_at_bounds: "21 \<le> reshape_at r \<and> reshape_at r \<le> 8171"
  by (auto simp: reshape_at_def Let_def const_defs split: option.splits)

function reshape :: "bytes \<Rightarrow> bytes list" where
  "reshape rest =
     (if max_frame_content \<le> length rest
      then take (reshape_at rest) rest # reshape (drop (reshape_at rest) rest)
      else [rest])"
  by pat_completeness auto
termination
proof (relation "measure length")
  fix rest :: bytes
  assume "max_frame_content \<le> length rest"
  then have "8171 \<le> length rest" by (simp add: const_defs)
  with reshape_at_bounds [of rest] have "0 < reshape_at rest" "0 < length rest" by linarith+
  then show "(drop (reshape_at rest) rest, rest) \<in> measure length" by simp
qed simp

declare reshape.simps [simp del]

section \<open>What the sniffing guarantees\<close>

definition traffic_inv :: "traffic_state \<Rightarrow> bool" where
  "traffic_inv ts \<longleftrightarrow>
     0 \<le> filter_budget ts \<and> filter_budget ts \<le> 8 \<and>
     (is_tls12_or_above ts \<longrightarrow> is_tls ts) \<and>
     (0 < remaining_server_hello ts \<longrightarrow> is_tls12_or_above ts) \<and>
     (enable_xtls ts \<longrightarrow> is_tls12_or_above ts \<and> filter_budget ts = 0 \<and> xtls_ciphers (cipher ts))"

definition traffic_le :: "traffic_state \<Rightarrow> traffic_state \<Rightarrow> bool" where
  "traffic_le s t \<longleftrightarrow>
     filter_budget t \<le> filter_budget s \<and> (is_tls s \<longrightarrow> is_tls t) \<and>
     (is_tls12_or_above s \<longrightarrow> is_tls12_or_above t) \<and> (enable_xtls s \<longrightarrow> enable_xtls t)"

lemma sniff_hello_fields:
  "filter_budget (sniff_hello b ts) = filter_budget ts"
  "enable_xtls (sniff_hello b ts) = enable_xtls ts"
  "is_tls ts \<Longrightarrow> is_tls (sniff_hello b ts)"
  "is_tls12_or_above ts \<Longrightarrow> is_tls12_or_above (sniff_hello b ts)"
  by (auto simp: sniff_hello_def Let_def split: option.splits)

lemma sniff_hello_tls:
  "is_tls12_or_above (sniff_hello b ts) \<Longrightarrow> (is_tls12_or_above ts \<longrightarrow> is_tls ts) \<Longrightarrow>
     is_tls (sniff_hello b ts)"
  "0 < remaining_server_hello (sniff_hello b ts) \<Longrightarrow>
     (0 < remaining_server_hello ts \<longrightarrow> is_tls12_or_above ts) \<Longrightarrow> is_tls12_or_above (sniff_hello b ts)"
  by (auto simp: sniff_hello_def Let_def split: option.splits if_splits)

lemma sniff_versions_fields:
  "is_tls (sniff_versions b ts) = is_tls ts"
  "is_tls12_or_above (sniff_versions b ts) = is_tls12_or_above ts"
  "cipher (sniff_versions b ts) = cipher ts"
  "filter_budget (sniff_versions b ts) = filter_budget ts \<or> filter_budget (sniff_versions b ts) = 0"
  "0 < remaining_server_hello (sniff_versions b ts) \<Longrightarrow> 0 < remaining_server_hello ts"
  "enable_xtls (sniff_versions b ts) \<Longrightarrow> \<not> enable_xtls ts \<Longrightarrow>
     0 < remaining_server_hello ts \<and> xtls_ciphers (cipher ts) \<and> filter_budget (sniff_versions b ts) = 0"
  by (auto simp: sniff_versions_def Let_def split: if_splits)

lemma traffic_filter_inv:
  assumes "traffic_inv ts" shows "traffic_inv (traffic_filter ts b)"
proof (cases "filter_budget ts \<le> 0")
  case True
  with assms show ?thesis by (simp add: traffic_filter_def)
next
  case False
  define t where "t = sniff_hello b (ts\<lparr>filter_budget := filter_budget ts - 1\<rparr>)"
  have ts: "traffic_filter ts b = sniff_versions b t"
    using False by (simp add: traffic_filter_def t_def)
  have "0 \<le> filter_budget t" "filter_budget t \<le> 8" "\<not> enable_xtls t"
    "is_tls12_or_above t \<longrightarrow> is_tls t" "0 < remaining_server_hello t \<longrightarrow> is_tls12_or_above t"
    using False assms sniff_hello_tls [of b "ts\<lparr>filter_budget := filter_budget ts - 1\<rparr>"]
    by (auto simp: t_def sniff_hello_fields traffic_inv_def)
  with sniff_versions_fields(4-6) [of b t] show ?thesis
    unfolding ts traffic_inv_def sniff_versions_fields(1-3) by fastforce
qed

lemma traffic_filter_le:
  assumes "traffic_inv ts" shows "traffic_le ts (traffic_filter ts b)"
proof (cases "filter_budget ts \<le> 0")
  case True
  then show ?thesis by (simp add: traffic_filter_def traffic_le_def)
next
  case False
  define t where "t = sniff_hello b (ts\<lparr>filter_budget := filter_budget ts - 1\<rparr>)"
  have "filter_budget (sniff_versions b t) \<le> filter_budget ts"
    using sniff_versions_fields(4) [of b t] False by (auto simp: t_def sniff_hello_fields)
  moreover have "\<not> enable_xtls ts" using False assms by (auto simp: traffic_inv_def)
  moreover have "traffic_filter ts b = sniff_versions b t"
    using False by (simp add: traffic_filter_def t_def)
  ultimately show ?thesis
    by (simp add: traffic_le_def sniff_versions_fields) (simp add: t_def sniff_hello_fields)
qed

interpretation traffic: monotone_machine traffic_filter traffic_inv traffic_le
  by unfold_locales
    (auto simp: traffic_filter_inv traffic_filter_le, auto simp: traffic_le_def)

lemma traffic_inv_new [simp]: "traffic_inv traffic_new"
  by (simp add: traffic_inv_def traffic_new_def const_defs)

lemma traffic_filter_budget:
  "traffic_inv ts \<Longrightarrow> 0 < filter_budget ts \<Longrightarrow> filter_budget (traffic_filter ts b) < filter_budget ts"
  using sniff_versions_fields(4) [of b "sniff_hello b (ts\<lparr>filter_budget := filter_budget ts - 1\<rparr>)"]
  by (auto simp: traffic_filter_def sniff_hello_fields)

lemma traffic_filter_spent: "filter_budget ts \<le> 0 \<Longrightarrow> run traffic_filter ts ps = ts"
  by (induction ps) (simp_all add: traffic_filter_def)

lemma traffic_budget_take:
  "traffic_inv ts \<Longrightarrow> filter_budget ts \<le> int n \<Longrightarrow>
     run traffic_filter ts ps = run traffic_filter ts (take n ps)"
proof (induction n arbitrary: ts ps)
  case 0
  then show ?case by (simp add: traffic_filter_spent)
next
  case (Suc n)
  show ?case
  proof (cases ps)
    case (Cons p qs)
    have "filter_budget (traffic_filter ts p) \<le> int n"
    proof (cases "0 < filter_budget ts")
      case True
      then show ?thesis using traffic_filter_budget [OF Suc.prems(1) True, of p] Suc.prems(2) by simp
    qed (simp add: traffic_filter_def)
    from Suc.IH [OF traffic_filter_inv [OF Suc.prems(1)] this] show ?thesis by (simp add: Cons)
  qed simp
qed

lemma hello_length:
  "(push_bit 8 (int (unat a)) OR int (unat b)) + int tls_record_header_len
     = int (5 + unat (be_u16 a b))" for a b :: u8
proof -
  have "push_bit 8 (int (unat a)) OR int (unat b) = push_bit 8 (int (unat a)) + int (unat b)"
  proof (rule disjunctive_add [symmetric])
    fix n
    show "\<not> bit (push_bit 8 (int (unat a))) n \<or> \<not> bit (int (unat b)) n"
    proof (cases "n < 8")
      case False
      have "int (unat b) = take_bit 8 (int (unat b))"
        using uint_bounded [of b] by (simp add: take_bit_int_eq_self)
      then have "\<not> bit (int (unat b)) n" using False by (metis bit_take_bit_iff)
      then show ?thesis by simp
    qed (simp add: bit_push_bit_iff)
  qed
  then show ?thesis by (simp add: push_bit_eq_mult unat_be_u16 const_defs)
qed

lemma i32_small: "- 2147483648 \<le> x \<Longrightarrow> x < 2147483648 \<Longrightarrow> i32 x = x"
  unfolding i32_def by (rule signed_take_bit_int_eq_self) simp_all

section \<open>What enables direct copy\<close>

text \<open>A packet that begins with a ServerHello (of TLS 1.2 or above).\<close>

definition server_hello :: "bytes \<Rightarrow> bool" where
  "server_hello b \<longleftrightarrow> 6 \<le> length b \<and> take 3 b = [0x16, 3, 3] \<and> b ! 5 = 2"

definition hello_suite :: "bytes \<Rightarrow> u16" where
  "hello_suite h = be_u16 (h ! (44 + unat (h ! 43))) (h ! (45 + unat (h ! 43)))"

lemma sniff_hello_server:
  assumes "server_hello b"
  shows "remaining_server_hello (sniff_hello b ts) = int (record_len b)"
    "cipher (sniff_hello b ts) = cipher ts \<or> 79 \<le> length b \<and> cipher (sniff_hello b ts) = hello_suite b"
proof -
  have h: "(push_bit 8 (int (unat (b ! 3))) OR int (unat (b ! 4))) + int tls_record_header_len
      = int (record_len b)"
    by (simp only: hello_length record_len_def)
  show "remaining_server_hello (sniff_hello b ts) = int (record_len b)"
    "cipher (sniff_hello b ts) = cipher ts \<or> 79 \<le> length b \<and> cipher (sniff_hello b ts) = hello_suite b"
    using assms unfolding server_hello_def sniff_hello_def h
    by (auto simp: tls_server_handshake_start_def tls_handshake_server_hello_def hello_suite_def Let_def
        get_range_def slice_def add.commute split: option.splits if_splits)
qed

lemma sniff_hello_other:
  assumes "\<not> server_hello b"
  shows "remaining_server_hello (sniff_hello b ts) = remaining_server_hello ts"
    "cipher (sniff_hello b ts) = cipher ts"
  using assms
  by (auto simp: server_hello_def sniff_hello_def Let_def tls_server_handshake_start_def tls_handshake_server_hello_def)

text \<open>The packet \<open>b\<close> is one of the ServerHello that the first packet of \<open>seg @ [b]\<close> begins, and the
  part of it that belongs to the ServerHello names TLS 1.3.\<close>

definition names_tls13 :: "bytes list \<Rightarrow> bytes \<Rightarrow> bool" where
  "names_tls13 seg b \<longleftrightarrow>
     (let h = hd (seg @ [b]) in
      server_hello h \<and> (\<forall>q \<in> set (tl (seg @ [b])). \<not> server_hello q) \<and>
      [0x00, 0x2b, 0x00, 0x02, 0x03, 0x04] \<in> set (windows 6 (take (record_len h - length (concat seg)) b)))"

definition sniffing_inv :: "bytes list \<Rightarrow> traffic_state \<Rightarrow> bool" where
  "sniffing_inv ps ts \<longleftrightarrow>
     (0 < filter_budget ts \<longrightarrow> filter_budget ts + int (length ps) = 8) \<and>
     (0 < filter_budget ts \<and> 0 < remaining_server_hello ts \<longrightarrow>
        (\<exists>pre h seg. ps = pre @ h # seg \<and> server_hello h \<and> (\<forall>q \<in> set seg. \<not> server_hello q) \<and>
           remaining_server_hello ts = int (record_len h) - int (length (concat (h # seg))))) \<and>
     (cipher ts \<noteq> 0 \<longrightarrow> (\<exists>h \<in> set ps. server_hello h \<and> 79 \<le> length h \<and> cipher ts = hello_suite h)) \<and>
     (enable_xtls ts \<longrightarrow>
        (\<exists>pre seg b post. ps = pre @ seg @ b # post \<and> length (pre @ seg) < 8 \<and> names_tls13 seg b))"

lemma sniff_versions_open:
  assumes "0 < filter_budget (sniff_versions b ts)" and "0 < remaining_server_hello ts"
    and "remaining_server_hello ts < 2147483648" and "length b < 2147483648"
  shows "remaining_server_hello (sniff_versions b ts) = remaining_server_hello ts - int (length b)"
proof -
  have "i32 (int (length b)) = int (length b)"
    "i32 (remaining_server_hello ts - int (length b)) = remaining_server_hello ts - int (length b)"
    using assms(2-4) by (auto intro!: i32_small)
  with assms(1,2) show ?thesis by (simp add: sniff_versions_def Let_def split: if_splits)
qed

lemma sniff_versions_enables:
  assumes "enable_xtls (sniff_versions b ts)" and "\<not> enable_xtls ts"
  shows "[0x00, 0x2b, 0x00, 0x02, 0x03, 0x04] \<in> set (windows 6 (take (nat (remaining_server_hello ts)) b))"
proof -
  have six: "Suc (Suc (Suc (Suc (Suc (Suc 0))))) = 6" by simp
  have "take (min n (length b)) b = take n b" for n by (simp add: min_def)
  with assms show ?thesis
    by (simp add: sniff_versions_def Let_def tls13_supported_versions_def six split: if_splits)
qed

lemma record_len_bound: "record_len h < 65541"
  using unat_u16_bound [of "be_u16 (h ! 3) (h ! 4)"] by (simp add: record_len_def)

text \<open>What is open after the packet \<open>b\<close> has been looked at for a ServerHello.\<close>

lemma sniff_hello_open:
  assumes "0 < remaining_server_hello ts \<longrightarrow>
      (\<exists>pre h seg. ps = pre @ h # seg \<and> server_hello h \<and> (\<forall>q \<in> set seg. \<not> server_hello q) \<and>
         remaining_server_hello ts = int (record_len h) - int (length (concat (h # seg))))"
    and "0 < remaining_server_hello (sniff_hello b ts)"
  obtains pre seg where "ps = pre @ seg" "server_hello (hd (seg @ [b]))"
    "\<forall>q \<in> set (tl (seg @ [b])). \<not> server_hello q"
    "remaining_server_hello (sniff_hello b ts) = int (record_len (hd (seg @ [b]))) - int (length (concat seg))"
proof (cases "server_hello b")
  case True
  with sniff_hello_server(1) [OF True] show thesis by (intro that [of ps "[]"]) simp_all
next
  case False
  from assms sniff_hello_other(1) [OF False] obtain pre h seg where "ps = pre @ h # seg" "server_hello h"
    "\<forall>q \<in> set seg. \<not> server_hello q" "remaining_server_hello ts = int (record_len h) - int (length (concat (h # seg)))"
    by auto
  with False sniff_hello_other(1) [OF False] show thesis by (intro that [of pre "h # seg"]) auto
qed

lemma sniffing_inv_step:
  assumes "sniffing_inv ps ts" and "traffic_inv ts" and b: "length b < 2147483648"
  shows "sniffing_inv (ps @ [b]) (traffic_filter ts b)"
proof (cases "0 < filter_budget ts")
  case False
  then have eq: "traffic_filter ts b = ts" by (simp add: traffic_filter_def)
  have mono: "\<exists>pre seg c post. ps @ [b] = pre @ seg @ c # post \<and> length (pre @ seg) < 8 \<and> names_tls13 seg c"
    if "\<exists>pre seg c post. ps = pre @ seg @ c # post \<and> length (pre @ seg) < 8 \<and> names_tls13 seg c"
    using that by (metis append.assoc append_Cons)
  from assms(1) False mono show ?thesis unfolding sniffing_inv_def eq by auto
next
  case True
  let ?ts = "ts\<lparr>filter_budget := filter_budget ts - 1\<rparr>"
  let ?t = "sniff_hello b ?ts" and ?s = "traffic_filter ts b"
  have s: "?s = sniff_versions b ?t" using True by (simp add: traffic_filter_def)
  have off: "\<not> enable_xtls ?t" using True assms(2) by (auto simp: traffic_inv_def sniff_hello_fields)
  have budget: "0 < filter_budget ?s \<Longrightarrow> filter_budget ?s = filter_budget ts - 1"
    using sniff_versions_fields(4) [of b ?t] by (auto simp: s sniff_hello_fields)
  have n: "filter_budget ts + int (length ps) = 8" using assms(1) True by (simp add: sniffing_inv_def)
  have "0 < remaining_server_hello ?ts \<longrightarrow>
      (\<exists>pre h seg. ps = pre @ h # seg \<and> server_hello h \<and> (\<forall>q \<in> set seg. \<not> server_hello q) \<and>
         remaining_server_hello ?ts = int (record_len h) - int (length (concat (h # seg))))"
    using assms(1) True by (simp add: sniffing_inv_def)
  note opened = sniff_hello_open [OF this]
  have 1: "\<exists>pre h seg. ps @ [b] = pre @ h # seg \<and> server_hello h \<and> (\<forall>q \<in> set seg. \<not> server_hello q) \<and>
      remaining_server_hello ?s = int (record_len h) - int (length (concat (h # seg)))"
    if o: "0 < filter_budget ?s" "0 < remaining_server_hello ?s"
  proof -
    have r: "0 < remaining_server_hello ?t" using o(2) sniff_versions_fields(5) by (simp add: s)
    show ?thesis
    proof (rule opened [OF r])
      fix pre seg
      let ?h = "hd (seg @ [b])"
      assume h: "ps = pre @ seg" "server_hello ?h" "\<forall>q \<in> set (tl (seg @ [b])). \<not> server_hello q"
        "remaining_server_hello ?t = int (record_len ?h) - int (length (concat seg))"
      have "remaining_server_hello ?s = remaining_server_hello ?t - int (length b)"
        using sniff_versions_open [OF _ r _ b] o(1) record_len_bound [of ?h] h(4) by (simp add: s)
      moreover have "?h # tl (seg @ [b]) = seg @ [b]" by (cases seg) simp_all
      ultimately have "ps @ [b] = pre @ ?h # tl (seg @ [b])"
        "remaining_server_hello ?s = int (record_len ?h) - int (length (concat (?h # tl (seg @ [b]))))"
        using h(1,4) by simp_all
      with h(2,3) show ?thesis by blast
    qed
  qed
  have 2: "\<exists>h \<in> set (ps @ [b]). server_hello h \<and> 79 \<le> length h \<and> cipher ?s = hello_suite h" if "cipher ?s \<noteq> 0"
  proof (cases "cipher ?t = cipher ts")
    case True
    with assms(1) that show ?thesis by (auto simp: sniffing_inv_def s sniff_versions_fields)
  next
    case False
    then have "server_hello b" using sniff_hello_other(2) [of b ?ts] by auto
    with sniff_hello_server(2) [OF this, of ?ts] False show ?thesis by (auto simp: s sniff_versions_fields)
  qed
  have 3: "\<exists>pre seg c post. ps @ [b] = pre @ seg @ c # post \<and> length (pre @ seg) < 8 \<and> names_tls13 seg c"
    if e: "enable_xtls ?s"
  proof -
    have r: "0 < remaining_server_hello ?t" using sniff_versions_fields(6) [of b ?t] e off by (simp add: s)
    note w = sniff_versions_enables [OF e [unfolded s] off]
    show ?thesis
    proof (rule opened [OF r])
      fix pre seg
      assume h: "ps = pre @ seg" "server_hello (hd (seg @ [b]))" "\<forall>q \<in> set (tl (seg @ [b])). \<not> server_hello q"
        "remaining_server_hello ?t = int (record_len (hd (seg @ [b]))) - int (length (concat seg))"
      have "nat (remaining_server_hello ?t) = record_len (hd (seg @ [b])) - length (concat seg)"
        using h(4) by simp
      with h(2,3) w have "names_tls13 seg b" by (simp add: names_tls13_def Let_def)
      moreover have "ps @ [b] = pre @ seg @ b # []" "length (pre @ seg) < 8" using h(1) n True by simp_all
      ultimately show ?thesis by blast
    qed
  qed
  have "0 < filter_budget ?s \<longrightarrow> filter_budget ?s + int (length (ps @ [b])) = 8" using budget n by auto
  with 1 2 3 show ?thesis unfolding sniffing_inv_def by blast
qed

lemma sniffing_inv_run:
  "\<forall>p \<in> set ps. length p < 2147483648 \<Longrightarrow> sniffing_inv ps (run traffic_filter traffic_new ps)"
proof (induction ps rule: rev_induct)
  case Nil
  then show ?case by (simp add: sniffing_inv_def traffic_new_def const_defs)
next
  case (snoc b ps)
  then show ?case
    using sniffing_inv_step [of ps "run traffic_filter traffic_new ps" b] by (simp add: run_append traffic.run_inv)
qed

text \<open>
  C35: Whatever packets are sniffed in whatever order, direct copy is only ever enabled for a
  TLS 1.3 session: a ServerHello was seen, and the record it began named TLS 1.3 in its
  supported_versions extension, within one packet and among the first eight; the suite is one of
  0x1301 to 0x1304, read behind the session id of a ServerHello that was seen; and sniffing is
  finished. What was once recognised (TLS, TLS 1.2 or above, direct copy) is never taken back by later
  packets.
\<close>

theorem sniffing_sound:
  assumes "\<forall>p \<in> set ps. length p < 2147483648"
  shows "let s = run traffic_filter traffic_new ps; t = run traffic_filter traffic_new (ps @ qs) in
     (enable_xtls s \<longrightarrow> is_tls s \<and> is_tls12_or_above s \<and> filter_budget s = 0 \<and>
        0x1301 \<le> cipher s \<and> cipher s \<le> 0x1304 \<and>
        (\<exists>pre seg b post. ps = pre @ seg @ b # post \<and> length (pre @ seg) < 8 \<and> names_tls13 seg b) \<and>
        (\<exists>h \<in> set ps. server_hello h \<and> 79 \<le> length h \<and> cipher s = hello_suite h)) \<and>
     (is_tls s \<longrightarrow> is_tls t) \<and> (is_tls12_or_above s \<longrightarrow> is_tls12_or_above t) \<and>
     (enable_xtls s \<longrightarrow> enable_xtls t)"
proof -
  let ?s = "run traffic_filter traffic_new ps"
  have i: "traffic_inv ?s" by (simp add: traffic.run_inv)
  have "xtls_ciphers (cipher ?s) \<Longrightarrow> cipher ?s \<noteq> 0" by (auto simp: xtls_ciphers_def)
  with sniffing_inv_run [OF assms] traffic.run_le [OF i, of qs] i show ?thesis
    unfolding run_append traffic_inv_def traffic_le_def xtls_ciphers_def sniffing_inv_def Let_def by blast
qed

text \<open>A ServerHello of 90 bytes: no session id, suite 0x1301, the extension at the end.\<close>

definition sample_hello :: bytes where
  "sample_hello = [0x16, 3, 3, 0, 85, 2] @ replicate 38 0 @ [0x13, 0x01] @ replicate 38 0
     @ tls13_supported_versions"

lemma sample_hello_enables: "enable_xtls (run traffic_filter traffic_new [sample_hello])"
  by code_simp

lemma sample_hello_length: "length sample_hello < 2147483648"
  by (simp add: sample_hello_def const_defs)

theorem sniffing_sound_witness:
  "let s = run traffic_filter traffic_new [sample_hello];
       t = run traffic_filter traffic_new [sample_hello, [1]] in
     is_tls s \<and> is_tls12_or_above t \<and> enable_xtls t \<and>
     (\<exists>h \<in> set [sample_hello]. server_hello h \<and> cipher s = hello_suite h)"
proof -
  have l: "\<forall>p \<in> set [sample_hello]. length p < 2147483648" by (simp add: sample_hello_length)
  from sniffing_sound [OF l, of "[[1]]"] sample_hello_enables show ?thesis by (auto simp: Let_def)
qed

text \<open>
  Sniffing is bounded: only the first eight packets of both directions together can
  influence the state, every later packet leaves it unchanged.
\<close>

theorem sniffing_bounded:
  "run traffic_filter traffic_new ps = run traffic_filter traffic_new (take 8 ps)"
  using traffic_budget_take [OF traffic_inv_new, of 8 ps] by (simp add: traffic_new_def const_defs)

lemma sniff_server_hello:
  assumes "79 \<le> record_len b" and "record_len b \<le> length b" and "take 3 b = [0x16, 3, 3]"
    and "b ! 5 = 2"
  shows "sniff_hello b ts = ts\<lparr>remaining_server_hello := int (record_len b),
    is_tls12_or_above := True, is_tls := True,
    cipher := if 46 + unat (b ! 43) \<le> length b
      then be_u16 (b ! (44 + unat (b ! 43))) (b ! (45 + unat (b ! 43))) else cipher ts\<rparr>"
proof -
  have h: "(push_bit 8 (int (unat (b ! 3))) OR int (unat (b ! 4))) + int tls_record_header_len
      = int (record_len b)"
    by (simp only: hello_length record_len_def)
  have "79 \<le> int (record_len b)" "79 \<le> length b" using assms by linarith+
  then show ?thesis
    using assms(3,4) unfolding sniff_hello_def h
    by (cases ts) (simp add: get_range_def slice_def tls_server_handshake_start_def
        tls_handshake_server_hello_def Let_def add.commute)
qed

text \<open>
  C28: A packet that holds a whole ServerHello record decides at once: the session is TLS 1.2
  or above, the suite is read behind the session id, sniffing stops, and direct copy is
  enabled exactly if the record carries the TLS 1.3 supported_versions extension and the
  suite is one of the four.
\<close>

theorem server_hello_decides:
  assumes "traffic_inv ts" and "0 < filter_budget ts" and "79 \<le> record_len b"
    and "record_len b \<le> length b" and "length b < 2147483648"
    and "take 3 b = [0x16, 3, 3]" and "b ! 5 = 2"
  shows "let ts' = traffic_filter ts b; sid = unat (b ! 43);
      c = (if 46 + sid \<le> length b then be_u16 (b ! (44 + sid)) (b ! (45 + sid)) else cipher ts) in
    is_tls ts' \<and> is_tls12_or_above ts' \<and> filter_budget ts' = 0 \<and> cipher ts' = c \<and>
    (enable_xtls ts' \<longleftrightarrow>
       [0x00, 0x2b, 0x00, 0x02, 0x03, 0x04] \<in> set (windows 6 (take (record_len b) b)) \<and>
       0x1301 \<le> c \<and> c \<le> 0x1304)"
proof -
  have e: "\<not> enable_xtls ts" using assms(1,2) by (auto simp: traffic_inv_def)
  have "record_len b < 65541"
    using unat_u16_bound [of "be_u16 (b ! 3) (b ! 4)"] by (simp add: record_len_def)
  then have i: "i32 (int (length b)) = int (length b)"
    "i32 (int (record_len b) - int (length b)) = int (record_len b) - int (length b)"
    using assms(3,4,5) by (auto intro!: i32_small)
  have six: "Suc (Suc (Suc (Suc (Suc (Suc 0))))) = 6" by simp
  have r: "0 < record_len b" "min (record_len b) (length b) = record_len b"
    using assms(3,4) by linarith+
  show ?thesis
    using e assms(2) assms(4)
    by (simp add: traffic_filter_def sniff_server_hello [OF assms(3,4,6,7)] sniff_versions_def r i six
        Let_def tls13_supported_versions_def xtls_ciphers_def)
qed

lemma sample_hello_facts:
  "79 \<le> record_len sample_hello" "record_len sample_hello \<le> length sample_hello"
  "take 3 sample_hello = [0x16, 3, 3]" "sample_hello ! 5 = 2"
  "unat (sample_hello ! 43) = 0" "be_u16 (sample_hello ! 44) (sample_hello ! 45) = 0x1301"
  "46 \<le> length sample_hello"
  "[0x00, 0x2b, 0x00, 0x02, 0x03, 0x04]
     \<in> set (windows 6 (take (record_len sample_hello) sample_hello))"
  by code_simp+

theorem server_hello_decides_witness:
  "enable_xtls (traffic_filter traffic_new sample_hello)"
proof -
  have "0 < filter_budget traffic_new" by (simp add: traffic_new_def const_defs)
  from server_hello_decides [OF traffic_inv_new this sample_hello_facts(1,2)
      sample_hello_length sample_hello_facts(3,4)] show ?thesis
    by (simp add: Let_def sample_hello_facts)
qed

section \<open>Complete records\<close>

lemma complete_from_units:
  "i \<le> length d \<Longrightarrow> complete_from d i \<longleftrightarrow>
     unit_rest 5 record_len (drop i d) = [] \<and> (\<forall>u \<in> set (units 5 record_len (drop i d)). hd u = 0x17)"
proof (induction d i rule: complete_from.induct)
  case (1 d i)
  let ?r = "drop i d"
  show ?case
  proof (cases "i < length d \<and> 5 \<le> length ?r")
    case True
    have len: "record_len ?r = 5 + unat (be_u16 (d ! (i + 3)) (d ! (i + 4)))"
      using True by (simp add: record_len_def)
    have hd: "hd (take (record_len ?r) ?r) = d ! i"
      using True by (simp add: len hd_drop_conv_nth)
    show ?thesis
    proof (cases "record_len ?r \<le> length ?r")
      case fits: True
      then have "i + record_len ?r \<le> length d"
        using True by (simp add: le_diff_conv2 add.commute)
      with True fits 1 len hd show ?thesis
        by (subst complete_from.simps, subst units.simps, subst unit_rest.simps)
          (auto simp: complete_def const_defs add.commute add.left_commute)
    next
      case False
      then have "\<not> complete_from d (i + record_len ?r)"
        by (subst complete_from.simps) (use True in auto)
      with True False len show ?thesis
        by (subst complete_from.simps, subst unit_rest.simps) (auto simp: complete_def const_defs)
    qed
  next
    case False
    with 1(2) show ?thesis
      by (subst complete_from.simps, subst units.simps, subst unit_rest.simps)
        (auto simp: complete_def const_defs)
  qed
qed

lemma record_of_unit:
  assumes "u \<in> set (units 5 record_len b)"
  shows "\<exists>a c p. u = tls_record (hd u) a c p \<and> length p < 65536"
proof -
  have u: "5 \<le> length u" "record_len u = length u" using rec.units_sound [OF assms] by simp_all
  then have "complete 5 record_len u" by (simp add: complete_def)
  from tls_record_split [OF this] u show ?thesis
    by (metis hd_conv_nth list.size(3) not_numeral_le_zero take_all order_refl)
qed

lemma map_choice:
  "\<forall>y \<in> set ys. \<exists>x. y = f x \<and> P x \<Longrightarrow> \<exists>xs. ys = map f xs \<and> (\<forall>x \<in> set xs. P x)"
proof (induction ys)
  case (Cons y ys)
  then obtain x xs where "y = f x" "P x" "ys = map f xs" "\<forall>x \<in> set xs. P x" by auto
  then show ?case by (intro exI [of _ "x # xs"]) simp
qed simp

definition data_record :: "u8 \<times> u8 \<times> bytes \<Rightarrow> bytes" where
  "data_record = (\<lambda>(a, c, p). tls_record 0x17 a c p)"

lemma data_record_unit:
  "length (snd (snd x)) < 65536 \<Longrightarrow> 5 \<le> length (data_record x) \<and>
     record_len (data_record x) = length (data_record x) \<and> hd (data_record x) = 0x17"
  using record_len_tls_record [where p = "snd (snd x)" and k = "0x17" and a = "fst x" and b = "fst (snd x)"
    and c = "[]"]
  by (cases x) (simp add: data_record_def tls_record_def)

text \<open>
  C27: The test that guards the switch to direct copy is exact: a write passes it if and only
  if it is a sequence of whole application-data records (type 0x17, any version bytes, any
  payload that fits the length field) with nothing before, between or behind them.
\<close>

theorem complete_record_exact:
  "is_complete_record d \<longleftrightarrow>
     (\<exists>rs. d = concat (map data_record rs) \<and> (\<forall>x \<in> set rs. length (snd (snd x)) < 65536))"
proof
  assume "is_complete_record d"
  then have u: "unit_rest 5 record_len d = []" "\<forall>u \<in> set (units 5 record_len d). hd u = 0x17"
    by (simp_all add: is_complete_record_def complete_from_units)
  have "\<forall>u \<in> set (units 5 record_len d). \<exists>x. u = data_record x \<and> length (snd (snd x)) < 65536"
    using u(2) record_of_unit by (fastforce simp: data_record_def)
  from map_choice [OF this] u(1) units_rest [of 5 record_len d]
  show "\<exists>rs. d = concat (map data_record rs) \<and> (\<forall>x \<in> set rs. length (snd (snd x)) < 65536)"
    by auto
next
  assume "\<exists>rs. d = concat (map data_record rs) \<and> (\<forall>x \<in> set rs. length (snd (snd x)) < 65536)"
  then obtain rs where rs: "d = concat (map data_record rs)"
    "\<forall>x \<in> set rs. length (snd (snd x)) < 65536" by blast
  then have "\<forall>u \<in> set (map data_record rs). 5 \<le> length u \<and> record_len u = length u"
    using data_record_unit by auto
  from rec.units_concat [OF this, of "[]"] rs data_record_unit show "is_complete_record d"
    by (auto simp: is_complete_record_def complete_from_units units.simps [of _ _ "[]"]
        unit_rest.simps [of _ _ "[]"] complete_def)
qed

theorem complete_record_exact_witness:
  "is_complete_record (tls_record 0x17 3 3 [7, 8] @ tls_record 0x17 3 3 [])"
  using complete_record_exact [of "tls_record 0x17 3 3 [7, 8] @ tls_record 0x17 3 3 []"]
  by (auto intro!: exI [of _ "[(3, 3, [7, 8]), (3, 3, [])]"] simp: data_record_def)

section \<open>Pieces of a write\<close>

lemma reshape_at_marker:
  assumes "reshape_at r \<noteq> 4096"
  shows "take 3 (drop (reshape_at r) r) = tls_application_data_start"
proof -
  let ?w = "take (min (max_frame_content + length tls_application_data_start) (length r)) r"
  obtain i where i: "rposition (\<lambda>w. w = tls_application_data_start)
      (windows (length tls_application_data_start) ?w) = Some i" "reshape_at r = i"
    using assms by (auto simp: reshape_at_def Let_def buf_size_def split: option.splits if_splits)
  from i(1) have "i < length (windows 3 ?w)"
    using rposition_Some_less [OF i(1)] by (simp add: tls_application_data_start_def)
  moreover have "windows (length tls_application_data_start) ?w ! i = tls_application_data_start"
    by (rule rposition_Some_sat [OF i(1)])
  moreover have "length tls_application_data_start = 3" by (simp add: tls_application_data_start_def)
  ultimately have "take 3 (drop i ?w) = tls_application_data_start" by simp
  moreover from this have "length (take 3 (drop i ?w)) = 3" by (simp add: tls_application_data_start_def)
  ultimately have "take 3 (drop i r) = tls_application_data_start" by (metis take_drop_take)
  with i(2) show ?thesis by simp
qed

lemma reshape_concat: "concat (reshape d) = d"
proof (induction d rule: reshape.induct)
  case (1 d)
  then show ?case by (subst reshape.simps) simp
qed

lemma reshape_not_Nil: "reshape d \<noteq> []"
  by (subst reshape.simps) simp

lemma reshape_pieces:
  "(\<forall>p \<in> set (reshape d). length p \<le> 8171) \<and> (\<forall>p \<in> set (butlast (reshape d)). 21 \<le> length p) \<and>
   (d \<noteq> [] \<longrightarrow> last (reshape d) \<noteq> []) \<and> length (last (reshape d)) < 8171"
proof (induction d rule: reshape.induct)
  case (1 d)
  show ?case
  proof (cases "max_frame_content \<le> length d")
    case True
    have len: "8171 \<le> length d" using True by (simp add: const_defs)
    have "drop (reshape_at d) d \<noteq> []"
    proof (cases "reshape_at d = 4096")
      case False
      show ?thesis using reshape_at_marker [OF False]
        by (auto simp: tls_application_data_start_def)
    qed (use len in auto)
    with 1 [OF True] True len reshape_at_bounds [of d] reshape_not_Nil show ?thesis
      by (subst (1 2 3 4) reshape.simps) auto
  next
    case False
    then show ?thesis by (subst (1 2 3 4) reshape.simps) (simp add: const_defs)
  qed
qed

text \<open>Where a cut may fall: in front of an application-data record header, or at 4096.\<close>

fun cuts_ok :: "bytes list \<Rightarrow> bool" where
  "cuts_ok (p # q # ps) \<longleftrightarrow>
     (length p = 4096 \<or> take 3 (concat (q # ps)) = tls_application_data_start) \<and> cuts_ok (q # ps)"
| "cuts_ok _ \<longleftrightarrow> True"

lemma reshape_cuts: "cuts_ok (reshape d)"
proof (induction d rule: reshape.induct)
  case (1 d)
  show ?case
  proof (cases "max_frame_content \<le> length d")
    case True
    obtain q ps where r: "reshape (drop (reshape_at d) d) = q # ps"
      using reshape_not_Nil by (metis list.exhaust)
    then have "concat (q # ps) = drop (reshape_at d) d" by (metis reshape_concat)
    moreover have "4096 \<le> length d" using True by (simp add: const_defs)
    ultimately show ?thesis
      using 1 [OF True] True reshape_at_marker [of d] r
      by (cases "reshape_at d = 4096"; subst reshape.simps) auto
  next
    case False
    then show ?thesis by (subst reshape.simps) simp
  qed
qed

text \<open>
  C29: Splitting a write loses nothing and respects the frame limits: the pieces concatenate
  to the data, there is at least one, none exceeds \<^verbatim>\<open>MAX_FRAME_CONTENT\<close>, all but the last
  have at least 21 bytes, the last is empty only for an empty write, and every cut lies
  directly in front of an application-data record header or 4096 bytes into the rest.
\<close>

theorem reshape_correct:
  "concat (reshape d) = d \<and> reshape d \<noteq> [] \<and>
   (\<forall>p \<in> set (reshape d). length p \<le> max_frame_content) \<and>
   (\<forall>p \<in> set (butlast (reshape d)). 21 \<le> length p) \<and>
   (last (reshape d) = [] \<longrightarrow> d = []) \<and> cuts_ok (reshape d)"
  using reshape_pieces [of d] by (auto simp: reshape_concat reshape_not_Nil reshape_cuts const_defs)

theorem reshape_correct_witness: "length (hd (reshape [1, 2, 3])) \<le> max_frame_content"
  using reshape_correct [of "[1, 2, 3]"] hd_in_set [of "reshape [1, 2, 3]"] by blast

end
