(* ===== verification/VisionPadder.thy ===== *)
theory VisionPadder
  imports VisionTraffic
begin

text \<open>
  \<^verbatim>\<open>Padder\<close> of \<^verbatim>\<open>src/outbound/vision.rs\<close>, the state machine of the sending side, and its
  agreement with the deframing machine of the peer.
\<close>

section \<open>The padder\<close>

record padder =
  pd_padding :: bool
  pd_direct :: bool
  pd_uuid :: "bytes option"

definition padder_new :: "bytes \<Rightarrow> padder" where
  "padder_new uuid = \<lparr>pd_padding = True, pd_direct = False, pd_uuid = Some uuid\<rparr>"

definition padding_done :: "padder \<Rightarrow> bool" where "padding_done p = (\<not> pd_padding p)"
definition wants_direct :: "padder \<Rightarrow> bool" where "wants_direct p = pd_direct p"

definition camouflage :: "'r rng \<Rightarrow> 'r \<Rightarrow> padder \<Rightarrow> bytes \<times> padder \<times> 'r" where
  "camouflage rr r p =
     (let (frame, r) = xtls_padding rr r [] cmd_padding_continue (pd_uuid p) True
      in (frame, p\<lparr>pd_uuid := None\<rparr>, r))"

definition end_command :: "traffic_state \<Rightarrow> u8" where
  "end_command ts = (if enable_xtls ts then cmd_padding_direct else cmd_padding_end)"

text \<open>The loop over the pieces of one write; \<open>i == last\<close> is \<open>rest = []\<close>.\<close>

fun pad_pieces ::
  "'r rng \<Rightarrow> traffic_state \<Rightarrow> bool \<Rightarrow> bytes list \<Rightarrow> padder \<Rightarrow> bool \<Rightarrow> 'r \<Rightarrow> bytes
     \<Rightarrow> padder \<times> bytes \<times> 'r" where
  "pad_pieces rr ts whole [] p long_padding r out = (p, out, r)"
| "pad_pieces rr ts whole (b # rest) p long_padding r out =
     (if is_tls ts \<and> 6 \<le> length b \<and> take 3 b = tls_application_data_start \<and> whole then
        let command = (if rest = [] then end_command ts else cmd_padding_continue);
            (out, r) = xtls_padding_into rr r out b command (pd_uuid p) True
        in pad_pieces rr ts whole rest
             (p\<lparr>pd_padding := False, pd_direct := enable_xtls ts, pd_uuid := None\<rparr>) False r out
      else if \<not> is_tls12_or_above ts \<and> filter_budget ts \<le> 1 then
        let (out, r) = xtls_padding_into rr r out b cmd_padding_end (pd_uuid p) long_padding
        in (p\<lparr>pd_padding := False, pd_uuid := None\<rparr>, out @ concat rest, r)
      else
        let command = (if rest = [] \<and> \<not> pd_padding p then end_command ts else cmd_padding_continue);
            (out, r) = xtls_padding_into rr r out b command (pd_uuid p) long_padding
        in pad_pieces rr ts whole rest (p\<lparr>pd_uuid := None\<rparr>) long_padding r out)"

definition pad_into ::
  "'r rng \<Rightarrow> 'r \<Rightarrow> padder \<Rightarrow> bytes \<Rightarrow> traffic_state \<Rightarrow> bytes
     \<Rightarrow> padder \<times> traffic_state \<times> bytes \<times> 'r" where
  "pad_into rr r p data ts out =
     (let ts = traffic_filter ts data in
      if \<not> pd_padding p then (p, ts, out @ data, r)
      else
        let (p, out, r) =
          pad_pieces rr ts (is_complete_record data) (reshape data) p (is_tls ts) r out
        in (p, ts, out, r))"

definition pad ::
  "'r rng \<Rightarrow> 'r \<Rightarrow> padder \<Rightarrow> bytes \<Rightarrow> traffic_state \<Rightarrow> bytes \<times> padder \<times> traffic_state \<times> 'r" where
  "pad rr r p data ts =
     (let (p, ts, out, r) = pad_into rr r p data ts [] in (out, p, ts, r))"

text \<open>Padding only appends to what is in the buffer.\<close>

lemma xtls_padding_prefix:
  "xtls_padding_into rr r (pre @ out) b c u l
     = (case xtls_padding_into rr r out b c u l of (o', r') \<Rightarrow> (pre @ o', r'))"
  by (simp add: xtls_padding_into_def split: prod.splits)

lemma pad_pieces_prefix:
  "pad_pieces rr ts whole ps p long r (pre @ out)
     = (case pad_pieces rr ts whole ps p long r out of (p', o', r') \<Rightarrow> (p', pre @ o', r'))"
proof (induction ps arbitrary: p whole long r out)
  case (Cons b rest)
  show ?case
    by (simp add: xtls_padding_prefix Cons.IH Let_def split: prod.split)
qed simp

lemma pad_into_prefix:
  "pad_into rr r p d ts (pre @ out)
     = (case pad_into rr r p d ts out of (p', ts', o', r') \<Rightarrow> (p', ts', pre @ o', r'))"
  by (simp add: pad_into_def pad_pieces_prefix Let_def split: prod.split)

section \<open>Agreement with the deframing side\<close>

lemma padding_len_cap: "fst (padding_len rr r n long) < 65536"
  by (auto simp: padding_len_def Let_def const_defs split: prod.splits)

text \<open>
  The state the peer's machine must be in before a frame is sent, and the state the padder is
  in while the pieces of a write are framed: padding may already be over, then the ending
  command is still to come.
\<close>

definition awaiting :: "padder \<Rightarrow> unpadder \<Rightarrow> bool" where
  "awaiting p u \<longleftrightarrow> \<not> up_done u \<and> \<not> up_direct u \<and> expect_uuid u = (pd_uuid p \<noteq> None) \<and>
     (\<forall>i. pd_uuid p = Some i \<longrightarrow> length i = 16)"

definition ending :: "traffic_state \<Rightarrow> padder \<Rightarrow> bool" where
  "ending ts p \<longleftrightarrow> pd_direct p = (\<not> pd_padding p \<and> enable_xtls ts)"

text \<open>The peer's state that a padder with no UUID left to send stands for.\<close>

definition peer_of :: "padder \<Rightarrow> unpadder" where
  "peer_of p = \<lparr>expect_uuid = (pd_uuid p \<noteq> None), up_done = \<not> pd_padding p, up_direct = pd_direct p\<rparr>"

lemma frame_step:
  assumes "xtls_padding_into rr r out b command (pd_uuid p) long = (out', r')"
    and "awaiting p u" and "length b < 65536" and "command \<in> {0, 1, 2}"
  shows "\<exists>w. out' = out @ w \<and> w \<noteq> [] \<and> (\<forall>i. pd_uuid p = Some i \<longrightarrow> (\<exists>x. w = i @ x)) \<and>
    (\<forall>c acc. unpad u (w @ c) acc = unpad (after_command u command) c (acc @ b))"
proof -
  obtain n where w: "out' = out @ frame_bytes b command n (pd_uuid p)" "n < 65536"
    using assms(1) padding_len_cap [of rr r "length b" long]
    by (auto simp: xtls_padding_into_def split: prod.splits)
  let ?w = "frame_bytes b command n (pd_uuid p)"
  have "\<forall>c acc. unpad u (?w @ c) acc = unpad (after_command u command) c (acc @ b)"
    using unpad_frame_bytes [OF assms(3) w(2), of u command "pd_uuid p"] assms(2,4)
    by (auto simp: awaiting_def)
  moreover have "\<forall>i. pd_uuid p = Some i \<longrightarrow> (\<exists>x. ?w = i @ x)" "?w \<noteq> []"
    by (auto simp: frame_bytes_def)
  ultimately show ?thesis using w(1) by blast
qed

lemma awaiting_continue:
  "awaiting p u \<Longrightarrow> pd_uuid p' = None \<Longrightarrow> awaiting p' (after_command u cmd_padding_continue)"
  by (simp add: awaiting_def after_command_def cmd_padding_continue_def)

lemma after_end:
  "awaiting p u \<Longrightarrow> pd_uuid p' = None \<Longrightarrow> \<not> pd_padding p' \<Longrightarrow> pd_direct p' = enable_xtls ts \<Longrightarrow>
     after_command u (end_command ts) = peer_of p'"
  by (auto simp: awaiting_def after_command_def end_command_def peer_of_def const_defs)

lemma after_continue:
  "awaiting p u \<Longrightarrow> pd_uuid p' = None \<Longrightarrow> pd_padding p' \<Longrightarrow> ending ts p' \<Longrightarrow>
     after_command u cmd_padding_continue = peer_of p'"
  by (auto simp: awaiting_def after_command_def peer_of_def const_defs ending_def)

lemma end_command_known: "end_command ts \<in> {0, 1, 2}"
  by (simp add: end_command_def const_defs)

lemma pad_pieces_sync:
  assumes "pad_pieces rr ts whole ps p long r out = (p', out', r')"
    and "ps \<noteq> []" and "\<forall>b \<in> set ps. length b < 65536"
    and "awaiting p u" and "ending ts p" and "enable_xtls ts \<longrightarrow> is_tls12_or_above ts"
  shows "\<exists>w. out' = out @ w \<and> w \<noteq> [] \<and> (\<forall>i. pd_uuid p = Some i \<longrightarrow> (\<exists>x. w = i @ x)) \<and>
    (\<forall>c acc. unpad u (w @ c) acc = unpad (peer_of p') c (acc @ concat ps)) \<and>
    pd_uuid p' = None \<and> ending ts p' \<and> (pd_padding p' \<longrightarrow> pd_padding p)"
  using assms
proof (induction ps arbitrary: p u long r out)
  case (Cons b rest)
  let ?data = "is_tls ts \<and> 6 \<le> length b \<and> take 3 b = tls_application_data_start \<and> whole"
  let ?early = "\<not> is_tls12_or_above ts \<and> filter_budget ts \<le> 1"
  have b: "length b < 65536" using Cons.prems(3) by simp
  have framed: ?case
    if f: "xtls_padding_into rr r out b command (pd_uuid p) long0 = (o1, r1)"
      "pad_pieces rr ts whole rest p1 long1 r1 o1 = (p', out', r')"
      and c: "command = (if rest = [] \<and> \<not> pd_padding p1 then end_command ts else cmd_padding_continue)"
      and p1: "pd_uuid p1 = None" "ending ts p1" "pd_padding p1 \<longrightarrow> pd_padding p"
    for command long0 long1 o1 r1 p1
  proof -
    have "command \<in> {0, 1, 2}" using end_command_known [of ts] by (simp add: c cmd_padding_continue_def)
    from frame_step [OF f(1) Cons.prems(4) b this] obtain w where w: "o1 = out @ w" "w \<noteq> []"
      "\<forall>i. pd_uuid p = Some i \<longrightarrow> (\<exists>x. w = i @ x)"
      "\<forall>c acc. unpad u (w @ c) acc = unpad (after_command u command) c (acc @ b)" by auto
    show ?thesis
    proof (cases "rest = []")
      case True
      have "after_command u command = peer_of p1"
      proof (cases "pd_padding p1")
        case True
        with after_continue [OF Cons.prems(4) p1(1) True p1(2)] show ?thesis by (simp add: c)
      next
        case False
        then have "pd_direct p1 = enable_xtls ts" using p1(2) by (simp add: ending_def)
        from after_end [OF Cons.prems(4) p1(1) False this] show ?thesis
          by (simp add: c True \<open>\<not> pd_padding p1\<close>)
      qed
      with True f(2) w p1 show ?thesis by auto
    next
      case False
      then have cc: "command = cmd_padding_continue" by (simp add: c)
      have "\<forall>b \<in> set rest. length b < 65536" using Cons.prems(3) by simp
      from Cons.IH [OF f(2) False this awaiting_continue [OF Cons.prems(4) p1(1)] p1(2) Cons.prems(6)]
      obtain v where v: "out' = o1 @ v" "v \<noteq> []" "pd_uuid p' = None" "ending ts p'"
        "pd_padding p' \<longrightarrow> pd_padding p1"
        "\<forall>c acc. unpad (after_command u cmd_padding_continue) (v @ c) acc
           = unpad (peer_of p') c (acc @ concat rest)" by blast
      show ?thesis
        using v w p1(3) by (intro exI [of _ "w @ v"]) (auto simp: cc)
    qed
  qed
  consider (data) ?data | (early) "\<not> ?data" ?early | (plain) "\<not> ?data" "\<not> ?early" by blast
  then show ?case
  proof cases
    case early
    then obtain o1 r1 where o1:
      "xtls_padding_into rr r out b cmd_padding_end (pd_uuid p) long = (o1, r1)"
      "p' = p\<lparr>pd_padding := False, pd_uuid := None\<rparr>" "out' = o1 @ concat rest"
      using Cons.prems(1) by (auto split: prod.splits)
    obtain w where w: "o1 = out @ w" "w \<noteq> []" "\<forall>i. pd_uuid p = Some i \<longrightarrow> (\<exists>x. w = i @ x)"
      "\<forall>c acc. unpad u (w @ c) acc = unpad (after_command u cmd_padding_end) c (acc @ b)"
      using frame_step [OF o1(1) Cons.prems(4) b] by (auto simp: const_defs)
    have e: "\<not> enable_xtls ts" using early Cons.prems(6) by simp
    then have u: "after_command u cmd_padding_end = peer_of p'"
      using Cons.prems(4,5)
      by (simp add: o1(2) awaiting_def ending_def after_command_def peer_of_def const_defs)
    have "up_done (peer_of p')" by (simp add: o1(2) peer_of_def)
    then have "\<forall>c acc. unpad u ((w @ concat rest) @ c) acc
        = unpad (peer_of p') c (acc @ concat (b # rest))"
      using w(4) by (simp add: u unpad_done)
    moreover have "ending ts p'" using e Cons.prems(5) by (simp add: o1(2) ending_def)
    ultimately show ?thesis
      using w(1,2,3) by (intro exI [of _ "w @ concat rest"]) (auto simp: o1)
  next
    case data
    define p1 where "p1 = p\<lparr>pd_padding := False, pd_direct := enable_xtls ts, pd_uuid := None\<rparr>"
    define command where "command = (if rest = [] then end_command ts else cmd_padding_continue)"
    obtain o1 r1 where o1: "xtls_padding_into rr r out b command (pd_uuid p) True = (o1, r1)"
      "pad_pieces rr ts whole rest p1 False r1 o1 = (p', out', r')"
      using Cons.prems(1) data by (auto simp: p1_def command_def split: prod.splits)
    show ?thesis
      by (rule framed [OF o1]) (simp_all add: command_def p1_def ending_def)
  next
    case plain
    define p1 where "p1 = p\<lparr>pd_uuid := None\<rparr>"
    define command where
      "command = (if rest = [] \<and> \<not> pd_padding p then end_command ts else cmd_padding_continue)"
    have "pad_pieces rr ts whole (b # rest) p long r out =
      (let (o1, r1) = xtls_padding_into rr r out b command (pd_uuid p) long
       in pad_pieces rr ts whole rest p1 long r1 o1)"
      by (simp only: pad_pieces.simps plain if_False command_def p1_def Let_def)
    then obtain o1 r1 where o1: "xtls_padding_into rr r out b command (pd_uuid p) long = (o1, r1)"
      "pad_pieces rr ts whole rest p1 long r1 o1 = (p', out', r')"
      using Cons.prems(1) by (auto split: prod.splits)
    show ?thesis
      using Cons.prems(5) by (intro framed [OF o1]) (simp_all add: command_def p1_def ending_def)
  qed
qed simp

lemma pad_into_sync:
  assumes "pad_into rr r p data ts out = (p', ts', out', r')"
    and "pd_padding p" and "\<not> pd_direct p" and "\<forall>i. pd_uuid p = Some i \<longrightarrow> length i = 16"
    and "traffic_inv ts"
  shows "\<exists>w. out' = out @ w \<and> (\<forall>i. pd_uuid p = Some i \<longrightarrow> (\<exists>x. w = i @ x)) \<and>
    (\<forall>c acc. unpad (peer_of p) (w @ c) acc = unpad (peer_of p') c (acc @ data)) \<and>
    pd_uuid p' = None \<and> (pd_direct p' \<longrightarrow> \<not> pd_padding p' \<and> enable_xtls ts')"
proof -
  have ts': "ts' = traffic_filter ts data"
    and p': "pad_pieces rr ts' (is_complete_record data) (reshape data) p (is_tls ts') r out = (p', out', r')"
    using assms(1,2) by (auto simp: pad_into_def Let_def split: prod.splits)
  have "traffic_inv ts'" unfolding ts' by (rule traffic_filter_inv [OF assms(5)])
  then have e: "enable_xtls ts' \<longrightarrow> is_tls12_or_above ts'" by (auto simp: traffic_inv_def)
  have a: "awaiting p (peer_of p)" "ending ts' p"
    using assms(2-4) by (auto simp: awaiting_def peer_of_def ending_def)
  have "\<forall>b \<in> set (reshape data). length b < 65536" using reshape_pieces [of data] by fastforce
  from pad_pieces_sync [OF p' reshape_not_Nil this a e] show ?thesis
    by (auto simp: reshape_concat ending_def)
qed

section \<open>The uplink as a machine\<close>

text \<open>
  What can happen to the sending side: the application writes, or the receiving side shows
  a packet to the shared traffic state. The state keeps what is on the wire and what was sent.
\<close>

datatype up_event = Send bytes | Sniff bytes

type_synonym 'r uplink = "padder \<times> traffic_state \<times> bytes \<times> bytes \<times> 'r"

fun uplink_step :: "'r rng \<Rightarrow> 'r uplink \<Rightarrow> up_event \<Rightarrow> 'r uplink" where
  "uplink_step rr (p, ts, wire, sent, r) (Send d) =
     (let (p, ts, wire, r) = pad_into rr r p d ts wire in (p, ts, wire, sent @ d, r))"
| "uplink_step rr (p, ts, wire, sent, r) (Sniff b) = (p, traffic_filter ts b, wire, sent, r)"

definition uplink_start :: "'r rng \<Rightarrow> 'r \<Rightarrow> bytes \<Rightarrow> bool \<Rightarrow> 'r uplink" where
  "uplink_start rr r uuid cover =
     (if cover
      then (let (frame, p, r) = camouflage rr r (padder_new uuid) in (p, traffic_new, frame, [], r))
      else (padder_new uuid, traffic_new, [], [], r))"

definition sends :: "up_event list \<Rightarrow> bytes" where
  "sends es = concat (map (\<lambda>e. case e of Send d \<Rightarrow> d | Sniff _ \<Rightarrow> []) es)"

definition uplink_inv :: "bytes \<Rightarrow> 'r uplink \<Rightarrow> bool" where
  "uplink_inv uuid = (\<lambda>(p, ts, wire, sent, r).
     length uuid = 16 \<and> traffic_inv ts \<and> (pd_direct p \<longrightarrow> \<not> pd_padding p \<and> enable_xtls ts) \<and>
     (if pd_uuid p = None then \<exists>x. wire = uuid @ x
      else pd_uuid p = Some uuid \<and> pd_padding p \<and> wire = [] \<and> sent = []) \<and>
     (\<forall>c. unpad unpadder_new (wire @ c) [] = unpad (peer_of p) c sent))"

lemma uplink_inv_unpad:
  "uplink_inv uuid (p, ts, wire, sent, r) \<Longrightarrow>
     unpad unpadder_new (wire @ c) [] = unpad (peer_of p) c sent"
  by (simp add: uplink_inv_def)

lemma uplink_send_inv:
  assumes "uplink_inv uuid (p, ts, wire, sent, r)"
    and "pad_into rr r p d ts wire = (p', ts', wire', r')"
  shows "uplink_inv uuid (p', ts', wire', sent @ d, r')"
proof -
  have inv: "length uuid = 16" "traffic_inv ts" "pd_direct p \<longrightarrow> \<not> pd_padding p \<and> enable_xtls ts"
    "if pd_uuid p = None then \<exists>x. wire = uuid @ x
      else pd_uuid p = Some uuid \<and> pd_padding p \<and> wire = [] \<and> sent = []"
    "\<forall>c. unpad unpadder_new (wire @ c) [] = unpad (peer_of p) c sent"
    using assms(1) by (auto simp: uplink_inv_def)
  have ts': "ts' = traffic_filter ts d"
    using assms(2) by (auto simp: pad_into_def Let_def split: if_splits prod.splits)
  show ?thesis
  proof (cases "pd_padding p")
    case True
    have "\<not> pd_direct p" "pd_uuid p = Some uuid \<or> pd_uuid p = None"
      using inv(3,4) True by (auto split: if_splits)
    then obtain w where "wire' = wire @ w" "\<forall>i. pd_uuid p = Some i \<longrightarrow> (\<exists>x. w = i @ x)"
      "\<forall>c acc. unpad (peer_of p) (w @ c) acc = unpad (peer_of p') c (acc @ d)"
      "pd_uuid p' = None" "pd_direct p' \<longrightarrow> \<not> pd_padding p' \<and> enable_xtls ts'"
      using pad_into_sync [OF assms(2) True _ _ inv(2)] inv(1) by force
    moreover have "traffic_inv ts'" unfolding ts' by (rule traffic_filter_inv [OF inv(2)])
    ultimately show ?thesis
      using inv(1,4,5) by (auto simp: uplink_inv_def split: if_splits)
  next
    case False
    then have s: "p' = p" "wire' = wire @ d"
      using assms(2) by (auto simp: pad_into_def Let_def)
    have "up_done (peer_of p)" using False by (simp add: peer_of_def)
    then have "\<forall>c. unpad unpadder_new (wire' @ c) [] = unpad (peer_of p) c (sent @ d)"
      using inv(5) by (simp add: s unpad_done)
    moreover obtain x where "pd_uuid p = None" "wire = uuid @ x"
      using inv(4) False by (auto split: if_splits)
    moreover have "traffic_le ts ts'" "traffic_inv ts'"
      unfolding ts' using traffic_filter_inv traffic_filter_le inv(2) by blast+
    ultimately show ?thesis
      using False inv(1,3) by (auto simp: uplink_inv_def s traffic_le_def)
  qed
qed

lemma uplink_step_inv:
  assumes "uplink_inv uuid s" shows "uplink_inv uuid (uplink_step rr s e)"
proof (cases e)
  case (Send d)
  with assms show ?thesis
    by (cases s) (auto simp: uplink_send_inv split: prod.splits)
next
  case (Sniff b)
  obtain p ts wire sent r where s: "s = (p, ts, wire, sent, r)" by (cases s)
  have "traffic_inv ts" using assms by (simp add: uplink_inv_def s)
  then have "traffic_le ts (traffic_filter ts b)" "traffic_inv (traffic_filter ts b)"
    using traffic_filter_inv traffic_filter_le by blast+
  with assms show ?thesis by (auto simp: uplink_inv_def s Sniff traffic_le_def)
qed

interpretation uplink: invariant_machine "uplink_step rr" "uplink_inv uuid" for rr uuid
  by unfold_locales (rule uplink_step_inv)

lemma uplink_start_inv:
  assumes "length uuid = 16" shows "uplink_inv uuid (uplink_start rr r uuid cover)"
proof -
  have a: "awaiting (padder_new uuid) unpadder_new" "peer_of (padder_new uuid) = unpadder_new"
    using assms by (auto simp: awaiting_def padder_new_def unpadder_new_def peer_of_def)
  show ?thesis
  proof (cases cover)
    case True
    obtain w r' where w: "xtls_padding_into rr r [] [] cmd_padding_continue (pd_uuid (padder_new uuid)) True = (w, r')"
      by fastforce
    have "after_command unpadder_new cmd_padding_continue = peer_of (padder_new uuid\<lparr>pd_uuid := None\<rparr>)"
      by (simp add: after_command_def unpadder_new_def peer_of_def padder_new_def const_defs)
    with frame_step [OF w a(1)] w assms True show ?thesis
      by (auto simp: uplink_inv_def uplink_start_def camouflage_def xtls_padding_def padder_new_def
          cmd_padding_continue_def)
  qed (simp add: uplink_inv_def uplink_start_def assms a, simp add: padder_new_def)
qed

lemma sends_simps [simp]:
  "sends [] = []" "sends (Send d # es) = d @ sends es" "sends (Sniff b # es) = sends es"
  by (simp_all add: sends_def)

lemma uplink_sent:
  "run (uplink_step rr) (p, ts, wire, sent, r) es = (p', ts', wire', sent', r') \<Longrightarrow>
     sent' = sent @ sends es"
proof (induction es arbitrary: p ts wire sent r)
  case (Cons e es)
  then show ?case
    by (cases e) (auto split: prod.splits dest!: Cons.IH)
qed simp

lemma unpad_empty: "unpad u [] acc = (Inr (), u, [], acc)"
proof (cases "up_done u")
  case False
  moreover have "\<not> frame_ready u []" by (simp add: frame_ready_def complete_def)
  ultimately show ?thesis by (rule unpad_wait)
qed (simp add: unpad_done)

section \<open>Properties\<close>

text \<open>
  C5: The framing of a session is understood by the peer, whatever is written and whatever the
  receiving side sniffs in between, for every random padding and with or without the
  covering first frame: deframing everything put on the wire succeeds, leaves nothing
  over and yields exactly the bytes written, in order; the peer sees the end of padding
  exactly when the padder has ended it, and direct copy exactly when the padder wants it.
  The wire starts with the user's UUID.
\<close>

theorem uplink_decodes:
  assumes "length uuid = 16"
    and "run (uplink_step rr) (uplink_start rr r uuid cover) es = (p, ts, wire, sent, r')"
  shows "(\<exists>u. unpad unpadder_new wire [] = (Inr (), u, [], sends es) \<and>
      is_done u = padding_done p \<and> is_direct u = wants_direct p) \<and>
    (wire = [] \<or> take 16 wire = uuid)"
proof -
  have inv: "uplink_inv uuid (p, ts, wire, sent, r')"
    using uplink.run_inv [OF uplink_start_inv [OF assms(1)]] assms(2) by metis
  have "sent = sends es"
  proof -
    obtain p0 ts0 w0 r0 where s0: "uplink_start rr r uuid cover = (p0, ts0, w0, [], r0)"
      by (cases cover) (simp_all add: uplink_start_def split_def Let_def)
    from uplink_sent [OF assms(2) [unfolded s0]] show ?thesis by simp
  qed
  moreover have "unpad unpadder_new wire [] = unpad (peer_of p) [] sent"
    using uplink_inv_unpad [OF inv, of "[]"] by simp
  moreover have "wire = [] \<or> take 16 wire = uuid"
    using inv by (auto simp: uplink_inv_def split: if_splits)
  ultimately show ?thesis
    by (simp add: unpad_empty peer_of_def is_done_def is_direct_def padding_done_def wants_direct_def)
qed

theorem uplink_decodes_witness:
  "\<exists>u. unpad unpadder_new (fst (snd (snd (run (uplink_step (\<lambda>r n. (0, r)))
      (uplink_start (\<lambda>r n. (0, r)) () (replicate 16 7) False) [Send [1, 2], Sniff [3], Send [4]])))) []
    = (Inr (), u, [], [1, 2, 4])"
proof -
  obtain p ts wire sent r' where "run (uplink_step (\<lambda>r n. (0, r)))
      (uplink_start (\<lambda>r n. (0, r)) () (replicate 16 7) False) [Send [1, 2], Sniff [3], Send [4]]
    = (p, ts, wire, sent, r')" by (metis prod_cases5)
  with uplink_decodes [OF _ this] show ?thesis by auto
qed






lemma uplink_budget:
  assumes "uplink_inv uuid s"
  shows "uplink_inv uuid (run (uplink_step rr) s es) \<and>
    filter_budget (fst (snd (run (uplink_step rr) s es)))
      \<le> max 0 (filter_budget (fst (snd s)) - int (length es))"
  using assms
proof (induction es arbitrary: s)
  case Nil
  then show ?case by (cases s) (auto simp: uplink_inv_def traffic_inv_def)
next
  case (Cons e es)
  obtain p ts wire sent r where s: "s = (p, ts, wire, sent, r)" by (cases s)
  have ti: "traffic_inv ts" using Cons.prems by (simp add: uplink_inv_def s)
  have "\<exists>b. fst (snd (uplink_step rr s e)) = traffic_filter ts b"
    by (cases e) (auto simp: s pad_into_def Let_def split: prod.splits)
  then have "filter_budget (fst (snd (uplink_step rr s e))) \<le> max 0 (filter_budget ts - 1)"
    using traffic_filter_budget [OF ti] by (cases "0 < filter_budget ts") (force simp: traffic_filter_def)+
  with Cons.IH [OF uplink_step_inv [OF Cons.prems], of rr e] show ?case by (auto simp: s)
qed

lemma pad_pieces_early:
  "pad_pieces rr ts whole ps p long r out = (p', out', r') \<Longrightarrow> ps \<noteq> [] \<Longrightarrow>
     \<not> is_tls12_or_above ts \<Longrightarrow> filter_budget ts \<le> 1 \<Longrightarrow> \<not> pd_padding p'"
proof (induction ps arbitrary: p long r out)
  case (Cons b rest)
  show ?case
  proof (cases "rest = []")
    case False
    with Cons show ?thesis by (auto simp: Let_def split: if_splits prod.splits)
  qed (use Cons.prems in \<open>auto simp: Let_def split: if_splits prod.splits\<close>)
qed simp

text \<open>
  C36: Padding ends for traffic that is not TLS 1.2 or above: at the latest the first write
  after six sniffed packets (of both directions together) ends it.
\<close>

theorem padding_ends:
  assumes "length uuid = 16" and "6 \<le> length es"
    and "uplink_step rr (run (uplink_step rr) (uplink_start rr r uuid cover) es) (Send d)
      = (p, ts, wire, sent, r')"
    and "\<not> is_tls12_or_above ts"
  shows "padding_done p"
proof -
  let ?es = "es @ [Send d]" and ?s = "uplink_start rr r uuid cover"
  have b: "filter_budget (fst (snd ?s)) = 8"
    by (auto simp: uplink_start_def traffic_new_def const_defs split: prod.splits)
  have run: "run (uplink_step rr) ?s ?es = (p, ts, wire, sent, r')"
    using assms(3) by (simp add: run_append)
  have "filter_budget ts \<le> 1"
    using uplink_budget [OF uplink_start_inv [OF assms(1), of rr r cover], of rr ?es]
      assms(2) b unfolding run by (auto simp: max_def split: if_splits)
  with assms(3,4) show ?thesis
    by (cases "run (uplink_step rr) ?s es")
      (auto simp: pad_into_def padding_done_def Let_def reshape_not_Nil split: if_splits prod.splits
        dest!: pad_pieces_early)
qed

theorem padding_ends_witness:
  "padding_done (fst (uplink_step (\<lambda>r n. (0, r)) (run (uplink_step (\<lambda>r n. (0, r)))
     (uplink_start (\<lambda>r n. (0, r)) () (replicate 16 7) True) (replicate 6 (Sniff [1]))) (Send [2])))"
proof -
  let ?s = "uplink_step (\<lambda>r n. (0, r)) (run (uplink_step (\<lambda>r n. (0, r)))
     (uplink_start (\<lambda>r n. (0, r)) () (replicate 16 7) True) (replicate 6 (Sniff [1]))) (Send [2])"
  obtain p ts wire sent r where s: "?s = (p, ts, wire, sent, r)" by (metis prod_cases5)
  have "\<not> is_tls12_or_above (fst (snd ?s))" by code_simp
  with padding_ends [OF _ _ s] s show ?thesis by simp
qed

end
