(* ===== verification/Utf8.thy ===== *)
theory Utf8
  imports Prelude
begin

text \<open>
  Rust strings as UTF-8 byte strings: the well-formed sequences \<^verbatim>\<open>String::from_utf8\<close>
  accepts, \<^verbatim>\<open>str::chars\<close> as a split into the byte groups of the scalar values,
  \<^verbatim>\<open>is_char_boundary\<close>, \<^verbatim>\<open>trim_end_matches\<close>, \<^verbatim>\<open>to_ascii_lowercase\<close> and the decimal
  \<^verbatim>\<open>Display\<close> of an unsigned integer.
\<close>

definition is_cont :: "u8 \<Rightarrow> bool" where
  "is_cont b \<longleftrightarrow> 128 \<le> b \<and> b < 192"

definition conts :: "nat \<Rightarrow> bytes \<Rightarrow> bool" where
  "conts n bs \<longleftrightarrow> n \<le> length bs \<and> (\<forall>b \<in> set (take n bs). is_cont b)"

text \<open>The length of the scalar value at the front, by the table of the Unicode standard.\<close>

text \<open>
  For each lead byte, how many continuation bytes follow and between which values the
  first of them lies.
\<close>

definition lead_class :: "u8 \<Rightarrow> (nat \<times> u8 \<times> u8) option" where
  "lead_class a =
     (if a < 128 then Some (0, 0, 255)
      else if 194 \<le> a \<and> a \<le> 223 then Some (1, 128, 191)
      else if a = 224 then Some (2, 160, 191)
      else if a = 237 then Some (2, 128, 159)
      else if 225 \<le> a \<and> a \<le> 239 then Some (2, 128, 191)
      else if a = 240 then Some (3, 144, 191)
      else if 241 \<le> a \<and> a \<le> 243 then Some (3, 128, 191)
      else if a = 244 then Some (3, 128, 143)
      else None)"

fun char_len :: "bytes \<Rightarrow> nat option" where
  "char_len [] = None"
| "char_len (a # r) =
     (case lead_class a of
        None \<Rightarrow> None
      | Some (m, lo, hi) \<Rightarrow>
          if conts m r \<and> (m = 0 \<or> lo \<le> hd r \<and> hd r \<le> hi) then Some (Suc m) else None)"

lemma char_len_bounds: "char_len bs = Some n \<Longrightarrow> 0 < n \<and> n \<le> length bs"
  by (cases bs) (auto simp: conts_def split: option.splits if_splits)

function chars :: "bytes \<Rightarrow> bytes list" where
  "chars bs =
     (case char_len bs of None \<Rightarrow> [] | Some n \<Rightarrow> take n bs # chars (drop n bs))"
  by pat_completeness auto
termination
  by (relation "measure length") (auto dest: char_len_bounds)

declare chars.simps [simp del]

definition utf8_valid :: "bytes \<Rightarrow> bool" where
  "utf8_valid bs \<longleftrightarrow> concat (chars bs) = bs"

definition is_char_boundary :: "bytes \<Rightarrow> nat \<Rightarrow> bool" where
  "is_char_boundary bs i \<longleftrightarrow> i = 0 \<or> i = length bs \<or> (i < length bs \<and> \<not> is_cont (bs ! i))"

definition trim_end :: "u8 \<Rightarrow> bytes \<Rightarrow> bytes" where
  "trim_end c bs = rev (dropWhile (\<lambda>b. b = c) (rev bs))"

definition ascii_lower :: "u8 \<Rightarrow> u8" where
  "ascii_lower b = (if 65 \<le> b \<and> b \<le> 90 then b + 32 else b)"

definition to_ascii_lowercase :: "bytes \<Rightarrow> bytes" where
  "to_ascii_lowercase = map ascii_lower"

fun decimal :: "nat \<Rightarrow> bytes" where
  "decimal n = (if n < 10 then [] else decimal (n div 10)) @ [48 + of_nat (n mod 10)]"

declare decimal.simps [simp del]

section \<open>Facts\<close>

lemma unat_ascii_lower:
  "unat (ascii_lower c) = (if 65 \<le> unat c \<and> unat c \<le> 90 then unat c + 32 else unat c)"
  by (simp add: ascii_lower_def word_le_nat_alt unat_u8_add)

lemma length_to_ascii_lowercase [simp]: "length (to_ascii_lowercase s) = length s"
  by (simp add: to_ascii_lowercase_def)

lemma chars_Nil [simp]: "chars [] = []"
  by (simp add: chars.simps)

lemma utf8_valid_Nil [simp]: "utf8_valid []"
  by (simp add: utf8_valid_def)

lemma chars_ascii: "b < 128 \<Longrightarrow> chars (b # bs) = [b] # chars bs"
  by (simp add: chars.simps [of "b # bs"] lead_class_def conts_def)

lemma utf8_valid_unfold:
  "utf8_valid bs \<longleftrightarrow>
     bs = [] \<or> (\<exists>n. char_len bs = Some n \<and> utf8_valid (drop n bs))"
proof (cases "char_len bs")
  case None
  then show ?thesis by (auto simp: utf8_valid_def chars.simps [of bs])
next
  case (Some n)
  then have "concat (chars bs) = take n bs @ concat (chars (drop n bs))"
    by (simp add: chars.simps [of bs])
  moreover have "bs = take n bs @ drop n bs" by simp
  ultimately show ?thesis
    using Some unfolding utf8_valid_def by (metis option.inject same_append_eq drop_Nil chars_Nil concat.simps(1))
qed

lemma utf8_valid_ascii: "\<forall>b \<in> set bs. b < 128 \<Longrightarrow> utf8_valid bs"
  by (induction bs) (auto simp: utf8_valid_def chars_ascii)

text \<open>Every group is one ASCII byte or a lead byte from 194 with continuation bytes.\<close>

definition char_group :: "bytes \<Rightarrow> bool" where
  "char_group g \<longleftrightarrow>
     (\<exists>a r. g = a # r \<and> (a < 128 \<and> r = [] \<or> 194 \<le> a \<and> r \<noteq> []) \<and> (\<forall>b \<in> set r. is_cont b))"

lemma lead_class_value:
  "lead_class a = Some (m, lo, hi) \<Longrightarrow> m = 0 \<and> a < 128 \<or> 0 < m \<and> 194 \<le> a"
  by (auto simp: lead_class_def word_le_nat_alt word_less_nat_alt split: if_splits)

lemma char_len_Cons:
  "char_len (a # r) = Some n \<Longrightarrow>
     \<exists>m. n = Suc m \<and> conts m r \<and> (m = 0 \<and> a < 128 \<or> 0 < m \<and> 194 \<le> a)"
  by (auto split: option.splits if_splits dest: lead_class_value)

lemma char_len_group:
  assumes "char_len bs = Some n"
  shows "char_group (take n bs)"
proof -
  obtain a r where bs: "bs = a # r" using assms by (cases bs) auto
  with assms obtain m where "n = Suc m" "conts m r" "m = 0 \<and> a < 128 \<or> 0 < m \<and> 194 \<le> a"
    by (meson char_len_Cons)
  with bs show ?thesis by (auto simp: char_group_def conts_def)
qed

lemma chars_groups: "g \<in> set (chars bs) \<Longrightarrow> char_group g"
proof (induction bs rule: chars.induct)
  case (1 bs)
  then show ?case
    by (cases "char_len bs") (auto simp: chars.simps [of bs] char_len_group)
qed

lemma char_group_filter_ascii:
  assumes "char_group g" and "c < 128"
  shows "filter (\<lambda>b. b \<noteq> c) g = (if g = [c] then [] else g)"
proof -
  obtain a r where g: "g = a # r" and a: "a < 128 \<and> r = [] \<or> 194 \<le> a \<and> r \<noteq> []"
    and r: "\<forall>b \<in> set r. is_cont b"
    using assms(1) by (auto simp: char_group_def)
  have "b \<noteq> c" if "128 \<le> b" for b using that assms(2) by auto
  moreover have "128 \<le> b" if "194 \<le> b" for b :: u8
    using that by (rule order_trans [rotated]) simp
  ultimately show ?thesis
    using g a r by (auto simp: is_cont_def filter_id_conv)
qed

lemma chars_filter_ascii:
  assumes "utf8_valid s" and "c < 128"
  shows "concat (filter (\<lambda>g. g \<noteq> [c]) (chars s)) = filter (\<lambda>b. b \<noteq> c) s"
proof -
  have "concat (filter (\<lambda>g. g \<noteq> [c]) gs) = filter (\<lambda>b. b \<noteq> c) (concat gs)"
    if "\<forall>g \<in> set gs. char_group g" for gs
    using that by (induction gs) (auto simp: char_group_filter_ascii [OF _ assms(2)])
  then show ?thesis
    using assms(1) chars_groups by (simp add: utf8_valid_def)
qed

lemma trim_end_snoc: "trim_end c (bs @ [b]) = (if b = c then trim_end c bs else bs @ [b])"
  by (simp add: trim_end_def)

lemma trim_end_id: "bs = [] \<or> last bs \<noteq> c \<Longrightarrow> trim_end c bs = bs"
  by (cases bs rule: rev_cases) (auto simp: trim_end_def)

lemma trim_end_replicate: "trim_end c (bs @ replicate n c) = trim_end c bs"
  by (simp add: trim_end_def dropWhile_append)

section \<open>Cutting at a boundary\<close>

lemma conts_take: "m \<le> k \<Longrightarrow> conts m (take k r) = conts m r"
  by (auto simp: conts_def min_def)

lemma hd_take: "0 < k \<Longrightarrow> hd (take k r) = hd r"
  by (cases r; cases k) simp_all

lemma char_len_take:
  assumes "char_len bs = Some n" and "n \<le> i"
  shows "char_len (take i bs) = Some n"
proof -
  obtain a r where bs: "bs = a # r" using assms(1) by (cases bs) auto
  with assms(1) obtain m lo hi where m: "lead_class a = Some (m, lo, hi)" "n = Suc m"
    and c: "conts m r" "m = 0 \<or> lo \<le> hd r \<and> hd r \<le> hi"
    by (auto split: option.splits if_splits)
  obtain k where "i = Suc k" "m \<le> k" using assms(2) m(2) by (cases i) auto
  then show ?thesis using m c by (auto simp: bs conts_take hd_take)
qed

lemma boundary_after_char:
  assumes "char_len t = Some n" and "is_char_boundary t i" and "0 < i"
  shows "n \<le> i"
proof (rule ccontr)
  assume "\<not> n \<le> i"
  then have "i < n" by simp
  obtain a r where g: "take n t = a # r" "\<forall>b \<in> set r. is_cont b"
    using char_len_group [OF assms(1)] by (auto simp: char_group_def)
  have len: "n \<le> length t" using char_len_bounds [OF assms(1)] by simp
  have "t ! i = (a # r) ! i" using \<open>i < n\<close> by (simp flip: g(1))
  moreover have "length r = n - 1" using len g(1) by (metis length_take length_tl list.sel(3) min.absorb2)
  ultimately have "is_cont (t ! i)"
    using g(2) \<open>i < n\<close> assms(3) by (cases i) auto
  with assms(2,3) \<open>i < n\<close> len show False by (simp add: is_char_boundary_def)
qed

lemma utf8_valid_take:
  "utf8_valid t \<Longrightarrow> is_char_boundary t i \<Longrightarrow> i \<le> length t \<Longrightarrow> utf8_valid (take i t)"
proof (induction t arbitrary: i rule: chars.induct)
  case (1 t)
  show ?case
  proof (cases "i = 0 \<or> t = []")
    case False
    with 1 obtain n where n: "char_len t = Some n" "utf8_valid (drop n t)"
      by (auto simp: utf8_valid_unfold [of t])
    have "n \<le> i" using boundary_after_char [OF n(1)] 1 False by simp
    then have "is_char_boundary (drop n t) (i - n)"
      using "1.prems"(2,3) by (auto simp: is_char_boundary_def)
    with 1 n \<open>n \<le> i\<close> have "utf8_valid (take (i - n) (drop n t))" by simp
    then show ?thesis
      using char_len_take [OF n(1) \<open>n \<le> i\<close>]
      by (simp add: utf8_valid_unfold [of "take i t"] drop_take)
  qed auto
qed

end
