(* ===== verification/Address.thy ===== *)
theory Address
  imports Prelude Utf8
begin

text \<open>
  Addresses and targets of \<^verbatim>\<open>src/net.rs\<close>: what the SOCKS5 inbound parses and the VLESS
  outbound encodes. An IP address is the number its octets spell in network order.
\<close>

text \<open>\<^verbatim>\<open>std::net::IpAddr\<close>, with the octets in network order.\<close>

datatype ip_addr = V4 u32 | V6 "128 word"

fun octets :: "ip_addr \<Rightarrow> bytes" where
  "octets (V4 w) = to_be 4 (unat w)"
| "octets (V6 w) = to_be 16 (unat w)"

fun is_ipv6 :: "ip_addr \<Rightarrow> bool" where
  "is_ipv6 (V4 _) = False"
| "is_ipv6 (V6 _) = True"

text \<open>\<^verbatim>\<open>Ipv4Addr::from([u8; 4])\<close> and \<^verbatim>\<open>Ipv6Addr::from([u8; 16])\<close>.\<close>

definition v4_from :: "bytes \<Rightarrow> ip_addr" where
  "v4_from bs = V4 (of_nat (of_be bs))"

definition v6_from :: "bytes \<Rightarrow> ip_addr" where
  "v6_from bs = V6 (of_nat (of_be bs))"

datatype address = Domain bytes | Ip ip_addr

record target =
  tg_addr :: address
  tg_port :: u16

lemma length_octets [simp]: "length (octets (V4 w)) = 4" "length (octets (V6 v)) = 16"
  by simp_all

lemma v4_from_octets [simp]: "v4_from (to_be 4 (unat w)) = V4 w"
  using unat_u32_bound [of w] by (simp add: v4_from_def of_be_to_be)

lemma v6_from_octets [simp]: "v6_from (to_be 16 (unat w)) = V6 w"
proof -
  have "unat w < 256 ^ 16" using unsigned_less [of w] by simp
  then show ?thesis by (simp add: v6_from_def of_be_to_be)
qed

lemma octets_v4_from:
  assumes "length bs = 4"
  shows "octets (v4_from bs) = bs"
proof -
  have "of_be bs < 4294967296" using of_be_bound [of bs] assms by simp
  then show ?thesis using to_be_of_be [of bs] assms by (simp add: v4_from_def)
qed

lemma octets_v6_from:
  assumes "length bs = 16"
  shows "octets (v6_from bs) = bs"
proof -
  have "of_be bs < 256 ^ 16" using of_be_bound [of bs] assms by simp
  then have "unat (of_nat (of_be bs) :: 128 word) = of_be bs"
    by (simp add: unat_of_nat take_bit_nat_eq_self)
  then show ?thesis using to_be_of_be [of bs] assms by (simp add: v6_from_def)
qed

text \<open>
  A target the SOCKS5 inbound can deliver: a domain is valid UTF-8 of at most 255 bytes.
\<close>

definition target_ok :: "target \<Rightarrow> bool" where
  "target_ok t \<longleftrightarrow>
     (case tg_addr t of Domain d \<Rightarrow> length d < 256 \<and> utf8_valid d | Ip _ \<Rightarrow> True)"

end
