(* ===== verification/VlessModel.thy ===== *)
theory VlessModel
  imports RErrors Address
begin

text \<open>
  The VLESS codec of \<^verbatim>\<open>src/outbound/vless.rs\<close>: the request header the client sends, the
  response header it strips lazily from the read path (\<^verbatim>\<open>ResponseHeader::feed\<close>), and the
  blocking reader of the same header.
\<close>

section \<open>The code\<close>

definition vless_version :: u8 where "vless_version = 0"
definition cmd_tcp :: u8 where "cmd_tcp = 1"
definition atyp_ipv4 :: u8 where "atyp_ipv4 = 1"
definition atyp_domain :: u8 where "atyp_domain = 2"
definition atyp_ipv6 :: u8 where "atyp_ipv6 = 3"

lemmas vless_consts [const_defs] =
  vless_version_def cmd_tcp_def atyp_ipv4_def atyp_domain_def atyp_ipv6_def

text \<open>\<^verbatim>\<open>len() as u8\<close> truncates.\<close>

definition encode_addons :: "bytes \<Rightarrow> bytes" where
  "encode_addons flow = (if flow = [] then [] else [10, of_nat (length flow)] @ flow)"

fun encode_target_addr :: "address \<Rightarrow> bytes" where
  "encode_target_addr (Ip (V4 ip)) = atyp_ipv4 # octets (V4 ip)"
| "encode_target_addr (Domain d) = [atyp_domain, of_nat (length d)] @ d"
| "encode_target_addr (Ip (V6 ip)) = atyp_ipv6 # octets (V6 ip)"

definition encode_request_header :: "bytes \<Rightarrow> bytes \<Rightarrow> target \<Rightarrow> bytes" where
  "encode_request_header uuid flow t =
     (let addons = encode_addons flow in
      [vless_version] @ uuid @ [of_nat (length addons)] @ addons @ [cmd_tcp]
        @ u16_be (tg_port t) @ encode_target_addr (tg_addr t))"

record response_header =
  rh_done :: bool

definition response_header_new :: response_header where
  "response_header_new = \<lparr>rh_done = False\<rparr>"

definition already_consumed :: response_header where
  "already_consumed = \<lparr>rh_done = True\<rparr>"

definition feed ::
  "response_header \<Rightarrow> bytes \<Rightarrow> (rerror + bool) \<times> response_header \<times> bytes" where
  "feed h buf =
     (if rh_done h then (Inr True, h, buf)
      else if length buf < 2 then (Inr False, h, buf)
      else if buf ! 0 \<noteq> vless_version then (Inl (Vless (str ''bad response version'')), h, buf)
      else let addon_len = unat (buf ! 1) in
        if length buf < 2 + addon_len then (Inr False, h, buf)
        else (Inr True, h\<lparr>rh_done := True\<rparr>, drop (2 + addon_len) buf))"

definition read_response_header :: "conn \<Rightarrow> (rerror + unit) \<times> conn" where
  "read_response_header c =
     (case read_exact 2 c of
        (Inl e, c) \<Rightarrow> (Inl (IO e), c)
      | (Inr head, c) \<Rightarrow>
          if head ! 0 \<noteq> vless_version then (Inl (Vless (str ''bad response version'')), c)
          else let addon_len = unat (head ! 1) in
            if 0 < addon_len then
              (case read_exact addon_len c of
                 (Inl e, c) \<Rightarrow> (Inl (IO e), c)
               | (Inr _, c) \<Rightarrow> (Inr (), c))
            else (Inr (), c))"

section \<open>The server's decoder\<close>

text \<open>
  The layout xray-core's server reads: version, UUID, length-prefixed protobuf addons
  (field 1, the flow, with a one-byte length), command, port, address.
\<close>

definition split_at :: "nat \<Rightarrow> bytes \<Rightarrow> (bytes \<times> bytes) option" where
  "split_at n bs = (if n \<le> length bs then Some (take n bs, drop n bs) else None)"

fun decode_addons :: "bytes \<Rightarrow> bytes option" where
  "decode_addons [] = Some []"
| "decode_addons (tag # l # r) =
     (if tag = 10 \<and> unat l < 128 \<and> length r = unat l then Some r else None)"
| "decode_addons _ = None"

fun decode_addr :: "bytes \<Rightarrow> (address \<times> bytes) option" where
  "decode_addr [] = None"
| "decode_addr (atyp # r) =
     (if atyp = 1 then map_option (\<lambda>(b, r). (Ip (v4_from b), r)) (split_at 4 r)
      else if atyp = 3 then map_option (\<lambda>(b, r). (Ip (v6_from b), r)) (split_at 16 r)
      else if atyp = 2 then
        (case r of [] \<Rightarrow> None
         | l # r \<Rightarrow> map_option (\<lambda>(d, r). (Domain d, r)) (split_at (unat l) r))
      else None)"

definition decode_request :: "bytes \<Rightarrow> (bytes \<times> bytes \<times> target \<times> bytes) option" where
  "decode_request bs =
     (case bs of
        [] \<Rightarrow> None
      | v # r \<Rightarrow> if v \<noteq> 0 then None else
          Option.bind (split_at 16 r) (\<lambda>(uuid, r).
          case r of [] \<Rightarrow> None
          | l # r \<Rightarrow>
            Option.bind (split_at (unat l) r) (\<lambda>(adds, r).
            Option.bind (decode_addons adds) (\<lambda>flow.
            case r of
              cmd # p1 # p2 # r \<Rightarrow>
                if cmd \<noteq> 1 then None
                else map_option (\<lambda>(a, r).
                  (uuid, flow, \<lparr>tg_addr = a, tg_port = be_u16 p1 p2\<rparr>, r)) (decode_addr r)
            | _ \<Rightarrow> None))))"

lemma split_at_append: "length a = n \<Longrightarrow> split_at n (a @ b) = Some (a, b)"
  by (simp add: split_at_def)

lemma decode_encode_addr:
  "target_ok t \<Longrightarrow> decode_addr (encode_target_addr (tg_addr t) @ r) = Some (tg_addr t, r)"
  by (cases "tg_addr t" rule: encode_target_addr.cases)
    (auto simp: target_ok_def split_at_append const_defs)

lemma decode_encode_addons: "length flow < 128 \<Longrightarrow> decode_addons (encode_addons flow) = Some flow"
  by (auto simp: encode_addons_def)

lemma length_encode_addons: "length flow < 128 \<Longrightarrow> length (encode_addons flow) < 256"
  by (simp add: encode_addons_def)

section \<open>The response header as a delimited unit\<close>

definition response_len :: "bytes \<Rightarrow> nat" where
  "response_len b = 2 + unat (b ! 1)"

interpretation resp: delimited 2 response_len
  by unfold_locales (auto simp: response_len_def nth_append)

lemma feed_incomplete:
  "\<not> rh_done h \<Longrightarrow> \<not> complete 2 response_len b \<Longrightarrow> length b < 2 \<or> b ! 0 = 0 \<Longrightarrow>
     feed h b = (Inr False, h, b)"
  by (auto simp: feed_def complete_def response_len_def const_defs Let_def)

lemma feed_complete:
  "\<not> rh_done h \<Longrightarrow> complete 2 response_len b \<Longrightarrow> b ! 0 = 0 \<Longrightarrow>
     feed h b = (Inr True, h\<lparr>rh_done := True\<rparr>, drop (response_len b) b)"
  by (auto simp: feed_def complete_def response_len_def const_defs Let_def)

lemma feed_bad:
  "\<not> rh_done h \<Longrightarrow> 2 \<le> length b \<Longrightarrow> b ! 0 \<noteq> 0 \<Longrightarrow>
     feed h b = (Inl (Vless (str ''bad response version'')), h, b)"
  by (auto simp: feed_def const_defs)

lemma feed_done: "rh_done h \<Longrightarrow> feed h b = (Inr True, h, b)"
  by (simp add: feed_def)

lemmas feed_cases = feed_incomplete feed_complete feed_bad feed_done

lemma feed_append:
  "feed h b = (r, h', b') \<Longrightarrow>
     (case r of
        Inr True \<Rightarrow> feed h (b @ c) = (Inr True, h', b' @ c) \<and> rh_done h'
      | Inr False \<Rightarrow> h' = h \<and> b' = b
      | Inl e \<Rightarrow> \<exists>b''. feed h (b @ c) = (Inl e, h, b''))"
proof (cases "rh_done h")
  case False
  assume f: "feed h b = (r, h', b')"
  consider "length b < 2" | "2 \<le> length b" "b ! 0 \<noteq> 0" | "2 \<le> length b" "b ! 0 = 0" by linarith
  then show ?thesis
  proof cases
    case 3
    then have "(b @ c) ! 0 = 0" by (cases b) simp_all
    with 3 f False show ?thesis
      using resp.complete_append [of b c] resp.drop_unit [of b c]
      by (cases "complete 2 response_len b") (auto simp: feed_cases)
  next
    case 2
    then have "(b @ c) ! 0 \<noteq> 0" by (cases b) simp_all
    with 2 f False show ?thesis by (auto simp: feed_bad)
  qed (use f False in \<open>auto simp: feed_incomplete complete_def\<close>)
qed (auto simp: feed_done)

section \<open>Properties\<close>

lemma decode_encode_request:
  assumes "length uuid = 16" and "length flow < 128" and "target_ok t"
  shows "decode_request (encode_request_header uuid flow t @ rest) = Some (uuid, flow, t, rest)"
  using assms length_encode_addons [OF assms(2)]
  by (simp add: decode_request_def encode_request_header_def Let_def const_defs split_at_append
      decode_encode_addons decode_encode_addr u16_be_def)

text \<open>
  C19: The request header is decodable: for every UUID, every flow the one-byte lengths can
  carry and every target the SOCKS5 inbound can deliver, the layout of the VLESS server
  reads back exactly the UUID, the flow and the target, and leaves what follows the header
  (the first Vision frame) untouched.
\<close>

theorem request_header_roundtrip:
  assumes "length uuid = 16" and "length flow < 128" and "target_ok t"
  shows "decode_request (encode_request_header uuid flow t @ rest) = Some (uuid, flow, t, rest)"
  by (rule decode_encode_request [OF assms])

theorem request_header_roundtrip_witness:
  "decode_request (encode_request_header (replicate 16 7) (str ''xtls-rprx-vision'')
      \<lparr>tg_addr = Domain (str ''ex.com''), tg_port = 443\<rparr> @ [1, 2]) =
    Some (replicate 16 7, str ''xtls-rprx-vision'',
      \<lparr>tg_addr = Domain (str ''ex.com''), tg_port = 443\<rparr>, [1, 2])"
proof -
  have "utf8_valid (str ''ex.com'')" by (rule utf8_valid_ascii) simp
  then show ?thesis
    by (intro request_header_roundtrip) (simp_all add: target_ok_def)
qed

text \<open>
  Stripping the response header does not depend on how its bytes arrive. What \<^verbatim>\<open>feed\<close>
  decides on a buffer it also decides, in the same way, on every longer buffer: a removed
  header leaves exactly the bytes behind it, an undecided call changes nothing, a rejected
  version stays rejected.
\<close>

theorem feed_chunking:
  "case feed h b of
     (Inr True, h', b') \<Rightarrow> feed h (b @ c) = (Inr True, h', b' @ c) \<and> rh_done h'
   | (Inr False, h', b') \<Rightarrow> h' = h \<and> b' = b
   | (Inl e, h', b') \<Rightarrow> fst (feed h (b @ c)) = Inl e"
  using feed_append [of h b _ _ _ c]
  by (auto split: prod.splits sum.splits bool.splits)

text \<open>
  The lazy and the blocking reader of the response header agree: on a stream that holds
  the bytes \<open>b\<close>, the blocking reader succeeds exactly when \<^verbatim>\<open>feed\<close> removes the header from
  \<open>b\<close>, and both leave the same bytes.
\<close>

theorem read_response_header_feed:
  "read_response_header c = (Inr (), c\<lparr>c_in := r\<rparr>)
     \<longleftrightarrow> feed response_header_new (c_in c) = (Inr True, already_consumed, r)"
proof (cases "c_in c" rule: chunks2.cases)
  case (1 a n s)
  have "read_exact 2 c = (Inr [a, n], c\<lparr>c_in := s\<rparr>)"
    using 1 by (simp add: conn_ops)
  with 1 show ?thesis
    by (cases c) (auto simp: read_response_header_def feed_def response_header_new_def
        already_consumed_def Let_def const_defs read_exact_def)
qed (auto simp: read_response_header_def feed_def response_header_new_def
    already_consumed_def read_exact_def)

text \<open>The response header (VLESS): the version 0, the length of the addons, the addons.\<close>

definition response_bytes :: "bytes \<Rightarrow> bytes" where
  "response_bytes addons = [0, of_nat (length addons)] @ addons"

lemma response_complete_iff:
  "complete 2 response_len b \<and> b ! 0 = 0 \<and> r = drop (response_len b) b
     \<longleftrightarrow> (\<exists>addons. length addons < 256 \<and> b = response_bytes addons @ r)"
proof
  assume c: "complete 2 response_len b \<and> b ! 0 = 0 \<and> r = drop (response_len b) b"
  then obtain v n s where b: "b = v # n # s" by (cases b rule: chunks2.cases) (auto simp: complete_def)
  have "length (take (unat n) s) = unat n" "unat n < 256"
    using c unsigned_less [of n] by (auto simp: b complete_def response_len_def)
  then have "length (take (unat n) s) < 256 \<and> b = response_bytes (take (unat n) s) @ r"
    using c by (simp add: b response_bytes_def response_len_def)
  then show "\<exists>addons. length addons < 256 \<and> b = response_bytes addons @ r" by blast
next
  assume "\<exists>addons. length addons < 256 \<and> b = response_bytes addons @ r"
  then obtain addons where "length addons < 256" "b = response_bytes addons @ r" by blast
  then show "complete 2 response_len b \<and> b ! 0 = 0 \<and> r = drop (response_len b) b"
    by (simp add: complete_def response_len_def response_bytes_def unat_of_nat)
qed

lemma response_incomplete_iff:
  "\<not> complete 2 response_len b \<and> (length b < 2 \<or> b ! 0 = 0)
     \<longleftrightarrow> length b < 2 \<or> (\<exists>addons rest. length addons < 256 \<and> rest \<noteq> [] \<and> b @ rest = response_bytes addons)"
  (is "?l \<longleftrightarrow> ?r")
proof (cases "length b < 2")
  case False
  then obtain v n s where b: "b = v # n # s" by (cases b rule: chunks2.cases) auto
  show ?thesis
  proof
    assume ?l
    then have v: "v = 0" "length s < unat n" by (simp_all add: b complete_def response_len_def)
    let ?more = "replicate (unat n - length s) 0"
    have "length (s @ ?more) = unat n" using v by simp
    moreover have "unat n < 256" using unsigned_less [of n] by simp
    ultimately have "length (s @ ?more) < 256 \<and> ?more \<noteq> [] \<and> b @ ?more = response_bytes (s @ ?more)"
      using v by (simp add: b response_bytes_def)
    then show ?r by blast
  next
    assume ?r
    then obtain addons rest where a: "length addons < 256" "rest \<noteq> []" "v = 0"
      "n = of_nat (length addons)" "s @ rest = addons" using False by (auto simp: b response_bytes_def)
    then have "unat n = length s + length rest" by (auto simp: unat_of_nat)
    with a(2,3) show ?l by (simp add: b complete_def response_len_def)
  qed
qed (simp add: complete_def)

lemma feed_new_cases:
  "feed response_header_new b =
     (if complete 2 response_len b \<and> b ! 0 = 0 then (Inr True, already_consumed, drop (response_len b) b)
      else if length b < 2 \<or> b ! 0 = 0 then (Inr False, response_header_new, b)
      else (Inl (Vless (str ''bad response version'')), response_header_new, b))"
  using feed_complete [of response_header_new b] feed_incomplete [of response_header_new b] feed_bad [of response_header_new b]
  by (auto simp: response_header_new_def already_consumed_def complete_def)

text \<open>
  C20: The response header is removed exactly. A buffer is stripped if and only if it begins with a whole
  header - version 0, the length of the addons, as many bytes - and what is left is exactly what is behind
  it; more bytes are awaited if and only if the buffer is a byte or a proper beginning of a header, and nothing
  changes then; any other version is refused as soon as two bytes are there. A header is removed
  once: afterwards the bytes are passed on. The blocking reader takes the same headers and
  leaves the same bytes.
\<close>

theorem response_header_exact:
  "(feed response_header_new b = (Inr True, already_consumed, r)
      \<longleftrightarrow> (\<exists>addons. length addons < 256 \<and> b = response_bytes addons @ r)) \<and>
   (feed response_header_new b = (Inr False, response_header_new, b)
      \<longleftrightarrow> length b < 2 \<or> (\<exists>addons rest. length addons < 256 \<and> rest \<noteq> [] \<and> b @ rest = response_bytes addons)) \<and>
   (feed response_header_new b = (Inl (Vless (str ''bad response version'')), response_header_new, b)
      \<longleftrightarrow> 2 \<le> length b \<and> b ! 0 \<noteq> 0) \<and>
   feed already_consumed b = (Inr True, already_consumed, b) \<and>
   (read_response_header c = (Inr (), c\<lparr>c_in := r\<rparr>)
      \<longleftrightarrow> (\<exists>addons. length addons < 256 \<and> c_in c = response_bytes addons @ r))"
proof -
  have removed: "feed response_header_new d = (Inr True, already_consumed, r)
      \<longleftrightarrow> (\<exists>addons. length addons < 256 \<and> d = response_bytes addons @ r)" for d
    unfolding response_complete_iff [symmetric] by (auto simp: feed_new_cases)
  moreover have "feed response_header_new b = (Inr False, response_header_new, b)
      \<longleftrightarrow> length b < 2 \<or> (\<exists>addons rest. length addons < 256 \<and> rest \<noteq> [] \<and> b @ rest = response_bytes addons)"
    unfolding response_incomplete_iff [symmetric] by (auto simp: feed_new_cases complete_def)
  moreover have "feed response_header_new b = (Inl (Vless (str ''bad response version'')), response_header_new, b)
      \<longleftrightarrow> 2 \<le> length b \<and> b ! 0 \<noteq> 0"
    by (auto simp: feed_new_cases)
  moreover have "feed already_consumed b = (Inr True, already_consumed, b)"
    by (simp add: feed_done already_consumed_def)
  ultimately show ?thesis unfolding read_response_header_feed by blast
qed

end
