(* ===== verification/RecordGate.thy ===== *)
theory RecordGate
  imports RErrors TlsRecord "HOL-Library.Sublist"
begin

text \<open>
  The record gate of \<^verbatim>\<open>src/outbound/record_gate.rs\<close>: a layer below the TLS library that
  hands over one TLS record at a time. The socket underneath is a script of what its coming
  \<^verbatim>\<open>poll_read\<close> calls answer; a waker that the gate wakes itself is counted.
\<close>

section \<open>The socket\<close>

text \<open>
  A read takes at most \<open>cap\<close> bytes of a chunk and leaves the rest; a read of no bytes, and
  every read behind the script, is the end of the stream. \<open>Stall\<close> is \<^verbatim>\<open>Poll::Pending\<close>: the
  socket has registered the waker.
\<close>

datatype rd_event = Chunk bytes | Stall | Broken io_error

type_synonym rd_result = "(io_error + bytes) poll"

fun src_read :: "nat \<Rightarrow> rd_event list \<Rightarrow> rd_result \<times> rd_event list" where
  "src_read cap [] = (Ready (Inr []), [])"
| "src_read cap (Chunk b # s) =
     (Ready (Inr (take cap b)), if length b \<le> cap then s else Chunk (drop cap b) # s)"
| "src_read cap (Stall # s) = (Pending, s)"
| "src_read cap (Broken e # s) = (Ready (Inl e), s)"

text \<open>The bytes still to come, and the bytes a read delivered.\<close>

definition content :: "rd_event list \<Rightarrow> bytes" where
  "content s = concat (map (\<lambda>e. case e of Chunk b \<Rightarrow> b | _ \<Rightarrow> []) s)"

fun got :: "rd_result \<Rightarrow> bytes" where
  "got (Ready (Inr d)) = d"
| "got _ = []"

fun script_size :: "rd_event list \<Rightarrow> nat" where
  "script_size [] = 0"
| "script_size (Chunk b # s) = Suc (length b) + script_size s"
| "script_size (_ # s) = Suc (script_size s)"

lemma content_simps [simp]:
  "content [] = []" "content (Chunk b # s) = b @ content s" "content (Stall # s) = content s"
  "content (Broken e # s) = content s"
  by (simp_all add: content_def)

lemma src_read_content: "src_read cap s = (r, s') \<Longrightarrow> got r @ content s' = content s"
  by (cases "(cap, s)" rule: src_read.cases) auto

lemma src_read_size:
  "src_read cap s = (Ready (Inr d), s') \<Longrightarrow> d \<noteq> [] \<Longrightarrow> script_size s' < script_size s"
  by (cases "(cap, s)" rule: src_read.cases) (auto split: if_splits)

lemma src_read_cap: "src_read cap s = (r, s') \<Longrightarrow> length (got r) \<le> cap"
  by (cases "(cap, s)" rule: src_read.cases) auto

section \<open>The gate\<close>

record record_gate =
  g_src :: "rd_event list"
  g_buf :: bytes
  g_gating :: bool
  g_remaining :: nat
  g_open :: bool
  g_wakes :: nat

definition gate_new :: "rd_event list \<Rightarrow> record_gate" where
  "gate_new inner = \<lparr>g_src = inner, g_buf = [], g_gating = False, g_remaining = 0, g_open = True,
     g_wakes = 0\<rparr>"

definition start_gating :: "record_gate \<Rightarrow> record_gate" where
  "start_gating g = g\<lparr>g_gating := True, g_open := True\<rparr>"

definition stop_gating :: "record_gate \<Rightarrow> record_gate" where
  "stop_gating g = g\<lparr>g_gating := False, g_remaining := 0\<rparr>"

definition gate_do_open :: "record_gate \<Rightarrow> record_gate" where
  "gate_do_open g = g\<lparr>g_open := True\<rparr>"

definition take_buffered :: "record_gate \<Rightarrow> bytes \<times> record_gate" where
  "take_buffered g = (g_buf g, g\<lparr>g_buf := []\<rparr>)"

text \<open>\<^verbatim>\<open>poll_fill\<close>: how many bytes were read into the buffer.\<close>

definition poll_fill :: "record_gate \<Rightarrow> (io_error + nat) poll \<times> record_gate" where
  "poll_fill g =
     (case src_read (16 * 1024) (g_src g) of
        (Pending, s) \<Rightarrow> (Pending, g\<lparr>g_src := s\<rparr>)
      | (Ready (Inl e), s) \<Rightarrow> (Ready (Inl e), g\<lparr>g_src := s\<rparr>)
      | (Ready (Inr d), s) \<Rightarrow> (Ready (Inr (length d)), g\<lparr>g_src := s, g_buf := g_buf g @ d\<rparr>))"

definition hand_over :: "nat \<Rightarrow> nat \<Rightarrow> record_gate \<Rightarrow> bytes \<times> record_gate" where
  "hand_over cap limit g =
     (let n = min (min limit (length (g_buf g))) cap
      in (take n (g_buf g), g\<lparr>g_buf := drop n (g_buf g)\<rparr>))"

lemma poll_fill_size:
  "poll_fill g = (Ready (Inr n), g') \<Longrightarrow> 0 < n \<Longrightarrow>
     script_size (g_src g') < script_size (g_src g) \<and> g_remaining g' = g_remaining g"
  using src_read_size [of "16 * 1024" "g_src g"]
  by (fastforce simp: poll_fill_def split: prod.splits poll.splits sum.splits)

text \<open>The \<^verbatim>\<open>loop\<close> of \<^verbatim>\<open>poll_read\<close> while gating; \<open>cap\<close> is the room in the caller's buffer.\<close>

function gate_loop :: "nat \<Rightarrow> record_gate \<Rightarrow> rd_result \<times> record_gate" where
  "gate_loop cap g =
     (if 0 < g_remaining g then
        let deliver = (\<lambda>g. let (d, g) = hand_over cap (g_remaining g) g in
               (Ready (Inr d), g\<lparr>g_remaining := g_remaining g - length d\<rparr>))
        in if g_buf g = [] then
             (case poll_fill g of
                (Pending, g) \<Rightarrow> (Pending, g)
              | (Ready (Inl e), g) \<Rightarrow> (Ready (Inl e), g)
              | (Ready (Inr n), g) \<Rightarrow> if n = 0 then (Ready (Inr []), g) else deliver g)
           else deliver g
      else if \<not> g_open g then (Pending, g\<lparr>g_wakes := Suc (g_wakes g)\<rparr>)
      else if length (g_buf g) < tls_record_header_len then
        (case poll_fill g of
           (Pending, g) \<Rightarrow> (Pending, g)
         | (Ready (Inl e), g) \<Rightarrow> (Ready (Inl e), g)
         | (Ready (Inr n), g) \<Rightarrow> if n = 0 then (Ready (Inr []), g) else gate_loop cap g)
      else gate_loop cap (g\<lparr>g_remaining := record_len (g_buf g), g_open := False\<rparr>))"
  by pat_completeness auto
termination
  by (relation "measures [\<lambda>(cap, g). script_size (g_src g), \<lambda>(cap, g). if g_remaining g = 0 then 1 else 0]")
    (auto simp: record_len_def dest: poll_fill_size [OF sym])

declare gate_loop.simps [simp del]

definition gate_poll_read :: "nat \<Rightarrow> record_gate \<Rightarrow> rd_result \<times> record_gate" where
  "gate_poll_read cap g =
     (if \<not> g_gating g then
        if g_buf g \<noteq> [] then
          (let (d, g) = hand_over cap (length (g_buf g)) g in (Ready (Inr d), g))
        else (case src_read cap (g_src g) of (r, s) \<Rightarrow> (r, g\<lparr>g_src := s\<rparr>))
      else gate_loop cap g)"

text \<open>\<^verbatim>\<open>poll_read_direct\<close> of the TLS stream: around the gate, straight from the socket.\<close>

definition gate_read_direct :: "nat \<Rightarrow> record_gate \<Rightarrow> rd_result \<times> record_gate" where
  "gate_read_direct cap g = (case src_read cap (g_src g) of (r, s) \<Rightarrow> (r, g\<lparr>g_src := s\<rparr>))"

section \<open>What a read does\<close>

text \<open>The bytes above the socket's reader: what the gate holds and what is still to come.\<close>

definition gate_stream :: "record_gate \<Rightarrow> bytes" where
  "gate_stream g = g_buf g @ content (g_src g)"

lemma poll_fill_effect:
  assumes "poll_fill g = (r, g')"
  shows "gate_stream g' = gate_stream g" "g_remaining g' = g_remaining g" "g_open g' = g_open g"
    "g_gating g' = g_gating g" "g_wakes g' = g_wakes g" "g_buf g' = g_buf g @ drop (length (g_buf g)) (g_buf g')"
    "r = Ready (Inr n) \<Longrightarrow> length (g_buf g') = length (g_buf g) + n"
  using assms src_read_content [of "16 * 1024" "g_src g"]
  by (fastforce simp: poll_fill_def gate_stream_def split: prod.splits poll.splits sum.splits)+

lemma hand_over_effect:
  assumes "hand_over cap limit g = (d, g')"
  shows "d @ gate_stream g' = gate_stream g" "length d \<le> limit" "length d \<le> cap"
    "g_remaining g' = g_remaining g" "g_open g' = g_open g" "g_gating g' = g_gating g"
    "g_wakes g' = g_wakes g" "0 < cap \<Longrightarrow> 0 < limit \<Longrightarrow> g_buf g \<noteq> [] \<Longrightarrow> d \<noteq> []"
  using assms
  by (auto simp: hand_over_def Let_def gate_stream_def min_def split: if_splits simp flip: append_assoc)

text \<open>
  One round of the gate, as a relation between the states: what may be delivered and where
  in the record the gate then stands.
\<close>

definition gate_round :: "record_gate \<Rightarrow> bytes \<Rightarrow> record_gate \<Rightarrow> bool" where
  "gate_round g d g' \<longleftrightarrow>
     d @ gate_stream g' = gate_stream g \<and> g_gating g' = g_gating g \<and>
     (if 0 < g_remaining g then
        length d \<le> g_remaining g \<and> g_remaining g' = g_remaining g - length d \<and> g_open g' = g_open g
      else if g_open g then
        g_remaining g' = 0 \<and> g_open g' \<and> d = [] \<or>
        5 \<le> length (gate_stream g) \<and> \<not> g_open g' \<and> length d \<le> record_len (gate_stream g) \<and>
          g_remaining g' = record_len (gate_stream g) - length d
      else d = [] \<and> g_remaining g' = 0 \<and> \<not> g_open g')"

lemma gate_loop_within:
  assumes "0 < g_remaining g" and "gate_loop cap g = (r, g')"
  shows "gate_round g (got r) g'"
proof (cases "g_buf g = []")
  case False
  then show ?thesis
    using assms hand_over_effect [of cap "g_remaining g" g]
    by (subst (asm) gate_loop.simps) (auto simp: gate_round_def gate_stream_def split: prod.splits)
next
  case True
  obtain p g1 where p: "poll_fill g = (p, g1)" by fastforce
  note e = poll_fill_effect [OF p]
  show ?thesis
    using assms True e(1-4) hand_over_effect [of cap "g_remaining g1" g1]
    by (subst (asm) gate_loop.simps)
      (auto simp: p gate_round_def gate_stream_def split: prod.splits poll.splits sum.splits if_splits)
qed

lemma gate_loop_round:
  "gate_loop cap g = (r, g') \<Longrightarrow> gate_round g (got r) g'"
proof (induction cap g rule: gate_loop.induct)
  case (1 cap g)
  consider (within) "0 < g_remaining g" | (shut) "g_remaining g = 0" "\<not> g_open g"
    | (fill) "g_remaining g = 0" "g_open g" "length (g_buf g) < tls_record_header_len"
    | (head) "g_remaining g = 0" "g_open g" "\<not> length (g_buf g) < tls_record_header_len"
    by blast
  then show ?case
  proof cases
    case within
    from gate_loop_within [OF this 1(3)] show ?thesis .
  next
    case shut
    then show ?thesis
      using 1(3) by (subst (asm) gate_loop.simps) (auto simp: gate_round_def gate_stream_def)
  next
    case fill
    obtain p g1 where p: "poll_fill g = (p, g1)" by fastforce
    note e = poll_fill_effect [OF p]
    show ?thesis
    proof (cases "\<exists>n. p = Ready (Inr n) \<and> n \<noteq> 0")
      case True
      then obtain n where n: "p = Ready (Inr n)" "n \<noteq> 0" by blast
      have "gate_loop cap g1 = (r, g')"
        using 1(3) fill by (subst (asm) gate_loop.simps) (simp add: p n)
      from 1(1) [OF _ _ fill(3) p [symmetric] n(1) refl n(2) this] fill
      have "gate_round g1 (got r) g'" by simp
      then show ?thesis using e(1-4) fill by (simp add: gate_round_def)
    next
      case False
      then show ?thesis
        using 1(3) fill e(1-4)
        by (subst (asm) gate_loop.simps) (auto simp: p gate_round_def split: poll.splits sum.splits)
    qed
  next
    case head
    let ?g = "g\<lparr>g_remaining := record_len (g_buf g), g_open := False\<rparr>"
    have len: "5 \<le> length (g_buf g)" using head(3) by (simp add: tls_record_header_len_def)
    then have rl: "record_len (gate_stream g) = record_len (g_buf g)" "0 < record_len (g_buf g)"
      using rec.size_append [OF len] by (simp_all add: gate_stream_def rec.size_pos)
    have "gate_loop cap ?g = (r, g')"
      using 1(3) head by (subst (asm) gate_loop.simps) simp
    with gate_loop_within [of ?g cap r g'] rl
    have "gate_round ?g (got r) g'" by simp
    then show ?thesis
      using rl head len by (auto simp: gate_round_def gate_stream_def)
  qed
qed

lemma gate_read_round:
  "gate_poll_read cap g = (r, g') \<Longrightarrow> g_gating g \<Longrightarrow> gate_round g (got r) g'"
  by (simp add: gate_poll_read_def gate_loop_round)

lemma gate_read_stream:
  assumes "gate_poll_read cap g = (r, g')"
  shows "got r @ gate_stream g' = gate_stream g \<and> g_gating g' = g_gating g"
proof (cases "g_gating g")
  case True
  with gate_read_round [OF assms] show ?thesis by (simp add: gate_round_def)
next
  case False
  then show ?thesis
    using assms hand_over_effect(1,6) [of cap "length (g_buf g)" g]
      src_read_content [of cap "g_src g"]
    by (auto simp: gate_poll_read_def gate_stream_def split: if_splits prod.splits)
qed

section \<open>The gate as a machine\<close>

datatype gate_op = GRead nat | GOpen | GStart | GStop

fun gate_step :: "record_gate \<times> bytes \<Rightarrow> gate_op \<Rightarrow> record_gate \<times> bytes" where
  "gate_step (g, out) (GRead cap) = (case gate_poll_read cap g of (r, g) \<Rightarrow> (g, out @ got r))"
| "gate_step (g, out) GOpen = (gate_do_open g, out)"
| "gate_step (g, out) GStart = (start_gating g, out)"
| "gate_step (g, out) GStop = (stop_gating g, out)"

definition gate_inv :: "bytes \<Rightarrow> record_gate \<times> bytes \<Rightarrow> bool" where
  "gate_inv whole = (\<lambda>(g, out). out @ gate_stream g = whole)"

interpretation gate: invariant_machine gate_step "gate_inv whole" for whole
proof
  fix s e
  assume inv: "gate_inv whole s"
  obtain g out where s: "s = (g, out)" by (cases s)
  show "gate_inv whole (gate_step s e)"
  proof (cases e)
    case (GRead cap)
    obtain r g' where "gate_poll_read cap g = (r, g')" by fastforce
    with gate_read_stream [OF this] inv show ?thesis by (auto simp: GRead gate_inv_def s)
  qed (use inv in \<open>auto simp: gate_inv_def s gate_do_open_def start_gating_def stop_gating_def
      gate_stream_def\<close>)
qed

lemma gate_round_trans:
  assumes "gate_round g d g1" and "gate_round g1 e g2" and "g_open g \<longrightarrow> g_remaining g = 0"
  shows "gate_round g (d @ e) g2 \<and> (g_open g1 \<longrightarrow> g_remaining g1 = 0)"
proof -
  have st: "d @ gate_stream g1 = gate_stream g" "e @ gate_stream g2 = gate_stream g1"
    using assms by (simp_all add: gate_round_def)
  consider "0 < g_remaining g" "\<not> g_open g" | "g_remaining g = 0" "\<not> g_open g"
    | "g_remaining g = 0" "g_open g" "g_open g1" | "g_remaining g = 0" "g_open g" "\<not> g_open g1"
    using assms(3) by auto
  then show ?thesis
  proof cases
    case 3
    then have "d = []" "gate_stream g1 = gate_stream g" using assms(1) st by (auto simp: gate_round_def)
    with 3 assms(1,2) show ?thesis by (auto simp: gate_round_def)
  qed (use assms(1,2) st in \<open>auto simp: gate_round_def split: if_splits\<close>)
qed

lemma gate_round_refl: "g_open g \<longrightarrow> g_remaining g = 0 \<Longrightarrow> gate_round g [] g"
  by (auto simp: gate_round_def)

lemma reads_round:
  "run gate_step (g, out) (map GRead caps) = (g', out') \<Longrightarrow> g_gating g \<Longrightarrow>
     (g_open g \<longrightarrow> g_remaining g = 0) \<Longrightarrow> \<exists>d. out' = out @ d \<and> gate_round g d g'"
proof (induction caps arbitrary: g out)
  case Nil
  then show ?case using gate_round_refl by auto
next
  case (Cons cap caps)
  obtain r g1 where r: "gate_poll_read cap g = (r, g1)" by fastforce
  note round = gate_read_round [OF r Cons.prems(2)]
  then have gating: "g_gating g1" using Cons.prems(2) by (simp add: gate_round_def)
  have "g_open g1 \<longrightarrow> g_remaining g1 = 0"
    using round Cons.prems(3) by (auto simp: gate_round_def split: if_splits)
  with Cons.IH [of g1 "out @ got r", OF _ gating] Cons.prems(1) r obtain d
    where d: "out' = out @ got r @ d" "gate_round g1 d g'" by auto
  from gate_round_trans [OF round d(2) Cons.prems(3)] d(1) show ?case by auto
qed

section \<open>Records and openings\<close>

text \<open>
  Where the gate stands after handing over \<open>out\<close>: behind the whole records \<open>rs\<close>, and behind
  \<open>part\<close> of one more when some of it remains.
\<close>

definition stands :: "record_gate \<Rightarrow> bytes list \<Rightarrow> bytes \<Rightarrow> bool" where
  "stands g rs part \<longleftrightarrow>
     (\<forall>u \<in> set rs. 5 \<le> length u \<and> record_len u = length u) \<and>
     (if 0 < g_remaining g
      then 5 \<le> length (part @ gate_stream g) \<and> record_len (part @ gate_stream g) = length part + g_remaining g
      else part = [])"

lemma record_done:
  assumes "5 \<le> length (u @ s)" and "record_len (u @ s) = length u"
  shows "5 \<le> length u \<and> record_len u = length u"
proof -
  have "5 \<le> length u" using rec.hdr_le [OF assms(1)] assms(2) by simp
  with rec.size_append [of u s] assms(2) show ?thesis by simp
qed

lemma gate_round_stands:
  assumes "gate_round g d g'" and "stands g rs part"
  shows "\<exists>rs' part'. concat rs @ part @ d = concat rs' @ part' \<and> stands g' rs' part' \<and>
    (rs' = rs \<or> (\<exists>u. rs' = rs @ [u] \<and> part' = [])) \<and>
    length rs' + (if 0 < g_remaining g' then 1 else 0) + (if g_open g' then 1 else 0)
      \<le> length rs + (if 0 < g_remaining g then 1 else 0) + (if g_open g then 1 else (0 :: nat))"
proof -
  have s: "d @ gate_stream g' = gate_stream g" using assms(1) by (simp add: gate_round_def)
  show ?thesis
  proof (cases "0 < g_remaining g")
    case True
    then have r: "g_remaining g' = g_remaining g - length d" "length d \<le> g_remaining g" "g_open g' = g_open g"
      and p: "5 \<le> length ((part @ d) @ gate_stream g')"
      "record_len ((part @ d) @ gate_stream g') = length part + g_remaining g"
      using assms s by (auto simp: gate_round_def stands_def)
    show ?thesis
    proof (cases "g_remaining g' = 0")
      case False
      with r p assms(2) True show ?thesis
        by (intro exI [of _ rs] exI [of _ "part @ d"]) (simp add: stands_def)
    next
      case done0: True
      with r p have "5 \<le> length (part @ d) \<and> record_len (part @ d) = length (part @ d)"
        by (intro record_done [of _ "gate_stream g'"]) simp_all
      with done0 r assms(2) True show ?thesis
        by (intro exI [of _ "rs @ [part @ d]"] exI [of _ "[]"]) (auto simp: stands_def)
    qed
  next
    case False
    then have part: "part = []" "\<forall>u \<in> set rs. 5 \<le> length u \<and> record_len u = length u"
      using assms(2) by (auto simp: stands_def)
    show ?thesis
    proof (cases "d = [] \<and> g_remaining g' = 0")
      case True
      with False part assms(1) show ?thesis
        by (intro exI [of _ rs] exI [of _ "[]"]) (auto simp: stands_def gate_round_def split: if_splits)
    next
      case begun: False
      then have r: "g_open g" "\<not> g_open g'" "5 \<le> length (d @ gate_stream g')"
        "length d \<le> record_len (d @ gate_stream g')"
        "g_remaining g' = record_len (d @ gate_stream g') - length d"
        using False assms(1) s by (auto simp: gate_round_def split: if_splits)
      show ?thesis
      proof (cases "g_remaining g' = 0")
        case True
        with r have "5 \<le> length d \<and> record_len d = length d"
          by (intro record_done [of _ "gate_stream g'"]) simp_all
        with True r False part show ?thesis
          by (intro exI [of _ "rs @ [d]"] exI [of _ "[]"]) (auto simp: stands_def)
      next
        case False2: False
        with r False part show ?thesis
          by (intro exI [of _ rs] exI [of _ d]) (simp add: stands_def)
      qed
    qed
  qed
qed

fun reads_or_opens :: "gate_op list \<Rightarrow> bool" where
  "reads_or_opens [] = True"
| "reads_or_opens (GRead cap # ops) = reads_or_opens ops"
| "reads_or_opens (GOpen # ops) = reads_or_opens ops"
| "reads_or_opens _ = False"

lemma gated_run_stands:
  assumes "reads_or_opens ops" and "g_gating g" and "stands g rs part" and "out = concat rs @ part"
    and "run gate_step (g, out) ops = (g', out')"
  shows "\<exists>rs' part'. out' = concat rs' @ part' \<and> stands g' rs' part' \<and>
    length rs' + (if 0 < g_remaining g' then 1 else 0)
      \<le> length rs + (if 0 < g_remaining g then 1 else 0) + (if g_open g then 1 else (0 :: nat)) + count_list ops GOpen"
  using assms
proof (induction ops arbitrary: g rs part out rule: reads_or_opens.induct)
  case 1
  then show ?case by (intro exI [of _ rs] exI [of _ part]) auto
next
  case (2 cap ops)
  obtain r g1 where r: "gate_poll_read cap g = (r, g1)" by fastforce
  note round = gate_read_round [OF r 2(3)]
  from gate_round_stands [OF round 2(4)] obtain rs1 part1 where s:
    "concat rs @ part @ got r = concat rs1 @ part1" "stands g1 rs1 part1"
    "length rs1 + (if 0 < g_remaining g1 then 1 else 0) + (if g_open g1 then 1 else 0)
      \<le> length rs + (if 0 < g_remaining g then 1 else 0) + (if g_open g then 1 else (0 :: nat))" by blast
  have "g_gating g1" using round 2(3) by (simp add: gate_round_def)
  from 2(1) [OF _ this s(2) s(1) [symmetric, THEN sym]] 2(2,5,6) r obtain rs' part' where
    "out' = concat rs' @ part'" "stands g' rs' part'"
    "length rs' + (if 0 < g_remaining g' then 1 else 0)
      \<le> length rs1 + (if 0 < g_remaining g1 then 1 else 0) + (if g_open g1 then 1 else 0) + count_list ops GOpen"
    by auto
  with s(3) show ?case by (intro exI [of _ rs'] exI [of _ part']) auto
next
  case (3 ops)
  have "stands (gate_do_open g) rs part" using 3(4)
    by (auto simp: stands_def gate_do_open_def gate_stream_def split: if_splits)
  from 3(1) [OF _ _ this 3(5)] 3(2,3,6) obtain rs' part' where
    "out' = concat rs' @ part'" "stands g' rs' part'"
    "length rs' + (if 0 < g_remaining g' then 1 else 0)
      \<le> length rs + (if 0 < g_remaining g then 1 else 0) + 1 + count_list ops GOpen"
    by (auto simp: gate_do_open_def)
  then show ?case by (intro exI [of _ rs'] exI [of _ part']) auto
qed auto

section \<open>Starting inside a record\<close>

text \<open>
  The gate takes the first byte it sees for the start of a record. If TLS has taken a part of a
  record when the gating starts, it reads a length inside that record, and one opening may
  release more than the record TLS waits for. Here TLS has the first two bytes of a record
  of two bytes of data; behind it come the record with the switch and three raw bytes, and
  the first opening releases them all.
\<close>

lemma start_inside_record:
  "fst (gate_poll_read 4096 (start_gating (gate_new [Chunk ([3, 0, 2, 7, 8] @ [23, 3, 3, 0, 1, 9] @ [1, 2, 3])])))
     = Ready (Inr [3, 0, 2, 7, 8, 23, 3, 3, 0, 1, 9, 1, 2, 3])"
  by (simp add: start_gating_def gate_new_def gate_poll_read_def gate_loop.simps poll_fill_def hand_over_def
      record_len_def be_u16_def tls_record_header_len_def)

section \<open>Properties\<close>

text \<open>
  The gate loses, repeats and reorders nothing: through any sequence of reads with any
  room, openings, starts and stops of the gating, and any behaviour of the socket, the bytes
  handed to the TLS library followed by those \<^verbatim>\<open>take_buffered\<close> returns and those still to
  come from the socket are exactly the bytes of the socket. So the switch to direct copy
  continues precisely where the TLS library stopped.
\<close>

theorem gate_conserves:
  "let (g, out) = run gate_step (gate_new inner, []) ops; (held, g') = take_buffered g
   in out @ held @ content (g_src g') = content inner"
proof -
  have "gate_inv (content inner) (gate_new inner, [])"
    by (simp add: gate_inv_def gate_new_def gate_stream_def)
  from gate.run_inv [OF this, of ops] show ?thesis
    by (auto simp: gate_inv_def take_buffered_def gate_stream_def split: prod.splits)
qed

text \<open>
  C12: One opening releases one record. From a record boundary with the gate just opened, any
  number of reads, of any size and with any answers of the socket, hand over a prefix of the
  next record and nothing of the bytes behind it; if nothing of the record is left to hand
  over, it has been handed over whole or not begun.
\<close>

theorem one_record_per_opening:
  assumes "g_gating g" and "g_remaining g = 0"
    and "run gate_step (gate_do_open g, []) (map GRead caps) = (g', out)"
  shows "let s = gate_stream g in
    out @ gate_stream g' = s \<and>
    (out \<noteq> [] \<longrightarrow> 5 \<le> length s \<and> length out \<le> record_len s) \<and>
    (g_remaining g' = 0 \<longrightarrow> out = [] \<or> length out = record_len s)"
proof -
  have "gate_round (gate_do_open g) out g'"
    using reads_round [OF assms(3)] assms(1,2) by (simp add: gate_do_open_def)
  then show ?thesis
    using assms(2) by (auto simp: gate_round_def gate_do_open_def gate_stream_def Let_def)
qed

definition sample_gate :: record_gate where
  "sample_gate = start_gating (gate_new [Chunk [23, 3, 3, 0], Stall, Chunk [1, 9, 23, 3, 3, 0, 1, 8]])"

lemma sample_gate_run:
  "map_prod g_remaining id (run gate_step (gate_do_open sample_gate, []) (map GRead [4, 9, 9, 9, 9]))
     = (0, [23, 3, 3, 0, 1, 9])"
  by (simp add: sample_gate_def start_gating_def gate_new_def gate_do_open_def gate_poll_read_def
      gate_loop.simps poll_fill_def hand_over_def record_len_def be_u16_def
      tls_record_header_len_def)

theorem one_record_per_opening_witness:
  "\<exists>g'. run gate_step (gate_do_open sample_gate, []) (map GRead [4, 9, 9, 9, 9])
      = (g', [23, 3, 3, 0, 1, 9]) \<and> gate_stream g' = [23, 3, 3, 0, 1, 8]"
proof -
  obtain g' out where r: "run gate_step (gate_do_open sample_gate, []) (map GRead [4, 9, 9, 9, 9]) = (g', out)"
    by fastforce
  have "g_gating sample_gate" "g_remaining sample_gate = 0"
    by (simp_all add: sample_gate_def start_gating_def gate_new_def)
  from one_record_per_opening [OF this r] r sample_gate_run show ?thesis
    by (auto simp: Let_def sample_gate_def start_gating_def gate_new_def gate_stream_def)
qed

text \<open>
  C13: Records are admitted one per opening, over a whole session: from the start of the gating
  at a record boundary, through any reads and openings, what the TLS library got is a sequence
  of whole records and at most a part of one more, together at most one more than there were
  openings; and whenever nothing of a record remains, the held bytes and the socket continue
  exactly at a record boundary. So the bytes taken over at the switch to direct copy begin
  right behind the last TLS record.
\<close>

theorem records_per_opening:
  assumes "reads_or_opens ops" and "g_remaining g0 = 0"
    and "run gate_step (start_gating g0, []) ops = (g, out)"
  shows "\<exists>rs part. out = concat rs @ part \<and>
    (\<forall>u \<in> set rs. 5 \<le> length u \<and> record_len u = length u) \<and>
    length rs + (if part = [] then 0 else 1) \<le> 1 + count_list ops GOpen \<and>
    (g_remaining g = 0 \<longrightarrow> part = [] \<and> gate_stream g0 = concat rs @ gate_stream g)"
proof -
  have "stands (start_gating g0) [] []" "g_gating (start_gating g0)" "g_open (start_gating g0)"
    "g_remaining (start_gating g0) = 0" "gate_stream (start_gating g0) = gate_stream g0"
    using assms(2) by (simp_all add: stands_def start_gating_def gate_stream_def)
  with gated_run_stands [OF assms(1) this(2,1) _ assms(3)] obtain rs part where
    s: "out = concat rs @ part" "stands g rs part"
    "length rs + (if 0 < g_remaining g then 1 else 0) \<le> 1 + count_list ops GOpen" by auto
  have "gate_inv (gate_stream g0) (start_gating g0, [])"
    by (simp add: gate_inv_def start_gating_def gate_stream_def)
  from gate.run_inv [OF this, of ops] assms(3) have "out @ gate_stream g = gate_stream g0"
    by (simp add: gate_inv_def)
  with s show ?thesis
    by (intro exI [of _ rs] exI [of _ part]) (auto simp: stands_def split: if_splits)
qed

theorem records_per_opening_witness:
  "\<exists>g. run gate_step (start_gating (gate_new [Chunk [23, 3, 3, 0], Stall, Chunk [1, 9, 23, 3, 3, 0, 1, 8]]), [])
      (map GRead [4, 9, 9, 9, 9]) = (g, [23, 3, 3, 0, 1, 9]) \<and> gate_stream g = [23, 3, 3, 0, 1, 8]"
proof -
  let ?g0 = "gate_new [Chunk [23, 3, 3, 0], Stall, Chunk [1, 9, 23, 3, 3, 0, 1, 8]]"
  obtain g out where r: "run gate_step (start_gating ?g0, []) (map GRead [4, 9, 9, 9, 9]) = (g, out)"
    by fastforce
  have "gate_do_open sample_gate = start_gating ?g0"
    by (simp add: sample_gate_def gate_do_open_def start_gating_def)
  with r sample_gate_run have o: "g_remaining g = 0" "out = [23, 3, 3, 0, 1, 9]" by auto
  have "reads_or_opens (map GRead [4, 9, 9, 9, 9])" "g_remaining ?g0 = 0" by (simp_all add: gate_new_def)
  from records_per_opening [OF this r] o have "gate_stream ?g0 = out @ gate_stream g" by auto
  with r o show ?thesis by (simp add: gate_new_def gate_stream_def)
qed

lemma poll_fill_pending:
  "poll_fill g = (Pending, g') \<Longrightarrow> \<exists>s. g_src g = Stall # s \<and> g_src g' = s \<and> g_wakes g' = g_wakes g"
  by (cases "(16 * 1024 :: nat, g_src g)" rule: src_read.cases)
    (auto simp: poll_fill_def split: if_splits)

text \<open>The answers consumed up to and including a \<open>Stall\<close>.\<close>

definition stalled :: "rd_event list \<Rightarrow> rd_event list \<Rightarrow> bool" where
  "stalled s s' \<longleftrightarrow> (\<exists>n. s' = drop (Suc n) s \<and> n < length s \<and> s ! n = Stall)"

lemma stalled_Cons: "stalled s s' \<Longrightarrow> stalled (e # s) s'"
  unfolding stalled_def by (metis Suc_mono drop_Suc_Cons length_Cons nth_Cons_Suc)

lemma stalled_now: "stalled (Stall # s) s"
  unfolding stalled_def by (intro exI [of _ 0]) simp

lemma stalled_src_read:
  assumes "src_read cap s = (Ready (Inr d), s1)" and "stalled s1 s'" shows "stalled s s'"
proof (cases "(cap, s)" rule: src_read.cases)
  case (2 c b t)
  show ?thesis
  proof (cases "length b \<le> c")
    case False
    then obtain n where "s' = drop (Suc n) (Chunk (drop c b) # t)" "n < Suc (length t)"
      "(Chunk (drop c b) # t) ! n = Stall"
      using assms 2 by (auto simp: stalled_def)
    then show ?thesis using 2 by (cases n) (auto simp: stalled_def)
  qed (use assms 2 stalled_Cons in auto)
qed (use assms in \<open>auto simp: stalled_def\<close>)

lemma gate_loop_pending:
  "gate_loop cap g = (Pending, g') \<Longrightarrow>
     stalled (g_src g) (g_src g') \<and> g_wakes g' = g_wakes g \<or>
     g_wakes g' = Suc (g_wakes g) \<and> \<not> g_open g' \<and> g_remaining g' = 0"
proof (induction cap g rule: gate_loop.induct)
  case (1 cap g)
  obtain p g1 where p: "poll_fill g = (p, g1)" by fastforce
  have wait: "p = Pending \<Longrightarrow> stalled (g_src g) (g_src g1) \<and> g_wakes g1 = g_wakes g"
    using poll_fill_pending [of g g1] p stalled_now by auto
  consider (within) "0 < g_remaining g" | (shut) "g_remaining g = 0" "\<not> g_open g"
    | (fill) "g_remaining g = 0" "g_open g" "length (g_buf g) < tls_record_header_len"
    | (head) "g_remaining g = 0" "g_open g" "\<not> length (g_buf g) < tls_record_header_len"
    by blast
  then show ?case
  proof cases
    case within
    then show ?thesis
      using 1(3) wait
      by (subst (asm) gate_loop.simps) (auto simp: p split: prod.splits poll.splits sum.splits if_splits)
  next
    case shut
    then show ?thesis using 1(3) by (subst (asm) gate_loop.simps) auto
  next
    case head
    with 1 show ?thesis by (subst (asm) (3) gate_loop.simps) auto
  next
    case fill
    show ?thesis
    proof (cases "\<exists>n. p = Ready (Inr n) \<and> n \<noteq> 0")
      case True
      then obtain n where n: "p = Ready (Inr n)" "n \<noteq> 0" by blast
      have loop: "gate_loop cap g1 = (Pending, g')"
        using 1(3) fill by (subst (asm) gate_loop.simps) (simp add: p n)
      obtain d where "src_read (16 * 1024) (g_src g) = (Ready (Inr d), g_src g1)"
        using p n by (auto simp: poll_fill_def split: prod.splits poll.splits sum.splits)
      from stalled_src_read [OF this] 1(1) [OF _ _ fill(3) p [symmetric] n(1) refl n(2) loop] fill
        poll_fill_effect(5) [OF p]
      show ?thesis by auto
    next
      case False
      then show ?thesis
        using 1(3) fill wait by (subst (asm) gate_loop.simps) (auto simp: p split: poll.splits sum.splits)
    qed
  qed
qed

text \<open>
  No wakeup is lost: a read of the gate that answers \<^verbatim>\<open>Pending\<close> either passed on a
  \<^verbatim>\<open>Pending\<close> of the socket, which has registered the waker, or stands closed at a record
  boundary and has woken the task itself.
\<close>

theorem gate_pending_wakes:
  assumes "gate_poll_read cap g = (Pending, g')"
  shows "(\<exists>n < length (g_src g). g_src g ! n = Stall \<and> g_src g' = drop (Suc n) (g_src g) \<and>
      g_wakes g' = g_wakes g) \<or>
    (g_gating g \<and> \<not> g_open g' \<and> g_remaining g' = 0 \<and> g_wakes g' = Suc (g_wakes g))"
proof (cases "g_gating g")
  case True
  with assms gate_loop_pending [of cap g g'] show ?thesis
    by (auto simp: gate_poll_read_def stalled_def)
next
  case False
  then have "src_read cap (g_src g) = (Pending, g_src g')" "g_wakes g' = g_wakes g"
    using assms by (auto simp: gate_poll_read_def split: if_splits prod.splits)
  then have "stalled (g_src g) (g_src g')" "g_wakes g' = g_wakes g"
    using stalled_now by (cases "(cap, g_src g)" rule: src_read.cases; auto)+
  then show ?thesis by (auto simp: stalled_def)
qed

theorem gate_pending_wakes_witness:
  "\<exists>g'. gate_poll_read 9 (sample_gate\<lparr>g_open := False\<rparr>) = (Pending, g') \<and> g_wakes g' = 1"
proof -
  let ?g = "sample_gate\<lparr>g_open := False\<rparr>"
  have "gate_poll_read 9 ?g = (Pending, ?g\<lparr>g_wakes := 1\<rparr>)"
    by (simp add: gate_poll_read_def gate_loop.simps sample_gate_def start_gating_def gate_new_def)
  with gate_pending_wakes [OF this] show ?thesis by auto
qed

end
