(* ===== verification/VisionStream.thy ===== *)
theory VisionStream
  imports VisionPadder VlessModel RecordGate
begin

text \<open>
  \<^verbatim>\<open>VisionStream\<close> of \<^verbatim>\<open>src/outbound/vision.rs\<close>: the read and the write side of the stream
  around the TLS stream. The inner stream is a parameter: scripts of what its coming calls
  answer, and a log of the calls that were made.
\<close>

section \<open>The inner stream\<close>

text \<open>
  An answer to a call of the write side: accept up to so many bytes (or complete a flush or a
  shutdown), \<^verbatim>\<open>Pending\<close>, or fail; a call behind the script is pending. A logged write holds
  the bytes it accepted, a logged flush or shutdown whether it completed, and a logged read of
  TLS the bytes it gave.
\<close>

datatype wr_answer = Accept nat | Wait | Fail io_error

datatype wr_call =
    TlsWrite bytes | TlsFlush bool | TlsShutdown bool
  | RawWrite bytes | RawFlush bool | RawShutdown bool

datatype rd_call = GateOpened | GateStopped | TlsRead bytes | HeldTaken | RawRead

record inner =
  i_answers :: "wr_answer list"
  i_log :: "wr_call list"
  i_tls :: "rd_event list"
  i_held :: bytes
  i_raw :: "rd_event list"
  i_rlog :: "rd_call list"

definition call_write :: "(bytes \<Rightarrow> wr_call) \<Rightarrow> bytes \<Rightarrow> inner \<Rightarrow> (io_error + nat) poll \<times> inner" where
  "call_write mk d i =
     (case i_answers i of
        Accept n # a \<Rightarrow> (Ready (Inr (min n (length d))), i\<lparr>i_answers := a, i_log := i_log i @ [mk (take n d)]\<rparr>)
      | Fail e # a \<Rightarrow> (Ready (Inl e), i\<lparr>i_answers := a, i_log := i_log i @ [mk []]\<rparr>)
      | Wait # a \<Rightarrow> (Pending, i\<lparr>i_answers := a, i_log := i_log i @ [mk []]\<rparr>)
      | [] \<Rightarrow> (Pending, i\<lparr>i_log := i_log i @ [mk []]\<rparr>))"

definition call_ctl :: "(bool \<Rightarrow> wr_call) \<Rightarrow> inner \<Rightarrow> (io_error + unit) poll \<times> inner" where
  "call_ctl mk i =
     (case i_answers i of
        Accept n # a \<Rightarrow> (Ready (Inr ()), i\<lparr>i_answers := a, i_log := i_log i @ [mk True]\<rparr>)
      | Fail e # a \<Rightarrow> (Ready (Inl e), i\<lparr>i_answers := a, i_log := i_log i @ [mk False]\<rparr>)
      | Wait # a \<Rightarrow> (Pending, i\<lparr>i_answers := a, i_log := i_log i @ [mk False]\<rparr>)
      | [] \<Rightarrow> (Pending, i\<lparr>i_log := i_log i @ [mk False]\<rparr>))"

definition tls_read :: "nat \<Rightarrow> inner \<Rightarrow> rd_result \<times> inner" where
  "tls_read cap i = (case src_read cap (i_tls i) of (r, s) \<Rightarrow>
     (r, i\<lparr>i_tls := s, i_rlog := i_rlog i @ [TlsRead (got r)]\<rparr>))"

definition raw_read :: "nat \<Rightarrow> inner \<Rightarrow> rd_result \<times> inner" where
  "raw_read cap i = (case src_read cap (i_raw i) of (r, s) \<Rightarrow>
     (r, i\<lparr>i_raw := s, i_rlog := i_rlog i @ [RawRead]\<rparr>))"

definition open_record_gate :: "inner \<Rightarrow> inner" where
  "open_record_gate i = i\<lparr>i_rlog := i_rlog i @ [GateOpened]\<rparr>"

definition stop_record_gate :: "inner \<Rightarrow> inner" where
  "stop_record_gate i = i\<lparr>i_rlog := i_rlog i @ [GateStopped]\<rparr>"

definition take_buffered_raw :: "inner \<Rightarrow> bytes \<times> inner" where
  "take_buffered_raw i = (i_held i, i\<lparr>i_held := [], i_rlog := i_rlog i @ [HeldTaken]\<rparr>)"

section \<open>The stream\<close>

text \<open>\<open>'i\<close> is the type parameter \<^verbatim>\<open>S\<close> of \<^verbatim>\<open>VisionStream<S>\<close>.\<close>

record ('i, 'r) vision_over =
  vs_inner :: 'i
  vs_traffic :: traffic_state
  vs_padder :: padder
  vs_unpadder :: unpadder
  vs_uplink_raw :: bool
  vs_write_pending :: bytes
  vs_read_raw :: bytes
  vs_read_out :: bytes
  vs_header :: response_header
  vs_rng :: 'r

type_synonym 'r vision = "(inner, 'r) vision_over"

definition vision_new :: "'i \<Rightarrow> bytes \<Rightarrow> 'r \<Rightarrow> ('i, 'r) vision_over" where
  "vision_new i uuid r =
     \<lparr>vs_inner = i, vs_traffic = traffic_new, vs_padder = padder_new uuid,
      vs_unpadder = unpadder_new, vs_uplink_raw = False, vs_write_pending = [],
      vs_read_raw = [], vs_read_out = [], vs_header = already_consumed, vs_rng = r\<rparr>"

definition vision_client :: "'i \<Rightarrow> bytes \<Rightarrow> 'r \<Rightarrow> ('i, 'r) vision_over" where
  "vision_client i uuid r = (vision_new i uuid r)\<lparr>vs_header := response_header_new\<rparr>"

section \<open>The write side\<close>

text \<open>
  \<^verbatim>\<open>write_all\<close> under \<^verbatim>\<open>await\<close>: a pending call is made again when the task is woken. \<open>Pending\<close>
  here is a call that never completes: the script ran out.
\<close>

fun write_all_loop :: "wr_answer list \<Rightarrow> bytes \<Rightarrow> inner \<Rightarrow> (io_error + unit) poll \<times> inner" where
  "write_all_loop as [] i = (Ready (Inr ()), i\<lparr>i_answers := as\<rparr>)"
| "write_all_loop [] d i = (Pending, i\<lparr>i_answers := [], i_log := i_log i @ [TlsWrite []]\<rparr>)"
| "write_all_loop (Wait # as) d i = write_all_loop as d (i\<lparr>i_log := i_log i @ [TlsWrite []]\<rparr>)"
| "write_all_loop (Fail e # as) d i =
     (Ready (Inl e), i\<lparr>i_answers := as, i_log := i_log i @ [TlsWrite []]\<rparr>)"
| "write_all_loop (Accept n # as) d i =
     (let i = i\<lparr>i_log := i_log i @ [TlsWrite (take n d)]\<rparr> in
      if n = 0 then (Ready (Inl (IoError WriteZero (str ''write zero''))), i\<lparr>i_answers := as\<rparr>)
      else write_all_loop as (drop n d) i)"

fun flush_loop :: "wr_answer list \<Rightarrow> inner \<Rightarrow> (io_error + unit) poll \<times> inner" where
  "flush_loop [] i = (Pending, i\<lparr>i_answers := [], i_log := i_log i @ [TlsFlush False]\<rparr>)"
| "flush_loop (Wait # as) i = flush_loop as (i\<lparr>i_log := i_log i @ [TlsFlush False]\<rparr>)"
| "flush_loop (Fail e # as) i = (Ready (Inl e), i\<lparr>i_answers := as, i_log := i_log i @ [TlsFlush False]\<rparr>)"
| "flush_loop (Accept n # as) i = (Ready (Inr ()), i\<lparr>i_answers := as, i_log := i_log i @ [TlsFlush True]\<rparr>)"

definition write_first ::
  "'r rng \<Rightarrow> bytes \<Rightarrow> bytes \<Rightarrow> 'r vision \<Rightarrow> (io_error + unit) poll \<times> 'r vision" where
  "write_first rr header payload v =
     (let (frame, v) =
        (if payload = []
         then (let (frame, p, r) = camouflage rr (vs_rng v) (vs_padder v)
               in (frame, v\<lparr>vs_padder := p, vs_rng := r\<rparr>))
         else (let (frame, p, ts, r) = pad rr (vs_rng v) (vs_padder v) payload (vs_traffic v)
               in (frame, v\<lparr>vs_padder := p, vs_traffic := ts, vs_rng := r\<rparr>)))
      in case write_all_loop (i_answers (vs_inner v)) (header @ frame) (vs_inner v) of
           (Ready (Inr _), i) \<Rightarrow>
             (case flush_loop (i_answers i) i of (r, i) \<Rightarrow> (r, v\<lparr>vs_inner := i\<rparr>))
         | (r, i) \<Rightarrow> (r, v\<lparr>vs_inner := i\<rparr>))"

function poll_drain :: "'r vision \<Rightarrow> (io_error + unit) poll \<times> 'r vision" where
  "poll_drain v =
     (if vs_write_pending v \<noteq> [] then
        (case call_write TlsWrite (vs_write_pending v) (vs_inner v) of
           (Ready (Inr n), i) \<Rightarrow>
             if n = 0
             then (Ready (Inl (IoError WriteZero (str ''vision: inner stream accepted no bytes''))),
                   v\<lparr>vs_inner := i\<rparr>)
             else poll_drain (v\<lparr>vs_inner := i, vs_write_pending := drop n (vs_write_pending v)\<rparr>)
         | (Ready (Inl e), i) \<Rightarrow> (Ready (Inl e), v\<lparr>vs_inner := i\<rparr>)
         | (Pending, i) \<Rightarrow> (Pending, v\<lparr>vs_inner := i\<rparr>))
      else (Ready (Inr ()), v))"
  by pat_completeness auto
termination
  by (relation "measure (\<lambda>v. length (vs_write_pending v))") auto

declare poll_drain.simps [simp del]

definition poll_settle :: "'r vision \<Rightarrow> (io_error + unit) poll \<times> 'r vision" where
  "poll_settle v =
     (case poll_drain v of
        (Ready (Inr _), v) \<Rightarrow>
          if wants_direct (vs_padder v) \<and> \<not> vs_uplink_raw v then
            (case call_ctl TlsFlush (vs_inner v) of
               (Ready (Inr _), i) \<Rightarrow> (Ready (Inr ()), v\<lparr>vs_inner := i, vs_uplink_raw := True\<rparr>)
             | (r, i) \<Rightarrow> (r, v\<lparr>vs_inner := i\<rparr>))
          else (Ready (Inr ()), v)
      | (r, v) \<Rightarrow> (r, v))"

definition vision_poll_write ::
  "'r rng \<Rightarrow> bytes \<Rightarrow> 'r vision \<Rightarrow> (io_error + nat) poll \<times> 'r vision" where
  "vision_poll_write rr buf v =
     (case poll_settle v of
        (Pending, v) \<Rightarrow> (Pending, v)
      | (Ready (Inl e), v) \<Rightarrow> (Ready (Inl e), v)
      | (Ready (Inr _), v) \<Rightarrow>
          if padding_done (vs_padder v) then
            let v = v\<lparr>vs_traffic := traffic_filter (vs_traffic v) buf\<rparr> in
            (case call_write (if vs_uplink_raw v then RawWrite else TlsWrite) buf (vs_inner v) of
               (r, i) \<Rightarrow> (r, v\<lparr>vs_inner := i\<rparr>))
          else
            let (p, ts, pending, r) =
                  pad_into rr (vs_rng v) (vs_padder v) buf (vs_traffic v) (vs_write_pending v);
                v = v\<lparr>vs_padder := p, vs_traffic := ts, vs_write_pending := pending, vs_rng := r\<rparr>
            in (case poll_settle v of
                  (Ready (Inl e), v) \<Rightarrow> (Ready (Inl e), v)
                | (_, v) \<Rightarrow> (Ready (Inr (length buf)), v)))"

definition vision_poll_flush :: "'r vision \<Rightarrow> (io_error + unit) poll \<times> 'r vision" where
  "vision_poll_flush v =
     (case poll_settle v of
        (Ready (Inr _), v) \<Rightarrow>
          (case call_ctl (if vs_uplink_raw v then RawFlush else TlsFlush) (vs_inner v) of
             (r, i) \<Rightarrow> (r, v\<lparr>vs_inner := i\<rparr>))
      | (r, v) \<Rightarrow> (r, v))"

definition vision_poll_shutdown :: "'r vision \<Rightarrow> (io_error + unit) poll \<times> 'r vision" where
  "vision_poll_shutdown v =
     (case poll_settle v of
        (Ready (Inr _), v) \<Rightarrow>
          (case call_ctl (if vs_uplink_raw v then RawShutdown else TlsShutdown) (vs_inner v) of
             (r, i) \<Rightarrow> (r, v\<lparr>vs_inner := i\<rparr>))
      | (r, v) \<Rightarrow> (r, v))"

section \<open>The read side\<close>

text \<open>
  What one round does with the plaintext \<open>d\<close> it read: strip the response header, deframe,
  show the decoded bytes to the sniffer, react to the end of padding. \<open>Some e\<close> is an error
  the caller gets. The texts of the errors that occur here do not need tokio's \<^verbatim>\<open>Elapsed\<close>.
\<close>

definition absorb :: "bytes \<Rightarrow> 'r vision \<Rightarrow> io_error option \<times> 'r vision" where
  "absorb d v =
     (let v = v\<lparr>vs_read_raw := vs_read_raw v @ d\<rparr> in
      case feed (vs_header v) (vs_read_raw v) of
        (Inl e, h, b) \<Rightarrow>
          (Some (IoError InvalidData (display [] e)), v\<lparr>vs_header := h, vs_read_raw := b\<rparr>)
      | (Inr False, h, b) \<Rightarrow> (None, v\<lparr>vs_header := h, vs_read_raw := b\<rparr>)
      | (Inr True, h, b) \<Rightarrow>
          let was_done = is_done (vs_unpadder v); was_direct = is_direct (vs_unpadder v) in
          (case unpad (vs_unpadder v) b (vs_read_out v) of
             (res, u, b, out) \<Rightarrow>
               let v = v\<lparr>vs_header := h, vs_unpadder := u, vs_read_raw := b, vs_read_out := out\<rparr> in
               (case res of
                  Inl e \<Rightarrow> (Some (IoError InvalidData (display [] e)), v)
                | Inr _ \<Rightarrow>
                    let v = (if out \<noteq> [] then v\<lparr>vs_traffic := traffic_filter (vs_traffic v) out\<rparr> else v);
                        v = (if \<not> was_done \<and> is_done u \<and> \<not> is_direct u
                             then v\<lparr>vs_inner := stop_record_gate (vs_inner v)\<rparr> else v);
                        v = (if \<not> was_direct \<and> is_direct u
                             then (let (leftover, i) = take_buffered_raw (vs_inner v)
                                   in v\<lparr>vs_inner := i, vs_read_out := vs_read_out v @ leftover\<rparr>)
                             else v)
                    in (None, v))))"

lemma absorb_tls: "absorb d v = (e, v') \<Longrightarrow> i_tls (vs_inner v') = i_tls (vs_inner v)"
  by (auto simp: absorb_def Let_def stop_record_gate_def take_buffered_raw_def
      split: prod.splits sum.splits bool.splits if_splits)

lemma tls_read_size:
  "tls_read cap i = (Ready (Inr d), i') \<Longrightarrow> d \<noteq> [] \<Longrightarrow> script_size (i_tls i') < script_size (i_tls i)"
  by (auto simp: tls_read_def split: prod.splits dest: src_read_size)

function vision_poll_read :: "nat \<Rightarrow> 'r vision \<Rightarrow> rd_result \<times> 'r vision" where
  "vision_poll_read cap v =
     (if vs_read_out v \<noteq> [] then
        let n = min (length (vs_read_out v)) cap in
        (Ready (Inr (take n (vs_read_out v))), v\<lparr>vs_read_out := drop n (vs_read_out v)\<rparr>)
      else if is_direct (vs_unpadder v) then
        (case raw_read cap (vs_inner v) of (r, i) \<Rightarrow> (r, v\<lparr>vs_inner := i\<rparr>))
      else if is_done (vs_unpadder v) \<and> vs_read_raw v = [] then
        (case tls_read cap (vs_inner v) of
           (Ready (Inr d), i) \<Rightarrow>
             (Ready (Inr d), v\<lparr>vs_inner := i, vs_traffic := traffic_filter (vs_traffic v) d\<rparr>)
         | (r, i) \<Rightarrow> (r, v\<lparr>vs_inner := i\<rparr>))
      else
        (case tls_read read_chunk (open_record_gate (vs_inner v)) of
           (Pending, i) \<Rightarrow> (Pending, v\<lparr>vs_inner := i\<rparr>)
         | (Ready (Inl e), i) \<Rightarrow> (Ready (Inl e), v\<lparr>vs_inner := i\<rparr>)
         | (Ready (Inr d), i) \<Rightarrow>
             if d = [] then (Ready (Inr []), v\<lparr>vs_inner := i\<rparr>)
             else
               (case absorb d (v\<lparr>vs_inner := i\<rparr>) of
                  (Some e, v) \<Rightarrow> (Ready (Inl e), v)
                | (None, v) \<Rightarrow> vision_poll_read cap v)))"
  by pat_completeness auto
termination
  by (relation "measure (\<lambda>(cap, v). script_size (i_tls (vs_inner v)))")
    (auto simp: open_record_gate_def dest!: tls_read_size [OF sym] absorb_tls [OF sym])

declare vision_poll_read.simps [simp del]

end
