(* ===== verification/VisionUplink.thy ===== *)
theory VisionUplink
  imports VisionStream
begin

text \<open>
  The write side of \<^verbatim>\<open>VisionStream\<close>: the order of the calls it makes on the inner stream, and
  that what it puts there is what the padder produced for the bytes it took.
\<close>

section \<open>The order of calls on the write side\<close>

fun is_raw :: "wr_call \<Rightarrow> bool" where
  "is_raw (RawWrite d) = True" | "is_raw (RawFlush b) = True" | "is_raw (RawShutdown b) = True"
| "is_raw _ = False"

definition tls_bytes :: "wr_call list \<Rightarrow> bytes" where
  "tls_bytes l = concat (map (\<lambda>c. case c of TlsWrite d \<Rightarrow> d | _ \<Rightarrow> []) l)"

definition raw_bytes :: "wr_call list \<Rightarrow> bytes" where
  "raw_bytes l = concat (map (\<lambda>c. case c of RawWrite d \<Rightarrow> d | _ \<Rightarrow> []) l)"

text \<open>No raw call before the switch; nothing but raw calls behind the flush that completes it.\<close>

definition calls_ordered :: "bool \<Rightarrow> wr_call list \<Rightarrow> bool" where
  "calls_ordered switched l \<longleftrightarrow>
     (if switched
      then \<exists>a b. l = a @ TlsFlush True # b \<and> (\<forall>c \<in> set a. \<not> is_raw c) \<and> (\<forall>c \<in> set b. is_raw c)
      else \<forall>c \<in> set l. \<not> is_raw c)"

lemma bytes_simps [simp]:
  "tls_bytes [] = []" "tls_bytes (l @ [c]) = tls_bytes l @ (case c of TlsWrite d \<Rightarrow> d | _ \<Rightarrow> [])"
  "raw_bytes [] = []" "raw_bytes (l @ [c]) = raw_bytes l @ (case c of RawWrite d \<Rightarrow> d | _ \<Rightarrow> [])"
  by (simp_all add: tls_bytes_def raw_bytes_def)

lemma no_raw_bytes: "\<forall>c \<in> set l. \<not> is_raw c \<Longrightarrow> raw_bytes l = []"
  by (induction l rule: rev_induct) (auto split: wr_call.splits)

lemma calls_ordered_snoc:
  "calls_ordered switched l \<Longrightarrow> is_raw c = switched \<Longrightarrow> calls_ordered switched (l @ [c])"
  unfolding calls_ordered_def by (cases switched) fastforce+

lemma calls_ordered_switch:
  "calls_ordered False l \<Longrightarrow> calls_ordered True (l @ [TlsFlush True])"
  unfolding calls_ordered_def if_True if_False by (intro exI [of _ l] exI [of _ "[]"]) simp

text \<open>The bytes a write reported as written.\<close>

fun taken :: "bytes \<Rightarrow> (io_error + nat) poll \<Rightarrow> bytes" where
  "taken buf (Ready (Inr n)) = take n buf"
| "taken buf _ = []"

lemma call_write_taken:
  assumes "call_write mk d i = (r, i')"
  shows "i_log i' = i_log i @ [mk (taken d r)]"
  using assms by (auto simp: call_write_def min_def split: list.splits wr_answer.splits if_splits)

lemma call_write_log:
  assumes "call_write mk d i = (r, i')"
  shows "\<exists>n. i_log i' = i_log i @ [mk (take n d)] \<and>
    (case r of Ready (Inr k) \<Rightarrow> take n d = take k d \<and> k \<le> length d | _ \<Rightarrow> n = 0)"
  using assms
  by (intro exI [of _ "case r of Ready (Inr k) \<Rightarrow> k | _ \<Rightarrow> 0"])
    (auto simp: call_write_def min_def split: list.splits wr_answer.splits if_splits)

lemma call_ctl_log:
  assumes "call_ctl mk i = (r, i')"
  shows "i_log i' = i_log i @ [mk (r = Ready (Inr ()))]"
  using assms by (auto simp: call_ctl_def split: list.splits wr_answer.splits)

lemma call_rest:
  "call_write mk d i = (r, i') \<Longrightarrow> i_tls i' = i_tls i \<and> i_held i' = i_held i \<and> i_raw i' = i_raw i \<and> i_rlog i' = i_rlog i"
  "call_ctl mk2 i = (r2, i') \<Longrightarrow> i_tls i' = i_tls i \<and> i_held i' = i_held i \<and> i_raw i' = i_raw i \<and> i_rlog i' = i_rlog i"
  by (auto simp: call_write_def call_ctl_def split: list.splits wr_answer.splits)

section \<open>The uplink\<close>

text \<open>
  \<open>wire\<close> is what went through TLS behind the header, with what is still pending; \<open>s\<close> the
  part of the bytes sent that it carries, the rest went around TLS.
\<close>

definition up_inv :: "bytes \<Rightarrow> bytes \<Rightarrow> bytes \<Rightarrow> 'r vision \<Rightarrow> bool" where
  "up_inv uuid header sent v \<longleftrightarrow>
     (let log = i_log (vs_inner v) in
      calls_ordered (vs_uplink_raw v) log \<and>
      (vs_uplink_raw v \<longrightarrow> vs_write_pending v = [] \<and> pd_direct (vs_padder v)) \<and>
      (\<exists>wire s. tls_bytes log @ vs_write_pending v = header @ wire \<and> s @ raw_bytes log = sent \<and>
         uplink_inv uuid (vs_padder v, vs_traffic v, wire, s, vs_rng v)))"

lemma up_invE:
  assumes "up_inv uuid header sent v"
  obtains wire s where "calls_ordered (vs_uplink_raw v) (i_log (vs_inner v))"
    "vs_uplink_raw v \<longrightarrow> pd_direct (vs_padder v)"
    "tls_bytes (i_log (vs_inner v)) @ vs_write_pending v = header @ wire"
    "s @ raw_bytes (i_log (vs_inner v)) = sent"
    "uplink_inv uuid (vs_padder v, vs_traffic v, wire, s, vs_rng v)"
  using assms unfolding up_inv_def Let_def by blast

lemma drain_inv:
  "poll_drain v = (r, v') \<Longrightarrow> up_inv uuid header sent v \<Longrightarrow>
     up_inv uuid header sent v' \<and> (r = Ready (Inr ()) \<longrightarrow> vs_write_pending v' = [])"
proof (induction v arbitrary: r v' rule: poll_drain.induct)
  case (1 v)
  show ?case
  proof (cases "vs_write_pending v = []")
    case True
    with 1 show ?thesis by (simp add: poll_drain.simps)
  next
    case False
    obtain p i where c: "call_write TlsWrite (vs_write_pending v) (vs_inner v) = (p, i)" by fastforce
    from call_write_log [OF c] obtain n where n: "i_log i = i_log (vs_inner v) @ [TlsWrite (take n (vs_write_pending v))]"
      "case p of Ready (Inr k) \<Rightarrow> take n (vs_write_pending v) = take k (vs_write_pending v) \<and> k \<le> length (vs_write_pending v)
        | _ \<Rightarrow> n = 0" by blast
    have raw: "\<not> vs_uplink_raw v" using False 1(3) by (auto simp: up_inv_def Let_def)
    have keep: "up_inv uuid header sent (v\<lparr>vs_inner := i, vs_write_pending := drop k (vs_write_pending v)\<rparr>)"
      if "take n (vs_write_pending v) = take k (vs_write_pending v)" for k
      using 1(3) raw that by (auto simp: up_inv_def Let_def n(1) calls_ordered_snoc)
    show ?thesis
    proof (cases p)
      case Pending
      with n False 1(2) keep [of 0] show ?thesis by (auto simp: poll_drain.simps [of v] c)
    next
      case (Ready q)
      show ?thesis
      proof (cases q)
        case (Inl e)
        with Ready n False 1(2) keep [of 0] show ?thesis by (auto simp: poll_drain.simps [of v] c)
      next
        case (Inr k)
        with Ready n have k: "take n (vs_write_pending v) = take k (vs_write_pending v)" by simp
        show ?thesis
        proof (cases "k = 0")
          case True
          with Ready Inr n False 1(2) keep [OF k] show ?thesis by (auto simp: poll_drain.simps [of v] c)
        next
          case nz: False
          then have "poll_drain (v\<lparr>vs_inner := i, vs_write_pending := drop k (vs_write_pending v)\<rparr>) = (r, v')"
            using 1(2) Ready Inr False by (simp add: poll_drain.simps [of v] c)
          with 1(1) [OF False c [symmetric] Ready Inr nz this keep [OF k]] show ?thesis by simp
        qed
      qed
    qed
  qed
qed

lemma settle_inv:
  assumes "poll_settle v = (r, v')" and "up_inv uuid header sent v"
  shows "up_inv uuid header sent v' \<and> (r = Ready (Inr ()) \<longrightarrow> vs_write_pending v' = [] \<and>
    (wants_direct (vs_padder v') \<longrightarrow> vs_uplink_raw v'))"
proof -
  obtain p v1 where d: "poll_drain v = (p, v1)" by fastforce
  note inv = drain_inv [OF d assms(2)]
  show ?thesis
  proof (cases "p = Ready (Inr ()) \<and> wants_direct (vs_padder v1) \<and> \<not> vs_uplink_raw v1")
    case True
    obtain q i where c: "call_ctl TlsFlush (vs_inner v1) = (q, i)" by fastforce
    note l = call_ctl_log [OF c]
    have o: "calls_ordered False (i_log (vs_inner v1))" using inv True by (simp add: up_inv_def Let_def)
    show ?thesis
    proof (cases "q = Ready (Inr ())")
      case ok: True
      then have "v' = v1\<lparr>vs_inner := i, vs_uplink_raw := True\<rparr>" "r = Ready (Inr ())"
        using assms(1) True by (simp_all add: poll_settle_def d c)
      moreover have "calls_ordered True (i_log i)"
        using calls_ordered_switch [OF o] by (simp add: l ok)
      ultimately show ?thesis
        using inv True by (auto simp: up_inv_def Let_def l wants_direct_def)
    next
      case False
      then have "v' = v1\<lparr>vs_inner := i\<rparr>" "r \<noteq> Ready (Inr ())"
        using assms(1) True by (auto simp: poll_settle_def d c split: poll.splits sum.splits)
      moreover have "calls_ordered False (i_log i)"
        using calls_ordered_snoc [OF o, of "TlsFlush False"] False by (simp add: l)
      ultimately show ?thesis
        using inv True by (auto simp: up_inv_def Let_def l)
    qed
  next
    case False
    then have "v' = v1 \<and> r = p"
      using assms(1) by (auto simp: poll_settle_def d split: poll.splits sum.splits if_splits)
    with inv False show ?thesis by auto
  qed
qed

lemma ctl_inv:
  assumes "call_ctl mk (vs_inner v) = (r, i)" and "up_inv uuid header sent v"
    and "\<And>b. is_raw (mk b) = vs_uplink_raw v"
    and "\<And>b d. mk b \<noteq> TlsWrite d \<and> mk b \<noteq> RawWrite d"
  shows "up_inv uuid header sent (v\<lparr>vs_inner := i\<rparr>)"
proof -
  note l = call_ctl_log [OF assms(1)]
  have "(case mk b of TlsWrite d \<Rightarrow> d | _ \<Rightarrow> []) = []" "(case mk b of RawWrite d \<Rightarrow> d | _ \<Rightarrow> []) = []" for b
    using assms(4) [of b] by (auto split: wr_call.splits)
  with assms(2,3) show ?thesis
    by (auto simp: up_inv_def Let_def l calls_ordered_snoc)
qed

lemma flush_inv: "vision_poll_flush v = (r, v') \<Longrightarrow> up_inv uuid header sent v \<Longrightarrow> up_inv uuid header sent v'"
  by (auto simp: vision_poll_flush_def split: prod.splits poll.splits sum.splits
      dest!: settle_inv intro!: ctl_inv split: if_splits)

lemma shutdown_inv: "vision_poll_shutdown v = (r, v') \<Longrightarrow> up_inv uuid header sent v \<Longrightarrow> up_inv uuid header sent v'"
  by (auto simp: vision_poll_shutdown_def split: prod.splits poll.splits sum.splits
      dest!: settle_inv intro!: ctl_inv split: if_splits)

lemma uplink_sniff:
  "uplink_inv uuid (p, ts, wire, s, r) \<Longrightarrow> uplink_inv uuid (p, traffic_filter ts b, wire, s, r)"
  using uplink_step_inv [of uuid "(p, ts, wire, s, r)" _ "Sniff b"] by simp

lemma uplink_plain:
  assumes "uplink_inv uuid (p, ts, wire, s, r)" and "\<not> pd_padding p"
  shows "uplink_inv uuid (p, ts, wire @ d, s @ d, r)"
proof -
  have "up_done (peer_of p)" using assms(2) by (simp add: peer_of_def)
  with assms show ?thesis by (auto simp: uplink_inv_def unpad_done split: if_splits)
qed

lemma write_inv:
  assumes "vision_poll_write rr buf v = (r, v')" and "up_inv uuid header sent v"
  shows "\<exists>t. up_inv uuid header (sent @ t) v' \<and> ((\<forall>e. r \<noteq> Ready (Inl e)) \<longrightarrow> t = taken buf r)"
proof -
  obtain p v1 where s: "poll_settle v = (p, v1)" by fastforce
  note inv = settle_inv [OF s assms(2)]
  show ?thesis
  proof (cases "p = Ready (Inr ())")
    case False
    then have "v' = v1" "(\<forall>e. r \<noteq> Ready (Inl e)) \<longrightarrow> taken buf r = []"
      using assms(1) by (auto simp: vision_poll_write_def s split: poll.splits sum.splits)
    with inv show ?thesis by (intro exI [of _ "[]"]) auto
  next
    case True
    note inv1 = inv [THEN conjunct1]
    from inv [THEN conjunct2] True
    have pend: "vs_write_pending v1 = []" "pd_direct (vs_padder v1) \<longrightarrow> vs_uplink_raw v1"
      by (simp_all add: wants_direct_def)
    from inv1 obtain wire t where w: "calls_ordered (vs_uplink_raw v1) (i_log (vs_inner v1))"
      "vs_uplink_raw v1 \<longrightarrow> pd_direct (vs_padder v1)"
      "tls_bytes (i_log (vs_inner v1)) @ vs_write_pending v1 = header @ wire"
      "t @ raw_bytes (i_log (vs_inner v1)) = sent"
      "uplink_inv uuid (vs_padder v1, vs_traffic v1, wire, t, vs_rng v1)"
      by (rule up_invE)
    have tls: "tls_bytes (i_log (vs_inner v1)) = header @ wire" using w(3) pend(1) by simp
    show ?thesis
    proof (cases "padding_done (vs_padder v1)")
      case over: True
      obtain q i where c: "call_write (if vs_uplink_raw v1 then RawWrite else TlsWrite) buf (vs_inner v1) = (q, i)"
        by fastforce
      have r: "r = q" "v' = v1\<lparr>vs_traffic := traffic_filter (vs_traffic v1) buf, vs_inner := i\<rparr>"
        using assms(1) over True by (simp_all add: vision_poll_write_def s c)
      note n = call_write_taken [OF c]
      have o: "calls_ordered (vs_uplink_raw v1) (i_log i)"
        using calls_ordered_snoc [OF w(1)] n by simp
      note u = uplink_sniff [OF w(5), of buf]
      have "\<not> pd_padding (vs_padder v1)" using over by (simp add: padding_done_def)
      note plain = uplink_plain [OF u this, of "taken buf q"]
      show ?thesis
      proof (cases "vs_uplink_raw v1")
        case True
        then show ?thesis
          using o w(2,4) tls pend u n by (intro exI [of _ "taken buf r"]) (auto simp: up_inv_def Let_def r)
      next
        case False
        have "raw_bytes (i_log (vs_inner v1)) = []"
          using w(1) False by (simp add: calls_ordered_def no_raw_bytes)
        with False show ?thesis
          using o w(2,4) tls pend plain n by (intro exI [of _ "taken buf r"]) (auto simp: up_inv_def Let_def r)
      qed
    next
      case False
      obtain p2 ts2 pend r2 where pd: "pad_into rr (vs_rng v1) (vs_padder v1) buf (vs_traffic v1) [] = (p2, ts2, pend, r2)"
        by (metis prod_cases4)
      have nd: "\<not> vs_uplink_raw v1" "pd_padding (vs_padder v1)"
        using False w(2,5) by (auto simp: padding_done_def uplink_inv_def)
      define v2 where "v2 = v1\<lparr>vs_padder := p2, vs_traffic := ts2, vs_write_pending := pend, vs_rng := r2\<rparr>"
      have "raw_bytes (i_log (vs_inner v1)) = []"
        using w(1) nd by (simp add: calls_ordered_def no_raw_bytes)
      moreover have "pad_into rr (vs_rng v1) (vs_padder v1) buf (vs_traffic v1) wire = (p2, ts2, wire @ pend, r2)"
        using pad_into_prefix [of rr "vs_rng v1" "vs_padder v1" buf "vs_traffic v1" wire "[]"] pd by simp
      note uplink_send_inv [OF w(5) this]
      ultimately have "up_inv uuid header (sent @ buf) v2"
        using w(1,4) tls nd by (auto simp: up_inv_def Let_def v2_def)
      moreover obtain q v3 where s2: "poll_settle v2 = (q, v3)" by fastforce
      moreover have "((\<forall>e. r \<noteq> Ready (Inl e)) \<longrightarrow> r = Ready (Inr (length buf))) \<and> v' = v3"
        using assms(1) False True s2 pend(1)
        by (auto simp: vision_poll_write_def s pd v2_def split: poll.splits sum.splits)
      ultimately show ?thesis
        using settle_inv [OF s2, of uuid header "sent @ buf"] by (intro exI [of _ buf]) auto
    qed
  qed
qed

lemma up_inv_read:
  assumes "up_inv uuid header sent v" and "i_log (vs_inner v') = i_log (vs_inner v)"
    and "vs_padder v' = vs_padder v" and "vs_uplink_raw v' = vs_uplink_raw v"
    and "vs_write_pending v' = vs_write_pending v" and "vs_rng v' = vs_rng v"
    and "vs_traffic v' \<in> insert (vs_traffic v) (range (traffic_filter (vs_traffic v)))"
  shows "up_inv uuid header sent v'"
  using assms unfolding up_inv_def Let_def by (auto simp: uplink_sniff intro: exI)

lemma absorb_up:
  assumes "absorb d v = (e, v')" and "up_inv uuid header sent v" shows "up_inv uuid header sent v'"
  using assms(1) by (intro up_inv_read [OF assms(2)])
    (auto simp: absorb_def Let_def stop_record_gate_def take_buffered_raw_def
      split: prod.splits sum.splits bool.splits if_splits)

lemma read_up:
  "vision_poll_read cap v = (r, v') \<Longrightarrow> up_inv uuid header sent v \<Longrightarrow> up_inv uuid header sent v'"
proof (induction cap v arbitrary: r v' rule: vision_poll_read.induct)
  case (1 cap v)
  consider (out) "vs_read_out v \<noteq> []" | (dir) "vs_read_out v = []" "is_direct (vs_unpadder v)"
    | (plain) "vs_read_out v = []" "\<not> is_direct (vs_unpadder v)" "is_done (vs_unpadder v) \<and> vs_read_raw v = []"
    | (pad) "vs_read_out v = []" "\<not> is_direct (vs_unpadder v)" "\<not> (is_done (vs_unpadder v) \<and> vs_read_raw v = [])"
    by blast
  then show ?case
  proof cases
    case pad
    obtain q i where q: "tls_read read_chunk (open_record_gate (vs_inner v)) = (q, i)" by fastforce
    then have il: "i_log i = i_log (vs_inner v)"
      by (auto simp: tls_read_def open_record_gate_def split: prod.splits)
    from 1(3) have up: "up_inv uuid header sent (v\<lparr>vs_inner := i\<rparr>)"
      by (rule up_inv_read) (simp_all add: il)
    show ?thesis
    proof (cases "\<exists>d. q = Ready (Inr d) \<and> d \<noteq> [] \<and> fst (absorb d (v\<lparr>vs_inner := i\<rparr>)) = None")
      case True
      then obtain d v1 where d: "q = Ready (Inr d)" "d \<noteq> []" "absorb d (v\<lparr>vs_inner := i\<rparr>) = (None, v1)"
        by (metis prod.collapse)
      then have "vision_poll_read cap v1 = (r, v')"
        using 1(2) pad by (simp add: vision_poll_read.simps [of cap v] q)
      from 1(1) [OF _ pad(2,3) q [symmetric] d(1) refl d(2) d(3) [symmetric] refl this absorb_up [OF d(3) up]] pad(1)
      show ?thesis by simp
    next
      case False
      then have "v' = v\<lparr>vs_inner := i\<rparr> \<or> (\<exists>d e. absorb d (v\<lparr>vs_inner := i\<rparr>) = (Some e, v'))"
        using 1(2) pad by (auto simp: vision_poll_read.simps [of cap v] q
            split: poll.splits sum.splits if_splits prod.splits option.splits)
      then show ?thesis using up absorb_up [OF _ up] by auto
    qed
  qed (use 1(2,3) in \<open>auto simp: vision_poll_read.simps [of cap v] raw_read_def tls_read_def Let_def
        split: prod.splits poll.splits sum.splits intro: up_inv_read [OF 1(3)]\<close>)
qed

lemma write_all_log:
  "write_all_loop as d i = (Ready (Inr ()), i') \<Longrightarrow> calls_ordered False (i_log i) \<Longrightarrow>
     tls_bytes (i_log i') = tls_bytes (i_log i) @ d \<and> calls_ordered False (i_log i')"
  by (induction as d i rule: write_all_loop.induct)
    (auto simp: Let_def calls_ordered_snoc split: if_splits)

lemma flush_log:
  "flush_loop as i = (r, i') \<Longrightarrow> calls_ordered False (i_log i) \<Longrightarrow>
     tls_bytes (i_log i') = tls_bytes (i_log i) \<and> calls_ordered False (i_log i')"
  by (induction as i rule: flush_loop.induct) (auto simp: calls_ordered_snoc)

lemma loops_rest:
  "write_all_loop as d i = (q, i') \<Longrightarrow> i_tls i' = i_tls i \<and> i_held i' = i_held i \<and> i_raw i' = i_raw i \<and> i_rlog i' = i_rlog i"
  "flush_loop as i = (q, i') \<Longrightarrow> i_tls i' = i_tls i \<and> i_held i' = i_held i \<and> i_raw i' = i_raw i \<and> i_rlog i' = i_rlog i"
   apply (induction as d i rule: write_all_loop.induct; auto simp: Let_def split: if_splits)
  apply (induction as i rule: flush_loop.induct; auto)
  done

lemma write_first_up:
  assumes "write_first rr header payload (vision_client i uuid r) = (Ready (Inr ()), v)"
    and "i_log i = []" and "length uuid = 16"
  shows "up_inv uuid header payload v"
proof -
  let ?v = "vision_client i uuid r"
  define s where "s = (if payload = [] then uplink_start rr r uuid True
    else uplink_step rr (uplink_start rr r uuid False) (Send payload))"
  obtain p ts wire sent r' where s': "s = (p, ts, wire, sent, r')" by (metis prod_cases5)
  have inv: "uplink_inv uuid (p, ts, wire, sent, r')"
    using uplink_start_inv [OF assms(3)] uplink_step_inv s' by (metis s_def)
  have sent: "sent = payload"
    using s' by (auto simp: s_def uplink_start_def split: prod.splits if_splits)
  have "(if payload = []
         then (let (frame, p, r) = camouflage rr (vs_rng ?v) (vs_padder ?v)
               in (frame, ?v\<lparr>vs_padder := p, vs_rng := r\<rparr>))
         else (let (frame, p, ts, r) = pad rr (vs_rng ?v) (vs_padder ?v) payload (vs_traffic ?v)
               in (frame, ?v\<lparr>vs_padder := p, vs_traffic := ts, vs_rng := r\<rparr>)))
      = (wire, ?v\<lparr>vs_padder := p, vs_traffic := ts, vs_rng := r'\<rparr>)"
    using s' by (auto simp: s_def uplink_start_def pad_def vision_client_def vision_new_def
        split: prod.splits if_splits)
  then have w: "write_first rr header payload ?v =
     (let v = ?v\<lparr>vs_padder := p, vs_traffic := ts, vs_rng := r'\<rparr> in
      case write_all_loop (i_answers (vs_inner v)) (header @ wire) (vs_inner v) of
           (Ready (Inr _), i) \<Rightarrow> (case flush_loop (i_answers i) i of (r, i) \<Rightarrow> (r, v\<lparr>vs_inner := i\<rparr>))
         | (r, i) \<Rightarrow> (r, v\<lparr>vs_inner := i\<rparr>))"
    unfolding write_first_def by (simp only: Let_def prod.case)
  obtain q i1 where q: "write_all_loop (i_answers i) (header @ wire) i = (q, i1)" by fastforce
  have q': "q = Ready (Inr ())"
    using assms(1) w q by (auto simp: Let_def vision_client_def vision_new_def split: poll.splits sum.splits)
  obtain q2 i2 where f: "flush_loop (i_answers i1) i1 = (q2, i2)" by fastforce
  have v: "v = ?v\<lparr>vs_padder := p, vs_traffic := ts, vs_rng := r', vs_inner := i2\<rparr>"
    using assms(1) w q q' f by (auto simp: Let_def vision_client_def vision_new_def)
  have "calls_ordered False (i_log i)" by (simp add: assms(2) calls_ordered_def)
  from write_all_log [OF q [unfolded q'] this] flush_log [OF f] assms(2)
  have l: "tls_bytes (i_log i2) = header @ wire" "calls_ordered False (i_log i2)" by simp_all
  then have "raw_bytes (i_log i2) = []" by (simp add: calls_ordered_def no_raw_bytes)
  with l inv sent show ?thesis
    by (auto simp: up_inv_def v vision_client_def vision_new_def Let_def)
qed
end
