(* ===== verification/VisionDownlink.thy ===== *)
theory VisionDownlink
  imports VisionUplink
begin

text \<open>
  The read side of \<^verbatim>\<open>VisionStream\<close>: what has been delivered is determined by the plaintext
  taken from TLS, and the order of the calls on the record gate, TLS and the socket.
\<close>

section \<open>The downlink\<close>

text \<open>
  \<open>P\<close> is the plaintext taken from TLS so far. Before the response header is complete it waits
  in the buffer; behind it, \<open>s\<close> is what the rest deframes to. After the switch the bytes the
  gate held and those of the socket follow.
\<close>

definition down_at :: "bytes \<Rightarrow> bytes \<Rightarrow> bytes \<Rightarrow> 'r vision \<Rightarrow> bytes \<Rightarrow> bool" where
  "down_at P held raw v out \<longleftrightarrow>
     (let i = vs_inner v in
      if \<not> rh_done (vs_header v) then
        feed response_header_new P = (Inr False, response_header_new, P) \<and> vs_read_raw v = P \<and>
        out = [] \<and> vs_read_out v = [] \<and> vs_unpadder v = unpadder_new \<and> i_held i = held \<and>
        content (i_raw i) = raw
      else \<exists>X s. feed response_header_new P = (Inr True, already_consumed, X) \<and>
        unpad unpadder_new X [] = (Inr (), vs_unpadder v, vs_read_raw v, s) \<and>
        (if is_direct (vs_unpadder v)
         then out @ vs_read_out v @ content (i_raw i) = s @ held @ raw
         else out @ vs_read_out v = s \<and> i_held i = held \<and> content (i_raw i) = raw))"

lemma down_at_cong:
  assumes "down_at P held raw v out" and "vs_header v' = vs_header v"
    and "vs_unpadder v' = vs_unpadder v" and "vs_read_raw v' = vs_read_raw v"
    and "vs_read_out v' = vs_read_out v" and "i_held (vs_inner v') = i_held (vs_inner v)"
    and "i_raw (vs_inner v') = i_raw (vs_inner v)"
  shows "down_at P held raw v' out"
  using assms(1) unfolding down_at_def Let_def assms(2-7) .

lemma header_eq: "h = (if rh_done h then already_consumed else response_header_new)"
  by (cases h) (simp add: already_consumed_def response_header_new_def)

lemma feed_new_done: "feed response_header_new P = (Inr b, h, X) \<Longrightarrow> b \<longleftrightarrow> h = already_consumed"
  by (auto simp: feed_def response_header_new_def already_consumed_def Let_def split: if_splits)

lemma absorb_down:
  assumes "down_at P held raw v out" and "vs_read_out v = []" and "\<not> is_direct (vs_unpadder v)"
    and "absorb d v = (None, v')"
  shows "down_at (P @ d) held raw v' out"
proof -
  obtain q h b where f: "feed (vs_header v) (vs_read_raw v @ d) = (q, h, b)" by (metis prod_cases3)
  show ?thesis
  proof (cases "q = Inr True")
    case False
    then have "q = Inr False" "v' = v\<lparr>vs_header := h, vs_read_raw := b\<rparr>"
      using assms(4) f by (auto simp: absorb_def Let_def split: sum.splits bool.splits prod.splits)
    moreover have "\<not> rh_done (vs_header v)" using f False by (auto simp: feed_done)
    moreover from this have "vs_header v = response_header_new"
      using header_eq [of "vs_header v"] by simp
    ultimately show ?thesis
      using assms(1) f feed_append [OF f] by (auto simp: down_at_def Let_def response_header_new_def)
  next
    case True
    obtain res u b2 o2 where u: "unpad (vs_unpadder v) b [] = (res, u, b2, o2)" by (metis prod_cases4)
    have res: "res = Inr ()"
      using assms(2,4) f True u by (auto simp: absorb_def Let_def split: sum.splits)
    have v': "vs_header v' = h" "vs_unpadder v' = u" "vs_read_raw v' = b2"
      "content (i_raw (vs_inner v')) = content (i_raw (vs_inner v))"
      "\<not> is_direct u \<Longrightarrow> vs_read_out v' = o2 \<and> i_held (vs_inner v') = i_held (vs_inner v)"
      "is_direct u \<Longrightarrow> vs_read_out v' = o2 @ i_held (vs_inner v)"
      using assms(2,3,4) f True u res
      by (auto simp: absorb_def Let_def stop_record_gate_def take_buffered_raw_def split: if_splits)
    have "\<exists>X s. feed response_header_new (P @ d) = (Inr True, already_consumed, X) \<and>
        unpad unpadder_new X [] = (Inr (), u, b2, s) \<and> out @ o2 = s \<and> h = already_consumed \<and>
        i_held (vs_inner v) = held \<and> content (i_raw (vs_inner v)) = raw"
    proof (cases "rh_done (vs_header v)")
      case False
      then have "vs_header v = response_header_new" using header_eq [of "vs_header v"] by simp
      with assms(1) False f True u res feed_new_done [of "P @ d" True h b] show ?thesis
        by (auto simp: down_at_def Let_def)
    next
      case done2: True
      then obtain X s where X: "feed response_header_new P = (Inr True, already_consumed, X)"
        "unpad unpadder_new X [] = (Inr (), vs_unpadder v, vs_read_raw v, s)" "out = s"
        "i_held (vs_inner v) = held" "content (i_raw (vs_inner v)) = raw"
        using assms(1,2,3) by (auto simp: down_at_def Let_def)
      have "h = already_consumed" "b = vs_read_raw v @ d"
        using f done2 header_eq [of "vs_header v"] by (auto simp: feed_done)
      moreover have "unpad unpadder_new (X @ d) [] = (Inr (), u, b2, s @ o2)"
        using unpad_append [OF X(2), of d] unpad_acc [OF u, of s] calculation(2) res by simp
      moreover have "feed response_header_new (P @ d) = (Inr True, already_consumed, X @ d)"
        using feed_append [OF X(1), of d] by simp
      ultimately show ?thesis using X by blast
    qed
    with v' show ?thesis
      by (cases "is_direct u") (auto simp: down_at_def Let_def already_consumed_def)
  qed
qed

text \<open>
  The plaintext the logged reads of TLS gave, and whether a plaintext downlink contains the
  switch. \<open>switch_point\<close>: the held bytes were taken directly behind the read of TLS that
  completed the frame with the switch.
\<close>

fun tls_got :: "rd_call list \<Rightarrow> bytes" where
  "tls_got [] = []"
| "tls_got (TlsRead d # l) = d @ tls_got l"
| "tls_got (_ # l) = tls_got l"

lemma tls_got_append [simp]: "tls_got (a @ b) = tls_got a @ tls_got b"
  by (induction a rule: tls_got.induct) auto

definition turns_direct :: "bytes \<Rightarrow> bool" where
  "turns_direct P \<longleftrightarrow>
     (case feed response_header_new P of
        (Inr True, h, X) \<Rightarrow> (case unpad unpadder_new X [] of (res, u, b, s) \<Rightarrow> is_direct u)
      | _ \<Rightarrow> False)"

definition switch_point :: "rd_call list \<Rightarrow> bool" where
  "switch_point l \<longleftrightarrow>
     (\<exists>a d b. l = a @ TlsRead d # HeldTaken # b \<and> \<not> turns_direct (tls_got a) \<and> turns_direct (tls_got a @ d))"

lemma switch_point_append: "switch_point l \<Longrightarrow> switch_point (l @ c)"
  unfolding switch_point_def by fastforce

lemma down_at_direct: "down_at P held raw v out \<Longrightarrow> turns_direct P \<longleftrightarrow> is_direct (vs_unpadder v)"
  by (auto simp: down_at_def turns_direct_def Let_def unpadder_new_def is_direct_def
      split: if_splits)

lemma absorb_log:
  assumes "absorb d v = (None, v')" and "\<not> is_direct (vs_unpadder v)"
  shows "i_rlog (vs_inner v') = i_rlog (vs_inner v) @ [HeldTaken] \<or>
    \<not> is_direct (vs_unpadder v') \<and> tls_got (i_rlog (vs_inner v')) = tls_got (i_rlog (vs_inner v))"
  using assms by (auto simp: absorb_def Let_def stop_record_gate_def take_buffered_raw_def
      split: prod.splits sum.splits bool.splits if_splits)

lemma absorb_switch:
  assumes "down_at P held raw v out" and "vs_read_out v = []" and "\<not> is_direct (vs_unpadder v)"
    and "absorb d v = (None, v')" and "i_rlog (vs_inner v) = l @ [TlsRead d]" and "tls_got l = P"
  shows "is_direct (vs_unpadder v') \<longrightarrow> switch_point (i_rlog (vs_inner v'))"
    and "tls_got (i_rlog (vs_inner v')) = P @ d"
proof -
  have "turns_direct (P @ d) \<longleftrightarrow> is_direct (vs_unpadder v')" "\<not> turns_direct P"
    using down_at_direct [OF absorb_down [OF assms(1-4)]] down_at_direct [OF assms(1)] assms(3) by simp_all
  then show "is_direct (vs_unpadder v') \<longrightarrow> switch_point (i_rlog (vs_inner v'))"
    using absorb_log [OF assms(4,3)] assms(5,6) unfolding switch_point_def by fastforce
  show "tls_got (i_rlog (vs_inner v')) = P @ d"
    using absorb_log [OF assms(4,3)] assms(5,6) by auto
qed

definition down_inv :: "bytes \<Rightarrow> bytes \<Rightarrow> bytes \<Rightarrow> bytes \<Rightarrow> 'r vision \<Rightarrow> bool" where
  "down_inv plain held raw out v \<longleftrightarrow>
     (let P = tls_got (i_rlog (vs_inner v)) in
      P @ content (i_tls (vs_inner v)) = plain \<and> down_at P held raw v out \<and>
      (is_direct (vs_unpadder v) \<longrightarrow> switch_point (i_rlog (vs_inner v))))"

lemma read_down:
  "vision_poll_read cap v = (r, v') \<Longrightarrow> down_inv plain held raw out v \<Longrightarrow>
     \<forall>e. r \<noteq> Ready (Inl e) \<Longrightarrow> down_inv plain held raw (out @ got r) v'"
proof (induction cap v arbitrary: r v' rule: vision_poll_read.induct)
  case (1 cap v)
  let ?P = "tls_got (i_rlog (vs_inner v))"
  have P: "?P @ content (i_tls (vs_inner v)) = plain" "down_at ?P held raw v out"
    and sw: "is_direct (vs_unpadder v) \<Longrightarrow> switch_point (i_rlog (vs_inner v))"
    using 1(3) by (auto simp: down_inv_def Let_def)
  consider (out) "vs_read_out v \<noteq> []" | (dir) "vs_read_out v = []" "is_direct (vs_unpadder v)"
    | (plain) "vs_read_out v = []" "\<not> is_direct (vs_unpadder v)" "is_done (vs_unpadder v) \<and> vs_read_raw v = []"
    | (pad) "vs_read_out v = []" "\<not> is_direct (vs_unpadder v)" "\<not> (is_done (vs_unpadder v) \<and> vs_read_raw v = [])"
    by blast
  then show ?case
  proof cases
    case out
    then have "rh_done (vs_header v)" using P(2) by (auto simp: down_at_def Let_def split: if_splits)
    then show ?thesis
      using out 1(2) P sw
      by (auto simp: down_inv_def vision_poll_read.simps [of cap v] down_at_def Let_def split: if_splits)
  next
    case dir
    obtain s where s: "src_read cap (i_raw (vs_inner v)) = (r, s)"
      "v' = v\<lparr>vs_inner := (vs_inner v)\<lparr>i_raw := s, i_rlog := i_rlog (vs_inner v) @ [RawRead]\<rparr>\<rparr>"
      using dir 1(2) by (auto simp: vision_poll_read.simps [of cap v] raw_read_def split: prod.splits)
    have "rh_done (vs_header v)"
      using P(2) dir by (auto simp: down_at_def Let_def unpadder_new_def is_direct_def split: if_splits)
    with P src_read_content [OF s(1)] dir sw show ?thesis
      by (auto simp: down_inv_def down_at_def Let_def s(2) switch_point_append)
  next
    case plain
    obtain q s where s: "src_read cap (i_tls (vs_inner v)) = (q, s)" by fastforce
    have r: "r = q" using plain 1(2)
      by (auto simp: vision_poll_read.simps [of cap v] tls_read_def s split: poll.splits sum.splits)
    have v': "vs_header v' = vs_header v" "vs_unpadder v' = vs_unpadder v" "vs_read_raw v' = []"
      "vs_read_out v' = []" "i_tls (vs_inner v') = s" "i_held (vs_inner v') = i_held (vs_inner v)"
      "i_raw (vs_inner v') = i_raw (vs_inner v)" "i_rlog (vs_inner v') = i_rlog (vs_inner v) @ [TlsRead (got q)]"
      using plain 1(2) by (auto simp: vision_poll_read.simps [of cap v] tls_read_def s split: poll.splits sum.splits)
    have h: "rh_done (vs_header v)"
      using P(2) plain by (auto simp: down_at_def Let_def unpadder_new_def is_done_def split: if_splits)
    then obtain X where X: "feed response_header_new ?P = (Inr True, already_consumed, X)"
      "unpad unpadder_new X [] = (Inr (), vs_unpadder v, [], out)"
      using P(2) plain by (auto simp: down_at_def Let_def)
    have "unpad unpadder_new (X @ got q) [] = (Inr (), vs_unpadder v, [], out @ got q)"
      using unpad_append [OF X(2), of "got q"] plain by (simp add: unpad_done is_done_def)
    moreover have "feed response_header_new (?P @ got q) = (Inr True, already_consumed, X @ got q)"
      using feed_append [OF X(1), of "got q"] by simp
    moreover have "(?P @ got q) @ content s = plain" using src_read_content [OF s] P(1) by simp
    ultimately show ?thesis
      using h plain P(2) unfolding down_inv_def down_at_def Let_def v' r by auto
  next
    case pad
    obtain q i where q: "tls_read read_chunk (open_record_gate (vs_inner v)) = (q, i)" by fastforce
    then have i: "got q @ content (i_tls i) = content (i_tls (vs_inner v))" "i_held i = i_held (vs_inner v)"
      "i_raw i = i_raw (vs_inner v)" "i_rlog i = (i_rlog (vs_inner v) @ [GateOpened]) @ [TlsRead (got q)]"
      using src_read_content [of read_chunk "i_tls (vs_inner v)"]
      by (auto simp: tls_read_def open_record_gate_def split: prod.splits)
    then have at: "down_at ?P held raw (v\<lparr>vs_inner := i\<rparr>) out"
      using down_at_cong [OF P(2), of "v\<lparr>vs_inner := i\<rparr>"] by simp
    show ?thesis
    proof (cases "\<exists>d. q = Ready (Inr d) \<and> d \<noteq> []")
      case True
      then obtain d e v1 where d: "q = Ready (Inr d)" "d \<noteq> []" "absorb d (v\<lparr>vs_inner := i\<rparr>) = (e, v1)"
        by (metis prod.collapse)
      have e: "e = None"
        using 1(2,4) pad d by (auto simp: vision_poll_read.simps [of cap v] q split: option.splits)
      then have loop: "vision_poll_read cap v1 = (r, v')"
        using 1(2) pad d by (simp add: vision_poll_read.simps [of cap v] q)
      note ab = d(3) [unfolded e]
      have at1: "down_at (?P @ d) held raw v1 out"
        using absorb_down [OF at _ _ ab] pad by simp
      have "tls_got (i_rlog (vs_inner v1)) = ?P @ d"
        "is_direct (vs_unpadder v1) \<longrightarrow> switch_point (i_rlog (vs_inner v1))"
        using absorb_switch [OF at _ _ ab, of "i_rlog (vs_inner v) @ [GateOpened]"] pad i(4) d(1) by simp_all
      moreover have "(?P @ d) @ content (i_tls (vs_inner v1)) = plain"
        using absorb_tls [OF d(3)] i(1) P(1) d(1) by simp
      ultimately have "down_inv plain held raw out v1" using at1 by (simp add: down_inv_def Let_def)
      from 1(1) [OF _ pad(2,3) q [symmetric] d(1) refl d(2) d(3) [symmetric] e loop this 1(4)] pad(1)
      show ?thesis by simp
    next
      case False
      then have "v' = v\<lparr>vs_inner := i\<rparr>" "got r = []" "got q = []"
        using 1(2,4) pad by (auto simp: vision_poll_read.simps [of cap v] q
            split: poll.splits sum.splits if_splits)
      with at i(1,4) P(1) pad show ?thesis by (auto simp: down_inv_def Let_def)
    qed
  qed
qed

section \<open>The order of calls on the read side\<close>

text \<open>
  Before the switch neither the held bytes nor the socket are touched; the held bytes are
  taken once, and behind that only the socket is read. While the gate is in use, every read
  of TLS directly follows an opening.
\<close>

definition reads_ordered :: "bool \<Rightarrow> rd_call list \<Rightarrow> bool" where
  "reads_ordered switched l \<longleftrightarrow>
     (if switched
      then \<exists>a b. l = a @ HeldTaken # b \<and> set a \<inter> {HeldTaken, RawRead} = {} \<and> set b \<subseteq> {RawRead}
      else set l \<inter> {HeldTaken, RawRead} = {})"

definition gate_used :: "rd_call list \<Rightarrow> bool" where
  "gate_used l \<longleftrightarrow>
     (\<forall>k < length l. \<forall>d. l ! k = TlsRead d \<longrightarrow>
        GateStopped \<in> set (take k l) \<or> 0 < k \<and> l ! (k - 1) = GateOpened)"

lemma gate_used_other: "gate_used l \<Longrightarrow> \<forall>d. c \<noteq> TlsRead d \<Longrightarrow> gate_used (l @ [c])"
  unfolding gate_used_def by (auto simp: nth_append less_Suc_eq)

lemma gate_used_open: "gate_used l \<Longrightarrow> gate_used (l @ [GateOpened, TlsRead d])"
  unfolding gate_used_def
  by (auto simp: nth_append less_Suc_eq numeral_2_eq_2)

lemma gate_used_stopped: "gate_used l \<Longrightarrow> GateStopped \<in> set l \<Longrightarrow> gate_used (l @ [TlsRead d])"
  unfolding gate_used_def by (auto simp: nth_append less_Suc_eq)

lemma reads_ordered_snoc:
  "reads_ordered switched l \<Longrightarrow> (if switched then c = RawRead else c \<notin> {HeldTaken, RawRead}) \<Longrightarrow>
     reads_ordered switched (l @ [c])"
  unfolding reads_ordered_def by (cases switched) fastforce+

lemma reads_ordered_switch: "reads_ordered False l \<Longrightarrow> reads_ordered True (l @ [HeldTaken])"
  unfolding reads_ordered_def if_True if_False by (intro exI [of _ l] exI [of _ "[]"]) simp

definition rd_inv :: "'r vision \<Rightarrow> bool" where
  "rd_inv v \<longleftrightarrow>
     (let l = i_rlog (vs_inner v) in
      reads_ordered (is_direct (vs_unpadder v)) l \<and> gate_used l \<and>
      (is_done (vs_unpadder v) \<and> \<not> is_direct (vs_unpadder v) \<longrightarrow> GateStopped \<in> set l))"

lemma unpad_flags_up:
  "unpad u b out = (r, u', b', out') \<Longrightarrow>
     (is_done u \<longrightarrow> is_done u') \<and> (is_direct u \<longrightarrow> is_direct u')"
  using unpad_extends [of u b out r u' b' out'] by (simp add: is_done_def is_direct_def)

lemma unpad_stays:
  "unpad u b out = (r, u', b', out') \<Longrightarrow> is_done u \<Longrightarrow> u' = u"
  by (auto simp: is_done_def unpad_done)

lemma absorb_rd:
  assumes "absorb d v = (e, v')" and "rd_inv v" and "\<not> is_direct (vs_unpadder v)"
  shows "rd_inv v'"
proof -
  obtain q h b where f: "feed (vs_header v) (vs_read_raw v @ d) = (q, h, b)" by (metis prod_cases3)
  show ?thesis
  proof (cases "q = Inr True")
    case False
    then have "vs_unpadder v' = vs_unpadder v" "vs_inner v' = vs_inner v"
      using assms(1) f by (auto simp: absorb_def Let_def split: sum.splits bool.splits prod.splits)
    with assms(2) show ?thesis by (simp add: rd_inv_def)
  next
    case True
    obtain res u b2 o2 where u: "unpad (vs_unpadder v) b (vs_read_out v) = (res, u, b2, o2)"
      by (metis prod_cases4)
    let ?l = "i_rlog (vs_inner v)"
    have old: "reads_ordered False ?l" "gate_used ?l"
      "is_done (vs_unpadder v) \<Longrightarrow> GateStopped \<in> set ?l"
      using assms(2,3) by (auto simp: rd_inv_def Let_def)
    show ?thesis
    proof (cases res)
      case (Inl x)
      then have "vs_unpadder v' = u" "vs_inner v' = vs_inner v"
        using assms(1) f True u by (auto simp: absorb_def Let_def)
      moreover have "\<not> is_direct u" "\<not> is_done u"
        using unpad_error_flags [OF u [unfolded Inl]] assms(3) by (auto simp: is_done_def is_direct_def)
      ultimately show ?thesis using old by (simp add: rd_inv_def)
    next
      case (Inr x)
      have v': "vs_unpadder v' = u"
        "is_direct u \<Longrightarrow> i_rlog (vs_inner v') = ?l @ [HeldTaken]"
        "\<not> is_direct u \<Longrightarrow> i_rlog (vs_inner v') =
          ?l @ (if \<not> is_done (vs_unpadder v) \<and> is_done u then [GateStopped] else [])"
        using assms(1,3) f True u Inr
        by (auto simp: absorb_def Let_def stop_record_gate_def take_buffered_raw_def split: if_splits)
      show ?thesis
      proof (cases "is_direct u")
        case True
        with v' old show ?thesis
          by (simp add: rd_inv_def reads_ordered_switch gate_used_other)
      next
        case False
        with v' old unpad_stays [OF u] show ?thesis
          by (auto simp: rd_inv_def Let_def reads_ordered_snoc gate_used_other)
      qed
    qed
  qed
qed

lemma read_rd: "vision_poll_read cap v = (r, v') \<Longrightarrow> rd_inv v \<Longrightarrow> rd_inv v'"
proof (induction cap v arbitrary: r v' rule: vision_poll_read.induct)
  case (1 cap v)
  consider (out) "vs_read_out v \<noteq> []" | (dir) "vs_read_out v = []" "is_direct (vs_unpadder v)"
    | (plain) "vs_read_out v = []" "\<not> is_direct (vs_unpadder v)" "is_done (vs_unpadder v) \<and> vs_read_raw v = []"
    | (pad) "vs_read_out v = []" "\<not> is_direct (vs_unpadder v)" "\<not> (is_done (vs_unpadder v) \<and> vs_read_raw v = [])"
    by blast
  then show ?case
  proof cases
    case pad
    obtain q i where q: "tls_read read_chunk (open_record_gate (vs_inner v)) = (q, i)" by fastforce
    then have il: "i_rlog i = i_rlog (vs_inner v) @ [GateOpened, TlsRead (got q)]"
      by (auto simp: tls_read_def open_record_gate_def split: prod.splits)
    have "reads_ordered False (i_rlog (vs_inner v))" using 1(3) pad by (simp add: rd_inv_def Let_def)
    from reads_ordered_snoc [OF reads_ordered_snoc [OF this, of GateOpened], of "TlsRead (got q)"]
    have "reads_ordered False (i_rlog (vs_inner v) @ [GateOpened, TlsRead (got q)])" by simp
    with 1(3) pad have rd: "rd_inv (v\<lparr>vs_inner := i\<rparr>)"
      by (auto simp: rd_inv_def Let_def il gate_used_open)
    show ?thesis
    proof (cases "\<exists>d. q = Ready (Inr d) \<and> d \<noteq> [] \<and> fst (absorb d (v\<lparr>vs_inner := i\<rparr>)) = None")
      case True
      then obtain d v1 where d: "q = Ready (Inr d)" "d \<noteq> []" "absorb d (v\<lparr>vs_inner := i\<rparr>) = (None, v1)"
        by (metis prod.collapse)
      then have loop: "vision_poll_read cap v1 = (r, v')"
        using 1(2) pad by (simp add: vision_poll_read.simps [of cap v] q)
      have "rd_inv v1" using absorb_rd [OF d(3) rd] pad by simp
      from 1(1) [OF _ pad(2,3) q [symmetric] d(1) refl d(2) d(3) [symmetric] refl loop this] pad(1)
      show ?thesis by simp
    next
      case False
      then have "v' = v\<lparr>vs_inner := i\<rparr> \<or> (\<exists>d e. absorb d (v\<lparr>vs_inner := i\<rparr>) = (Some e, v'))"
        using 1(2) pad by (auto simp: vision_poll_read.simps [of cap v] q
            split: poll.splits sum.splits if_splits prod.splits option.splits)
      then show ?thesis using rd absorb_rd [OF _ rd] pad(2) by auto
    qed
  next
    case plain
    then have "i_rlog (vs_inner v') = i_rlog (vs_inner v) @ [TlsRead (got r)]" "vs_unpadder v' = vs_unpadder v"
      using 1(2) by (auto simp: vision_poll_read.simps [of cap v] tls_read_def
          split: prod.splits poll.splits sum.splits)
    with 1(3) plain show ?thesis
      by (auto simp: rd_inv_def Let_def reads_ordered_snoc gate_used_stopped)
  next
    case dir
    then have "i_rlog (vs_inner v') = i_rlog (vs_inner v) @ [RawRead]" "vs_unpadder v' = vs_unpadder v"
      using 1(2) by (auto simp: vision_poll_read.simps [of cap v] raw_read_def split: prod.splits)
    with 1(3) dir show ?thesis
      by (auto simp: rd_inv_def Let_def reads_ordered_snoc gate_used_other)
  next
    case out
    then have "vs_inner v' = vs_inner v" "vs_unpadder v' = vs_unpadder v"
      using 1(2) by (auto simp: vision_poll_read.simps [of cap v] Let_def)
    with 1(3) show ?thesis by (simp add: rd_inv_def)
  qed
qed

end
