(* ===== verification/VisionSession.thy ===== *)
theory VisionSession
  imports VisionDownlink
begin

text \<open>
  \<^verbatim>\<open>VisionStream\<close> as a machine: any sequence of writes, flushes, shutdowns and reads after the
  first write, with the invariants of both sides and the properties that follow.
\<close>

section \<open>The stream as a machine\<close>

text \<open>The part of the state that the write side never touches.\<close>

definition read_view ::
  "'r vision \<Rightarrow> (rd_event list \<times> bytes \<times> rd_event list \<times> rd_call list) \<times>
     response_header \<times> unpadder \<times> bytes \<times> bytes" where
  "read_view v =
     (let i = vs_inner v in
      ((i_tls i, i_held i, i_raw i, i_rlog i), vs_header v, vs_unpadder v, vs_read_raw v, vs_read_out v))"

lemma call_view:
  "call_write mk d (vs_inner v) = (r, i) \<Longrightarrow> read_view (v\<lparr>vs_inner := i\<rparr>) = read_view v"
  "call_ctl mk2 (vs_inner v) = (r2, i) \<Longrightarrow> read_view (v\<lparr>vs_inner := i\<rparr>) = read_view v"
  by (auto simp: read_view_def Let_def dest: call_rest)

lemma view_fields [simp]:
  "read_view (v\<lparr>vs_inner := i, vs_write_pending := w\<rparr>) = read_view (v\<lparr>vs_inner := i\<rparr>)"
  "read_view (v\<lparr>vs_inner := i, vs_uplink_raw := b\<rparr>) = read_view (v\<lparr>vs_inner := i\<rparr>)"
  "read_view (v\<lparr>vs_traffic := ts, vs_inner := i\<rparr>) = read_view (v\<lparr>vs_inner := i\<rparr>)"
  "read_view (v\<lparr>vs_padder := p, vs_traffic := ts, vs_write_pending := w, vs_rng := r\<rparr>) = read_view v"
  by (simp_all add: read_view_def)

lemma drain_view: "poll_drain v = (r, v') \<Longrightarrow> read_view v' = read_view v"
proof (induction v arbitrary: r v' rule: poll_drain.induct)
  case (1 v)
  show ?case
  proof (cases "vs_write_pending v = []")
    case False
    obtain p i where c: "call_write TlsWrite (vs_write_pending v) (vs_inner v) = (p, i)" by fastforce
    show ?thesis
      using 1(2) 1(1) [OF False c [symmetric]] False call_view(1) [OF c]
      by (auto simp: poll_drain.simps [of v] c split: poll.splits sum.splits if_splits)
  qed (use 1(2) in \<open>simp add: poll_drain.simps\<close>)
qed

lemma settle_view: "poll_settle v = (r, v') \<Longrightarrow> read_view v' = read_view v"
  by (auto simp: poll_settle_def split: prod.splits poll.splits sum.splits if_splits
      dest!: drain_view call_view(2))

lemma write_view: "vision_poll_write rr buf v = (r, v') \<Longrightarrow> read_view v' = read_view v"
  by (auto simp: vision_poll_write_def Let_def split: prod.splits poll.splits sum.splits if_splits
      dest!: settle_view call_view(1))

lemma flush_view: "vision_poll_flush v = (r, v') \<Longrightarrow> read_view v' = read_view v"
  by (auto simp: vision_poll_flush_def split: prod.splits poll.splits sum.splits if_splits
      dest!: settle_view call_view(2))

lemma shutdown_view: "vision_poll_shutdown v = (r, v') \<Longrightarrow> read_view v' = read_view v"
  by (auto simp: vision_poll_shutdown_def split: prod.splits poll.splits sum.splits if_splits
      dest!: settle_view call_view(2))

lemma view_invs:
  assumes "read_view v' = read_view v"
  shows "down_inv plain held raw out v \<Longrightarrow> down_inv plain held raw out v'"
    and "rd_inv v \<Longrightarrow> rd_inv v'"
proof -
  have f: "i_tls (vs_inner v') = i_tls (vs_inner v)" "i_held (vs_inner v') = i_held (vs_inner v)"
    "i_raw (vs_inner v') = i_raw (vs_inner v)" "i_rlog (vs_inner v') = i_rlog (vs_inner v)"
    "vs_header v' = vs_header v" "vs_unpadder v' = vs_unpadder v"
    "vs_read_raw v' = vs_read_raw v" "vs_read_out v' = vs_read_out v"
    using assms by (simp_all add: read_view_def Let_def)
  show "rd_inv v \<Longrightarrow> rd_inv v'" by (simp add: rd_inv_def f)
  have "down_at P held raw v out \<Longrightarrow> down_at P held raw v' out" for P
    by (rule down_at_cong [of P held raw v]) (simp_all only: f)
  then show "down_inv plain held raw out v \<Longrightarrow> down_inv plain held raw out v'"
    unfolding down_inv_def Let_def f by blast
qed

text \<open>
  The operations of the stream in any order. The state keeps the bytes reported as written,
  the bytes delivered, and whether no read and no write has failed so far.
\<close>

datatype vs_op = OpWrite bytes | OpFlush | OpShutdown | OpRead nat

fun failed :: "(io_error + 'a) poll \<Rightarrow> bool" where
  "failed (Ready (Inl e)) = True"
| "failed _ = False"

fun vision_step ::
  "'r rng \<Rightarrow> 'r vision \<times> bytes \<times> bytes \<times> bool \<Rightarrow> vs_op \<Rightarrow> 'r vision \<times> bytes \<times> bytes \<times> bool" where
  "vision_step rr (v, sent, out, ok) (OpWrite b) =
     (case vision_poll_write rr b v of (r, v) \<Rightarrow> (v, sent @ taken b r, out, ok \<and> \<not> failed r))"
| "vision_step rr (v, sent, out, ok) OpFlush =
     (case vision_poll_flush v of (r, v) \<Rightarrow> (v, sent, out, ok))"
| "vision_step rr (v, sent, out, ok) OpShutdown =
     (case vision_poll_shutdown v of (r, v) \<Rightarrow> (v, sent, out, ok))"
| "vision_step rr (v, sent, out, ok) (OpRead cap) =
     (case vision_poll_read cap v of (r, v) \<Rightarrow> (v, sent, out @ got r, ok \<and> \<not> failed r))"

lemma not_failed: "\<not> failed r \<longleftrightarrow> (\<forall>e. r \<noteq> Ready (Inl e))"
  by (cases r rule: failed.cases) auto

definition vision_inv ::
  "bytes \<Rightarrow> bytes \<Rightarrow> bytes \<Rightarrow> bytes \<Rightarrow> bytes \<Rightarrow> 'r vision \<times> bytes \<times> bytes \<times> bool \<Rightarrow> bool" where
  "vision_inv uuid header plain held raw = (\<lambda>(v, sent, out, ok).
     rd_inv v \<and> (\<exists>s. up_inv uuid header s v) \<and>
     (ok \<longrightarrow> up_inv uuid header sent v \<and> down_inv plain held raw out v))"

lemma vision_step_inv:
  assumes "vision_inv uuid header plain held raw s"
  shows "vision_inv uuid header plain held raw (vision_step rr s e)"
proof -
  obtain v sent out ok where s: "s = (v, sent, out, ok)" by (cases s)
  have inv: "rd_inv v" "\<exists>x. up_inv uuid header x v"
    "ok \<Longrightarrow> up_inv uuid header sent v \<and> down_inv plain held raw out v"
    using assms by (auto simp: vision_inv_def s)
  show ?thesis
  proof (cases e)
    case (OpWrite b)
    obtain r v' where w: "vision_poll_write rr b v = (r, v')" by fastforce
    note view = view_invs [OF write_view [OF w]]
    from inv(2) obtain x where "up_inv uuid header x v" ..
    from write_inv [OF w this] have "\<exists>x. up_inv uuid header x v'" by blast
    moreover have "up_inv uuid header (sent @ taken b r) v'" if "ok" "\<not> failed r"
      using write_inv [OF w inv(3) [OF that(1), THEN conjunct1]] that(2) by (auto simp: not_failed)
    ultimately show ?thesis
      using view inv(1,3) by (auto simp: OpWrite s vision_inv_def w)
  next
    case OpFlush
    obtain r v' where w: "vision_poll_flush v = (r, v')" by fastforce
    note up = flush_inv [OF w, of uuid header]
    from inv(2) up have "\<exists>x. up_inv uuid header x v'" by metis
    with view_invs [OF flush_view [OF w]] up inv(1,3) show ?thesis
      by (auto simp: OpFlush s vision_inv_def w)
  next
    case OpShutdown
    obtain r v' where w: "vision_poll_shutdown v = (r, v')" by fastforce
    note up = shutdown_inv [OF w, of uuid header]
    from inv(2) up have "\<exists>x. up_inv uuid header x v'" by metis
    with view_invs [OF shutdown_view [OF w]] up inv(1,3) show ?thesis
      by (auto simp: OpShutdown s vision_inv_def w)
  next
    case (OpRead cap)
    obtain r v' where w: "vision_poll_read cap v = (r, v')" by fastforce
    note up = read_up [OF w, of uuid header]
    from inv(2) up have "\<exists>x. up_inv uuid header x v'" by metis
    with read_rd [OF w inv(1)] up read_down [OF w] inv(3) show ?thesis
      by (auto simp: OpRead s vision_inv_def w not_failed)
  qed
qed

interpretation vision: invariant_machine "vision_step rr" "vision_inv uuid header plain held raw"
  for rr uuid header plain held raw
  by unfold_locales (rule vision_step_inv)

lemma write_first_inv:
  assumes "write_first rr header payload (vision_client i uuid r) = (Ready (Inr ()), v)"
    and "i_log i = []" and "i_rlog i = []" and "length uuid = 16"
  shows "vision_inv uuid header (content (i_tls i)) (i_held i) (content (i_raw i)) (v, payload, [], True)"
proof -
  let ?v = "vision_client i uuid r"
  have f: "feed response_header_new [] = (Inr False, response_header_new, [])"
    by (simp add: feed_def response_header_new_def)
  have view: "read_view v = read_view ?v"
    using assms(1) unfolding write_first_def Let_def
    by (auto simp: read_view_def vision_client_def vision_new_def Let_def
        split: prod.splits poll.splits sum.splits if_splits dest!: loops_rest)
  have "down_inv (content (i_tls i)) (i_held i) (content (i_raw i)) [] ?v" "rd_inv ?v"
    using f assms(3)
    by (auto simp: down_inv_def down_at_def rd_inv_def Let_def vision_client_def vision_new_def
        response_header_new_def unpadder_new_def is_direct_def is_done_def reads_ordered_def gate_used_def)
  with view_invs [OF view] write_first_up [OF assms(1,2,4)] show ?thesis
    by (auto simp: vision_inv_def)
qed

section \<open>Waiting\<close>

lemma drain_empty: "poll_drain v = (Ready (Inr u), v') \<Longrightarrow> vs_write_pending v' = []"
proof (induction v arbitrary: v' rule: poll_drain.induct)
  case (1 v)
  show ?case
  proof (cases "vs_write_pending v = []")
    case False
    obtain p i where c: "call_write TlsWrite (vs_write_pending v) (vs_inner v) = (p, i)" by fastforce
    obtain n where n: "p = Ready (Inr n)" "n \<noteq> 0"
      using 1(2) False by (auto simp: poll_drain.simps [of v] c split: poll.splits sum.splits if_splits)
    then have "poll_drain (v\<lparr>vs_inner := i, vs_write_pending := drop n (vs_write_pending v)\<rparr>)
        = (Ready (Inr u), v')"
      using 1(2) False by (simp add: poll_drain.simps [of v] c)
    from 1(1) [OF False c [symmetric] n(1) refl n(2) this] show ?thesis .
  qed (use 1(2) in \<open>simp add: poll_drain.simps\<close>)
qed

lemma src_read_stalled: "src_read cap s = (Pending, s') \<Longrightarrow> stalled s s'"
  by (cases "(cap, s)" rule: src_read.cases) (auto simp: stalled_now)

lemma read_waits:
  "vision_poll_read cap v = (Pending, v') \<Longrightarrow>
     stalled (i_tls (vs_inner v)) (i_tls (vs_inner v')) \<or>
     is_direct (vs_unpadder v') \<and> stalled (i_raw (vs_inner v)) (i_raw (vs_inner v'))"
proof (induction cap v arbitrary: v' rule: vision_poll_read.induct)
  case (1 cap v)
  consider (out) "vs_read_out v \<noteq> []" | (dir) "vs_read_out v = []" "is_direct (vs_unpadder v)"
    | (plain) "vs_read_out v = []" "\<not> is_direct (vs_unpadder v)" "is_done (vs_unpadder v) \<and> vs_read_raw v = []"
    | (pad) "vs_read_out v = []" "\<not> is_direct (vs_unpadder v)" "\<not> (is_done (vs_unpadder v) \<and> vs_read_raw v = [])"
    by blast
  then show ?case
  proof cases
    case pad
    obtain q i where q: "tls_read read_chunk (open_record_gate (vs_inner v)) = (q, i)" by fastforce
    then have src: "src_read read_chunk (i_tls (vs_inner v)) = (q, i_tls i)" "i_raw i = i_raw (vs_inner v)"
      by (auto simp: tls_read_def open_record_gate_def split: prod.splits)
    show ?thesis
    proof (cases q)
      case Pending
      then show ?thesis
        using 1(2) pad src_read_stalled src by (auto simp: vision_poll_read.simps [of cap v] q)
    next
      case (Ready x)
      then obtain d where d: "x = Inr d" "d \<noteq> []"
        using 1(2) pad by (cases x) (auto simp: vision_poll_read.simps [of cap v] q split: if_splits)
      obtain e v1 where a: "absorb d (v\<lparr>vs_inner := i\<rparr>) = (e, v1)" by fastforce
      have e: "e = None" and loop: "vision_poll_read cap v1 = (Pending, v')"
        using 1(2) pad d Ready a by (auto simp: vision_poll_read.simps [of cap v] q split: option.splits)
      have raw: "i_raw (vs_inner v1) = i_raw (vs_inner v)"
        using a src(2) by (auto simp: absorb_def Let_def stop_record_gate_def take_buffered_raw_def
            split: prod.splits sum.splits bool.splits if_splits)
      have "src_read read_chunk (i_tls (vs_inner v)) = (Ready (Inr d), i_tls (vs_inner v1))"
        using src(1) absorb_tls [OF a] by (simp add: Ready d)
      from stalled_src_read [OF this]
        1(1) [OF _ pad(2,3) q [symmetric] Ready d(1) d(2) a [symmetric] e loop] pad(1) raw
      show ?thesis by auto
    qed
  next
    case plain
    then show ?thesis
      using 1(2) by (auto simp: vision_poll_read.simps [of cap v] tls_read_def
          split: prod.splits poll.splits sum.splits dest!: src_read_stalled)
  next
    case dir
    then show ?thesis
      using 1(2) by (auto simp: vision_poll_read.simps [of cap v] raw_read_def
          split: prod.splits dest!: src_read_stalled)
  next
    case out
    then show ?thesis using 1(2) by (simp add: vision_poll_read.simps [of cap v] Let_def)
  qed
qed

text \<open>A session: the first write with one byte of payload, one write, and a flush.\<close>

definition sample_inner :: inner where
  "sample_inner = \<lparr>i_answers = replicate 9 (Accept 50), i_log = [],
     i_tls = [Chunk [0, 0], Stall], i_held = [], i_raw = [], i_rlog = []\<rparr>"

abbreviation sample_rng :: "unit rng" where "sample_rng \<equiv> \<lambda>r n. (0, r)"

definition sample_uuid :: bytes where "sample_uuid = replicate 16 7"

definition sample_first :: "(io_error + unit) poll \<times> unit vision" where
  "sample_first = write_first sample_rng [9] [5] (vision_client sample_inner sample_uuid ())"

definition sample_run :: "unit vision \<times> bytes \<times> bytes \<times> bool" where
  "sample_run = run (vision_step sample_rng) (snd sample_first, [5], [], True)
     [OpWrite [1, 2], OpFlush]"

lemma sample_first_ok: "fst sample_first = Ready (Inr ())"
  by code_simp

lemma sample_run_ok:
  "fst (snd sample_run) = [5, 1, 2]" "snd (snd (snd sample_run))" "fst (snd (snd sample_run)) = []"
  by code_simp+

lemma sample_session:
  obtains v where "write_first sample_rng [9] [5] (vision_client sample_inner sample_uuid ())
      = (Ready (Inr ()), snd sample_first)"
    and "i_log sample_inner = []" and "i_rlog sample_inner = []" and "length sample_uuid = 16"
    and "run (vision_step sample_rng) (snd sample_first, [5], [], True)
      [OpWrite [1, 2], OpFlush] = (v, [5, 1, 2], [], True)" and "fst sample_run = v"
proof -
  have "sample_run = (fst sample_run, [5, 1, 2], [], True)"
    using sample_run_ok by (metis prod.collapse)
  moreover have "sample_first = (Ready (Inr ()), snd sample_first)"
    using sample_first_ok by (metis prod.collapse)
  ultimately show thesis
    using that unfolding sample_run_def sample_first_def by (simp add: sample_inner_def sample_uuid_def)
qed

text \<open>The uplink as the peer deframes it.\<close>

lemma up_inv_peer:
  assumes "up_inv uuid header sent v"
  shows "\<exists>frames u s. tls_bytes (i_log (vs_inner v)) @ vs_write_pending v = header @ frames \<and>
    unpad unpadder_new frames [] = (Inr (), u, [], s) \<and> s @ raw_bytes (i_log (vs_inner v)) = sent \<and>
    is_direct u = wants_direct (vs_padder v) \<and> (vs_uplink_raw v \<longrightarrow> vs_write_pending v = [])"
proof -
  obtain wire s where w: "tls_bytes (i_log (vs_inner v)) @ vs_write_pending v = header @ wire"
    "s @ raw_bytes (i_log (vs_inner v)) = sent"
    "uplink_inv uuid (vs_padder v, vs_traffic v, wire, s, vs_rng v)"
    using assms by (rule up_invE)
  have "unpad unpadder_new wire [] = (Inr (), peer_of (vs_padder v), [], s)"
    using uplink_inv_unpad [OF w(3), of "[]"] by (simp add: unpad_empty)
  moreover have "is_direct (peer_of (vs_padder v)) = wants_direct (vs_padder v)"
    by (simp add: is_direct_def peer_of_def wants_direct_def)
  moreover have "vs_uplink_raw v \<longrightarrow> vs_write_pending v = []" using assms by (simp add: up_inv_def Let_def)
  ultimately show ?thesis using w(1,2) by blast
qed

section \<open>Properties\<close>

text \<open>
  A completed flush means that everything reported as written has left the stream: nothing
  is pending, a wanted switch of the uplink has happened, and the last call made is a
  completed flush of the layer that carries the uplink from then on.
\<close>

theorem flush_completes:
  assumes "vision_poll_flush v = (Ready (Inr ()), v')"
  shows "vs_write_pending v' = [] \<and> (wants_direct (vs_padder v') \<longrightarrow> vs_uplink_raw v') \<and>
    last (i_log (vs_inner v')) = (if vs_uplink_raw v' then RawFlush True else TlsFlush True)"
proof -
  obtain v1 where s: "poll_settle v = (Ready (Inr ()), v1)"
    using assms by (auto simp: vision_poll_flush_def split: prod.splits poll.splits sum.splits)
  then have v1: "vs_write_pending v1 = []" "wants_direct (vs_padder v1) \<longrightarrow> vs_uplink_raw v1"
    using drain_empty by (auto simp: poll_settle_def split: prod.splits poll.splits sum.splits if_splits)
  obtain q i where c: "call_ctl (if vs_uplink_raw v1 then RawFlush else TlsFlush) (vs_inner v1) = (q, i)"
    by fastforce
  have "q = Ready (Inr ())" "v' = v1\<lparr>vs_inner := i\<rparr>"
    using assms by (simp_all add: vision_poll_flush_def s c)
  with v1 call_ctl_log [OF c] show ?thesis by simp
qed

theorem flush_completes_witness:
  "vs_write_pending (snd (vision_poll_flush (snd sample_first))) = []"
proof -
  obtain r v' where f: "vision_poll_flush (snd sample_first) = (r, v')" by fastforce
  have "fst (vision_poll_flush (snd sample_first)) = Ready (Inr ())" by code_simp
  with flush_completes [of "snd sample_first" v'] f show ?thesis by simp
qed

text \<open>
  A read of the stream waits only when the layer below does: if it answers \<^verbatim>\<open>Pending\<close>, the
  last thing it did was to get \<^verbatim>\<open>Pending\<close> from TLS or, after the switch, from the socket,
  which has then registered the waker.
\<close>

theorem read_pending_registered:
  assumes "vision_poll_read cap v = (Pending, v')"
  shows "stalled (i_tls (vs_inner v)) (i_tls (vs_inner v')) \<or>
    is_direct (vs_unpadder v') \<and> stalled (i_raw (vs_inner v)) (i_raw (vs_inner v'))"
  by (rule read_waits [OF assms])

theorem read_pending_registered_witness:
  "stalled [Stall] (i_tls (vs_inner (snd (vision_poll_read 10
     (vision_client (sample_inner\<lparr>i_tls := [Stall]\<rparr>) sample_uuid ())))))"
proof -
  let ?v = "vision_client (sample_inner\<lparr>i_tls := [Stall]\<rparr>) sample_uuid ()"
  obtain r v' where f: "vision_poll_read 10 ?v = (r, v')" by fastforce
  have "fst (vision_poll_read 10 ?v) = Pending" "\<not> is_direct (vs_unpadder (snd (vision_poll_read 10 ?v)))"
    by (simp_all add: vision_poll_read.simps vision_client_def vision_new_def unpadder_new_def
        is_direct_def is_done_def tls_read_def open_record_gate_def)
  with read_pending_registered [of 10 ?v v'] f show ?thesis
    by (simp add: vision_client_def vision_new_def)
qed

end
