(* ===== verification/AnyStream.thy ===== *)
theory AnyStream
  imports VisionSession
begin

text \<open>
  \<^verbatim>\<open>VisionStream<S>\<close> for any stream \<open>S\<close>: the trait bound of the code as a record of operations,
  and the code of \<^verbatim>\<open>VisionStream\<close> once more over these operations. What it does depends on
  nothing but the answers of the stream below, so that every run over any stream is a run of
  the scripted model of \<open>VisionStream\<close>, to which the properties proved there apply.
\<close>

section \<open>The stream below\<close>

text \<open>
  \<^verbatim>\<open>S: AsyncRead + AsyncWrite + DirectSwitch\<close>: \<^verbatim>\<open>poll_read\<close> with the room in the caller's
  buffer, the write side, and the operations of \<^verbatim>\<open>DirectSwitch\<close>.
\<close>

record 'i stream_ops =
  so_read :: "nat \<Rightarrow> 'i \<Rightarrow> rd_result \<times> 'i"
  so_write :: "bytes \<Rightarrow> 'i \<Rightarrow> (io_error + nat) poll \<times> 'i"
  so_flush :: "'i \<Rightarrow> (io_error + unit) poll \<times> 'i"
  so_shutdown :: "'i \<Rightarrow> (io_error + unit) poll \<times> 'i"
  so_open :: "'i \<Rightarrow> 'i"
  so_stop :: "'i \<Rightarrow> 'i"
  so_take :: "'i \<Rightarrow> bytes \<times> 'i"
  so_read_direct :: "nat \<Rightarrow> 'i \<Rightarrow> rd_result \<times> 'i"
  so_write_direct :: "bytes \<Rightarrow> 'i \<Rightarrow> (io_error + nat) poll \<times> 'i"
  so_flush_direct :: "'i \<Rightarrow> (io_error + unit) poll \<times> 'i"
  so_shutdown_direct :: "'i \<Rightarrow> (io_error + unit) poll \<times> 'i"

text \<open>
  What the traits of tokio promise: a read fills at most the buffer, and a write takes at most
  what it was given.
\<close>

definition io_contract :: "'i stream_ops \<Rightarrow> bool" where
  "io_contract S \<longleftrightarrow>
     (\<forall>cap i. length (got (fst (so_read S cap i))) \<le> cap \<and> length (got (fst (so_read_direct S cap i))) \<le> cap) \<and>
     (\<forall>d i n. fst (so_write S d i) = Ready (Inr n) \<or> fst (so_write_direct S d i) = Ready (Inr n)
        \<longrightarrow> n \<le> length d)"

text \<open>The same as an interface, with the lemmas that every stream obeying it shares.\<close>

locale direct_stream =
  fixes S :: "'i stream_ops"
  assumes read_fits: "length (got (fst (so_read S cap i))) \<le> cap"
    and direct_fits: "length (got (fst (so_read_direct S cap i))) \<le> cap"
    and write_fits: "fst (so_write S d i) = Ready (Inr n) \<Longrightarrow> n \<le> length d"
    and write_direct_fits: "fst (so_write_direct S d i) = Ready (Inr n) \<Longrightarrow> n \<le> length d"

lemma direct_stream_iff: "direct_stream S \<longleftrightarrow> io_contract S"
  by (auto simp: direct_stream_def io_contract_def)

section \<open>The code over any stream\<close>

text \<open>
  \<^verbatim>\<open>write_all\<close> and \<^verbatim>\<open>flush\<close> under \<^verbatim>\<open>await\<close>: a pending call is made again; \<open>None\<close> is a call
  that never completes.
\<close>

partial_function (option) write_all_on ::
  "'i stream_ops \<Rightarrow> bytes \<Rightarrow> 'i \<Rightarrow> ((io_error + unit) \<times> 'i) option" where
  "write_all_on S d i =
     (if d = [] then Some (Inr (), i)
      else case so_write S d i of
        (p, i) \<Rightarrow> (case p of
            Pending \<Rightarrow> write_all_on S d i
          | Ready x \<Rightarrow> (case x of
                Inl e \<Rightarrow> Some (Inl e, i)
              | Inr n \<Rightarrow>
                  if n = 0 then Some (Inl (IoError WriteZero (str ''write zero'')), i)
                  else write_all_on S (drop n d) i)))"

partial_function (option) flush_all_on ::
  "'i stream_ops \<Rightarrow> 'i \<Rightarrow> ((io_error + unit) \<times> 'i) option" where
  "flush_all_on S i =
     (case so_flush S i of
        (p, i) \<Rightarrow> (case p of Pending \<Rightarrow> flush_all_on S i | Ready x \<Rightarrow> Some (x, i)))"

definition write_first_on ::
  "'i stream_ops \<Rightarrow> 'r rng \<Rightarrow> bytes \<Rightarrow> bytes \<Rightarrow> ('i, 'r) vision_over
     \<Rightarrow> ((io_error + unit) \<times> ('i, 'r) vision_over) option" where
  "write_first_on S rr header payload v =
     (let (frame, v) =
        (if payload = []
         then (let (frame, p, r) = camouflage rr (vs_rng v) (vs_padder v)
               in (frame, v\<lparr>vs_padder := p, vs_rng := r\<rparr>))
         else (let (frame, p, ts, r) = pad rr (vs_rng v) (vs_padder v) payload (vs_traffic v)
               in (frame, v\<lparr>vs_padder := p, vs_traffic := ts, vs_rng := r\<rparr>)))
      in case write_all_on S (header @ frame) (vs_inner v) of
           None \<Rightarrow> None
         | Some (Inl e, i) \<Rightarrow> Some (Inl e, v\<lparr>vs_inner := i\<rparr>)
         | Some (Inr _, i) \<Rightarrow>
             (case flush_all_on S i of None \<Rightarrow> None | Some (r, i) \<Rightarrow> Some (r, v\<lparr>vs_inner := i\<rparr>)))"

function drain_on :: "'i stream_ops \<Rightarrow> ('i, 'r) vision_over \<Rightarrow> (io_error + unit) poll \<times> ('i, 'r) vision_over" where
  "drain_on S v =
     (if vs_write_pending v \<noteq> [] then
        (case so_write S (vs_write_pending v) (vs_inner v) of
           (Ready (Inr n), i) \<Rightarrow>
             if n = 0
             then (Ready (Inl (IoError WriteZero (str ''vision: inner stream accepted no bytes''))),
                   v\<lparr>vs_inner := i\<rparr>)
             else drain_on S (v\<lparr>vs_inner := i, vs_write_pending := drop n (vs_write_pending v)\<rparr>)
         | (Ready (Inl e), i) \<Rightarrow> (Ready (Inl e), v\<lparr>vs_inner := i\<rparr>)
         | (Pending, i) \<Rightarrow> (Pending, v\<lparr>vs_inner := i\<rparr>))
      else (Ready (Inr ()), v))"
  by pat_completeness auto
termination
  by (relation "measure (\<lambda>(S, v). length (vs_write_pending v))") auto

declare drain_on.simps [simp del]

definition settle_on :: "'i stream_ops \<Rightarrow> ('i, 'r) vision_over \<Rightarrow> (io_error + unit) poll \<times> ('i, 'r) vision_over" where
  "settle_on S v =
     (case drain_on S v of
        (Ready (Inr _), v) \<Rightarrow>
          if wants_direct (vs_padder v) \<and> \<not> vs_uplink_raw v then
            (case so_flush S (vs_inner v) of
               (Ready (Inr _), i) \<Rightarrow> (Ready (Inr ()), v\<lparr>vs_inner := i, vs_uplink_raw := True\<rparr>)
             | (r, i) \<Rightarrow> (r, v\<lparr>vs_inner := i\<rparr>))
          else (Ready (Inr ()), v)
      | (r, v) \<Rightarrow> (r, v))"

definition write_on ::
  "'i stream_ops \<Rightarrow> 'r rng \<Rightarrow> bytes \<Rightarrow> ('i, 'r) vision_over \<Rightarrow> (io_error + nat) poll \<times> ('i, 'r) vision_over" where
  "write_on S rr buf v =
     (case settle_on S v of
        (Pending, v) \<Rightarrow> (Pending, v)
      | (Ready (Inl e), v) \<Rightarrow> (Ready (Inl e), v)
      | (Ready (Inr _), v) \<Rightarrow>
          if padding_done (vs_padder v) then
            let v = v\<lparr>vs_traffic := traffic_filter (vs_traffic v) buf\<rparr> in
            (case (if vs_uplink_raw v then so_write_direct S else so_write S) buf (vs_inner v) of
               (r, i) \<Rightarrow> (r, v\<lparr>vs_inner := i\<rparr>))
          else
            let (p, ts, pending, r) =
                  pad_into rr (vs_rng v) (vs_padder v) buf (vs_traffic v) (vs_write_pending v);
                v = v\<lparr>vs_padder := p, vs_traffic := ts, vs_write_pending := pending, vs_rng := r\<rparr>
            in (case settle_on S v of
                  (Ready (Inl e), v) \<Rightarrow> (Ready (Inl e), v)
                | (_, v) \<Rightarrow> (Ready (Inr (length buf)), v)))"

definition flush_on :: "'i stream_ops \<Rightarrow> ('i, 'r) vision_over \<Rightarrow> (io_error + unit) poll \<times> ('i, 'r) vision_over" where
  "flush_on S v =
     (case settle_on S v of
        (Ready (Inr _), v) \<Rightarrow>
          (case (if vs_uplink_raw v then so_flush_direct S else so_flush S) (vs_inner v) of
             (r, i) \<Rightarrow> (r, v\<lparr>vs_inner := i\<rparr>))
      | (r, v) \<Rightarrow> (r, v))"

definition shutdown_on :: "'i stream_ops \<Rightarrow> ('i, 'r) vision_over \<Rightarrow> (io_error + unit) poll \<times> ('i, 'r) vision_over" where
  "shutdown_on S v =
     (case settle_on S v of
        (Ready (Inr _), v) \<Rightarrow>
          (case (if vs_uplink_raw v then so_shutdown_direct S else so_shutdown S) (vs_inner v) of
             (r, i) \<Rightarrow> (r, v\<lparr>vs_inner := i\<rparr>))
      | (r, v) \<Rightarrow> (r, v))"

definition absorb_on ::
  "'i stream_ops \<Rightarrow> bytes \<Rightarrow> ('i, 'r) vision_over \<Rightarrow> io_error option \<times> ('i, 'r) vision_over" where
  "absorb_on S d v =
     (let v = v\<lparr>vs_read_raw := vs_read_raw v @ d\<rparr> in
      case feed (vs_header v) (vs_read_raw v) of
        (Inl e, h, b) \<Rightarrow>
          (Some (IoError InvalidData (display [] e)), v\<lparr>vs_header := h, vs_read_raw := b\<rparr>)
      | (Inr False, h, b) \<Rightarrow> (None, v\<lparr>vs_header := h, vs_read_raw := b\<rparr>)
      | (Inr True, h, b) \<Rightarrow>
          let was_done = is_done (vs_unpadder v); was_direct = is_direct (vs_unpadder v) in
          (case unpad (vs_unpadder v) b (vs_read_out v) of
             (res, u, b, out) \<Rightarrow>
               let v = v\<lparr>vs_header := h, vs_unpadder := u, vs_read_raw := b, vs_read_out := out\<rparr> in
               (case res of
                  Inl e \<Rightarrow> (Some (IoError InvalidData (display [] e)), v)
                | Inr _ \<Rightarrow>
                    let v = (if out \<noteq> [] then v\<lparr>vs_traffic := traffic_filter (vs_traffic v) out\<rparr> else v);
                        v = (if \<not> was_done \<and> is_done u \<and> \<not> is_direct u
                             then v\<lparr>vs_inner := so_stop S (vs_inner v)\<rparr> else v);
                        v = (if \<not> was_direct \<and> is_direct u
                             then (let (leftover, i) = so_take S (vs_inner v)
                                   in v\<lparr>vs_inner := i, vs_read_out := vs_read_out v @ leftover\<rparr>)
                             else v)
                    in (None, v))))"

text \<open>\<open>None\<close>: the loop of \<^verbatim>\<open>poll_read\<close> does not end.\<close>

partial_function (option) read_on ::
  "'i stream_ops \<Rightarrow> nat \<Rightarrow> ('i, 'r) vision_over \<Rightarrow> (rd_result \<times> ('i, 'r) vision_over) option" where
  "read_on S cap v =
     (if vs_read_out v \<noteq> [] then
        (let n = min (length (vs_read_out v)) cap in
         Some (Ready (Inr (take n (vs_read_out v))), v\<lparr>vs_read_out := drop n (vs_read_out v)\<rparr>))
      else if is_direct (vs_unpadder v) then
        Some (case so_read_direct S cap (vs_inner v) of (r, i) \<Rightarrow> (r, v\<lparr>vs_inner := i\<rparr>))
      else if is_done (vs_unpadder v) \<and> vs_read_raw v = [] then
        Some (case so_read S cap (vs_inner v) of
           (Ready (Inr d), i) \<Rightarrow>
             (Ready (Inr d), v\<lparr>vs_inner := i, vs_traffic := traffic_filter (vs_traffic v) d\<rparr>)
         | (r, i) \<Rightarrow> (r, v\<lparr>vs_inner := i\<rparr>))
      else
        case so_read S read_chunk (so_open S (vs_inner v)) of
          (p, i) \<Rightarrow> (case p of
            Pending \<Rightarrow> Some (Pending, v\<lparr>vs_inner := i\<rparr>)
          | Ready x \<Rightarrow> (case x of
              Inl e \<Rightarrow> Some (Ready (Inl e), v\<lparr>vs_inner := i\<rparr>)
            | Inr d \<Rightarrow>
                if d = [] then Some (Ready (Inr []), v\<lparr>vs_inner := i\<rparr>)
                else case absorb_on S d (v\<lparr>vs_inner := i\<rparr>) of
                  (e, v) \<Rightarrow> (case e of
                    Some e \<Rightarrow> Some (Ready (Inl e), v)
                  | None \<Rightarrow> read_on S cap v))))"

declare write_all_on.simps [code] flush_all_on.simps [code] read_on.simps [code]

text \<open>The operations in any order, as for the scripted stream.\<close>

fun step_on ::
  "'i stream_ops \<Rightarrow> 'r rng \<Rightarrow> ('i, 'r) vision_over \<times> bytes \<times> bytes \<times> bool \<Rightarrow> vs_op
     \<Rightarrow> (('i, 'r) vision_over \<times> bytes \<times> bytes \<times> bool) option" where
  "step_on S rr (v, sent, out, ok) (OpWrite b) =
     Some (case write_on S rr b v of (r, v) \<Rightarrow> (v, sent @ taken b r, out, ok \<and> \<not> failed r))"
| "step_on S rr (v, sent, out, ok) OpFlush =
     Some (case flush_on S v of (r, v) \<Rightarrow> (v, sent, out, ok))"
| "step_on S rr (v, sent, out, ok) OpShutdown =
     Some (case shutdown_on S v of (r, v) \<Rightarrow> (v, sent, out, ok))"
| "step_on S rr (v, sent, out, ok) (OpRead cap) =
     map_option (\<lambda>(r, v). (v, sent, out @ got r, ok \<and> \<not> failed r)) (read_on S cap v)"

fun session_on ::
  "'i stream_ops \<Rightarrow> 'r rng \<Rightarrow> ('i, 'r) vision_over \<times> bytes \<times> bytes \<times> bool \<Rightarrow> vs_op list
     \<Rightarrow> (('i, 'r) vision_over \<times> bytes \<times> bytes \<times> bool) option" where
  "session_on S rr s [] = Some s"
| "session_on S rr s (e # es) = Option.bind (step_on S rr s e) (\<lambda>s. session_on S rr s es)"

section \<open>Traces\<close>

datatype stream_call =
    CRead nat rd_result
  | COpen
  | CStop
  | CTake bytes
  | CReadDirect nat rd_result
  | CWrite bytes "(io_error + nat) poll"
  | CFlush "(io_error + unit) poll"
  | CShutdown "(io_error + unit) poll"
  | CWriteDirect bytes "(io_error + nat) poll"
  | CFlushDirect "(io_error + unit) poll"
  | CShutdownDirect "(io_error + unit) poll"

fun does :: "'i stream_ops \<Rightarrow> 'i \<Rightarrow> stream_call \<Rightarrow> 'i \<Rightarrow> bool" where
  "does S i (CRead cap r) j \<longleftrightarrow> so_read S cap i = (r, j)"
| "does S i COpen j \<longleftrightarrow> so_open S i = j"
| "does S i CStop j \<longleftrightarrow> so_stop S i = j"
| "does S i (CTake b) j \<longleftrightarrow> so_take S i = (b, j)"
| "does S i (CReadDirect cap r) j \<longleftrightarrow> so_read_direct S cap i = (r, j)"
| "does S i (CWrite d r) j \<longleftrightarrow> so_write S d i = (r, j)"
| "does S i (CFlush r2) j \<longleftrightarrow> so_flush S i = (r2, j)"
| "does S i (CShutdown r2) j \<longleftrightarrow> so_shutdown S i = (r2, j)"
| "does S i (CWriteDirect d r) j \<longleftrightarrow> so_write_direct S d i = (r, j)"
| "does S i (CFlushDirect r2) j \<longleftrightarrow> so_flush_direct S i = (r2, j)"
| "does S i (CShutdownDirect r2) j \<longleftrightarrow> so_shutdown_direct S i = (r2, j)"

inductive trace :: "'i stream_ops \<Rightarrow> 'i \<Rightarrow> stream_call list \<Rightarrow> 'i \<Rightarrow> bool" for S where
  trace_Nil: "trace S i [] i"
| trace_Cons: "does S i c j \<Longrightarrow> trace S j tr k \<Longrightarrow> trace S i (c # tr) k"

inductive_simps trace_simps: "trace S i [] k" "trace S i (c # tr) k"

lemma trace_append: "trace S i (a @ b) k \<longleftrightarrow> (\<exists>j. trace S i a j \<and> trace S j b k)"
  by (induction a arbitrary: i) (auto simp: trace_simps)

text \<open>The same stream over another inner stream.\<close>

definition over :: "'j \<Rightarrow> ('i, 'r) vision_over \<Rightarrow> ('j, 'r) vision_over" where
  "over j v =
     \<lparr>vs_inner = j, vs_traffic = vs_traffic v, vs_padder = vs_padder v, vs_unpadder = vs_unpadder v,
      vs_uplink_raw = vs_uplink_raw v, vs_write_pending = vs_write_pending v,
      vs_read_raw = vs_read_raw v, vs_read_out = vs_read_out v, vs_header = vs_header v,
      vs_rng = vs_rng v\<rparr>"

lemma over_fields [simp]:
  "vs_inner (over j v) = j" "vs_traffic (over j v) = vs_traffic v" "vs_padder (over j v) = vs_padder v"
  "vs_unpadder (over j v) = vs_unpadder v" "vs_uplink_raw (over j v) = vs_uplink_raw v"
  "vs_write_pending (over j v) = vs_write_pending v" "vs_read_raw (over j v) = vs_read_raw v"
  "vs_read_out (over j v) = vs_read_out v" "vs_header (over j v) = vs_header v"
  "vs_rng (over j v) = vs_rng v"
  by (simp_all add: over_def)

lemma over_update [simp]:
  "over j (v\<lparr>vs_inner := i\<rparr>) = over j v" "(over j v)\<lparr>vs_inner := k\<rparr> = over k v"
  "over j (v\<lparr>vs_traffic := a\<rparr>) = (over j v)\<lparr>vs_traffic := a\<rparr>"
  "over j (v\<lparr>vs_padder := b\<rparr>) = (over j v)\<lparr>vs_padder := b\<rparr>"
  "over j (v\<lparr>vs_unpadder := c\<rparr>) = (over j v)\<lparr>vs_unpadder := c\<rparr>"
  "over j (v\<lparr>vs_uplink_raw := d\<rparr>) = (over j v)\<lparr>vs_uplink_raw := d\<rparr>"
  "over j (v\<lparr>vs_write_pending := e\<rparr>) = (over j v)\<lparr>vs_write_pending := e\<rparr>"
  "over j (v\<lparr>vs_read_raw := e\<rparr>) = (over j v)\<lparr>vs_read_raw := e\<rparr>"
  "over j (v\<lparr>vs_read_out := e\<rparr>) = (over j v)\<lparr>vs_read_out := e\<rparr>"
  "over j (v\<lparr>vs_header := f\<rparr>) = (over j v)\<lparr>vs_header := f\<rparr>"
  "over j (v\<lparr>vs_rng := g\<rparr>) = (over j v)\<lparr>vs_rng := g\<rparr>"
  by (simp_all add: over_def)

lemma over_self [simp]: "over (vs_inner v) v = v" "over k (over j v) = over k v"
  by (simp_all add: over_def)

lemma over_new [simp]: "over j (vision_client i uuid r) = vision_client j uuid r"
  by (simp add: over_def vision_client_def vision_new_def)

section \<open>Only the answers matter\<close>

text \<open>
  \<open>f\<close> over \<open>S\<close> from \<open>v\<close> gave \<open>w v'\<close> by the calls \<open>tr\<close>; then over any other stream that gives the same
  answers it gives the same.
\<close>

definition mirrors ::
  "'i stream_ops \<Rightarrow> 'j stream_ops \<Rightarrow> ('i, 'r) vision_over \<Rightarrow> stream_call list \<Rightarrow> ('i, 'r) vision_over
     \<Rightarrow> (('j, 'r) vision_over \<Rightarrow> 'a) \<Rightarrow> (('j, 'r) vision_over \<Rightarrow> 'a) \<Rightarrow> bool" where
  "mirrors S T v tr v' f w \<longleftrightarrow>
     trace S (vs_inner v) tr (vs_inner v') \<and>
     (\<forall>j j'. trace T j tr j' \<longrightarrow> f (over j v) = w (over j' v'))"

fun on_write_side :: "stream_call \<Rightarrow> bool" where
  "on_write_side (CWrite _ _) = True"
| "on_write_side (CFlush _) = True"
| "on_write_side (CShutdown _) = True"
| "on_write_side (CWriteDirect _ _) = True"
| "on_write_side (CFlushDirect _) = True"
| "on_write_side (CShutdownDirect _) = True"
| "on_write_side _ = False"

abbreviation writes_only :: "stream_call list \<Rightarrow> bool" where
  "writes_only tr \<equiv> list_all on_write_side tr"

lemma drain_mirrors:
  "drain_on S v = (r, v') \<Longrightarrow>
     \<exists>tr. mirrors S T v tr v' (drain_on T) (Pair r) \<and> writes_only tr \<and> vs_unpadder v' = vs_unpadder v"
proof (induction S v arbitrary: r v' rule: drain_on.induct)
  case (1 S v)
  show ?case
  proof (cases "vs_write_pending v = []")
    case True
    with 1(2) have "r = Ready (Inr ())" "v' = v" by (simp_all add: drain_on.simps [of S v])
    with True show ?thesis
      by (intro exI [of _ "[]"]) (auto simp: mirrors_def trace_simps drain_on.simps [of T])
  next
    case False
    obtain p i where c: "so_write S (vs_write_pending v) (vs_inner v) = (p, i)" by fastforce
    let ?c = "CWrite (vs_write_pending v) p"
    show ?thesis
    proof (cases "\<exists>n. p = Ready (Inr n) \<and> n \<noteq> 0")
      case True
      then obtain n where n: "p = Ready (Inr n)" "n \<noteq> 0" by blast
      let ?v = "v\<lparr>vs_inner := i, vs_write_pending := drop n (vs_write_pending v)\<rparr>"
      have "drain_on S ?v = (r, v')" using 1(2) False n by (simp add: drain_on.simps [of S v] c)
      from 1(1) [OF False c [symmetric] n(1) refl n(2) this] obtain tr where
        tr: "mirrors S T ?v tr v' (drain_on T) (Pair r)" "writes_only tr" "vs_unpadder v' = vs_unpadder v"
        by auto
      then show ?thesis
        using False n c
        by (intro exI [of _ "?c # tr"]) (auto simp: mirrors_def trace_simps drain_on.simps [of T "over _ v"])
    next
      case False
      with 1(2) c \<open>vs_write_pending v \<noteq> []\<close> show ?thesis
        by (intro exI [of _ "[?c]"])
          (auto simp: mirrors_def trace_simps drain_on.simps [of T "over _ v"] drain_on.simps [of S v]
            split: poll.splits sum.splits if_splits)
    qed
  qed
qed

lemma settle_mirrors:
  assumes "settle_on S v = (r, v')"
  shows "\<exists>tr. mirrors S T v tr v' (settle_on T) (Pair r) \<and> writes_only tr \<and> vs_unpadder v' = vs_unpadder v"
proof -
  obtain p u where d: "drain_on S v = (p, u)" by fastforce
  from drain_mirrors [OF d, of T] obtain tr where tr: "mirrors S T v tr u (drain_on T) (Pair p)"
    "writes_only tr" "vs_unpadder u = vs_unpadder v" by blast
  show ?thesis
  proof (cases "p = Ready (Inr ()) \<and> wants_direct (vs_padder u) \<and> \<not> vs_uplink_raw u")
    case True
    obtain q i where c: "so_flush S (vs_inner u) = (q, i)" by fastforce
    show ?thesis
      using assms True tr c d
      by (intro exI [of _ "tr @ [CFlush q]"])
        (auto simp: mirrors_def trace_append trace_simps settle_on_def split: poll.splits sum.splits)
  next
    case False
    then show ?thesis
      using assms tr d
      by (intro exI [of _ tr])
        (auto simp: mirrors_def settle_on_def split: poll.splits sum.splits if_splits)
  qed
qed

lemma mirrorsI:
  "trace S (vs_inner v) tr (vs_inner v') \<Longrightarrow> (\<And>j j'. trace T j tr j' \<Longrightarrow> f (over j v) = w (over j' v')) \<Longrightarrow>
     mirrors S T v tr v' f w"
  by (simp add: mirrors_def)

lemma mirrorsD:
  assumes "mirrors S T v tr v' f w"
  shows "trace S (vs_inner v) tr (vs_inner v')" "trace T j tr j' \<Longrightarrow> f (over j v) = w (over j' v')"
  using assms by (auto simp: mirrors_def)

lemma flush_mirrors:
  assumes "flush_on S v = (r, v')"
  shows "\<exists>tr. mirrors S T v tr v' (flush_on T) (Pair r) \<and> writes_only tr \<and> vs_unpadder v' = vs_unpadder v"
proof -
  obtain p u where s: "settle_on S v = (p, u)" by fastforce
  from settle_mirrors [OF s, of T] obtain tr where tr: "mirrors S T v tr u (settle_on T) (Pair p)"
    "writes_only tr" "vs_unpadder u = vs_unpadder v" by blast
  show ?thesis
  proof (cases "p = Ready (Inr ())")
    case True
    obtain q i where c: "(if vs_uplink_raw u then so_flush_direct S else so_flush S) (vs_inner u) = (q, i)"
      by fastforce
    show ?thesis
      using assms True tr c s
      by (intro exI [of _ "tr @ [if vs_uplink_raw u then CFlushDirect q else CFlush q]"])
        (auto simp: mirrors_def trace_append trace_simps flush_on_def)
  next
    case False
    then show ?thesis
      using assms tr s
      by (intro exI [of _ tr]) (auto simp: mirrors_def flush_on_def split: poll.splits sum.splits)
  qed
qed

lemma shutdown_mirrors:
  assumes "shutdown_on S v = (r, v')"
  shows "\<exists>tr. mirrors S T v tr v' (shutdown_on T) (Pair r) \<and> writes_only tr \<and> vs_unpadder v' = vs_unpadder v"
proof -
  obtain p u where s: "settle_on S v = (p, u)" by fastforce
  from settle_mirrors [OF s, of T] obtain tr where tr: "mirrors S T v tr u (settle_on T) (Pair p)"
    "writes_only tr" "vs_unpadder u = vs_unpadder v" by blast
  show ?thesis
  proof (cases "p = Ready (Inr ())")
    case True
    obtain q i where c: "(if vs_uplink_raw u then so_shutdown_direct S else so_shutdown S) (vs_inner u) = (q, i)"
      by fastforce
    show ?thesis
      using assms True tr c s
      by (intro exI [of _ "tr @ [if vs_uplink_raw u then CShutdownDirect q else CShutdown q]"])
        (auto simp: mirrors_def trace_append trace_simps shutdown_on_def)
  next
    case False
    then show ?thesis
      using assms tr s
      by (intro exI [of _ tr]) (auto simp: mirrors_def shutdown_on_def split: poll.splits sum.splits)
  qed
qed

lemma write_mirrors:
  assumes "write_on S rr buf v = (r, v')"
  shows "\<exists>tr. mirrors S T v tr v' (write_on T rr buf) (Pair r) \<and> writes_only tr \<and>
    vs_unpadder v' = vs_unpadder v"
proof -
  obtain p u where s: "settle_on S v = (p, u)" by fastforce
  from settle_mirrors [OF s, of T] obtain tr where tr: "mirrors S T v tr u (settle_on T) (Pair p)"
    "writes_only tr" "vs_unpadder u = vs_unpadder v" by blast
  show ?thesis
  proof (cases "p = Ready (Inr ())")
    case False
    then show ?thesis
      using assms tr s
      by (intro exI [of _ tr]) (auto simp: mirrors_def write_on_def split: poll.splits sum.splits)
  next
    case True
    show ?thesis
    proof (cases "padding_done (vs_padder u)")
      case over_pad: True
      obtain q i where c: "(if vs_uplink_raw u then so_write_direct S else so_write S) buf (vs_inner u) = (q, i)"
        by fastforce
      show ?thesis
        using assms True over_pad tr c s
        by (intro exI [of _ "tr @ [if vs_uplink_raw u then CWriteDirect buf q else CWrite buf q]"])
          (auto simp: mirrors_def trace_append trace_simps write_on_def Let_def)
    next
      case pad: False
      obtain p1 ts pend g where w:
        "pad_into rr (vs_rng u) (vs_padder u) buf (vs_traffic u) (vs_write_pending u) = (p1, ts, pend, g)"
        by (metis prod_cases4)
      let ?u = "u\<lparr>vs_padder := p1, vs_traffic := ts, vs_write_pending := pend, vs_rng := g\<rparr>"
      obtain q x where s2: "settle_on S ?u = (q, x)" by fastforce
      from settle_mirrors [OF s2, of T] obtain tr2 where
        tr2: "mirrors S T ?u tr2 x (settle_on T) (Pair q)" "writes_only tr2"
          "vs_unpadder x = vs_unpadder u" by auto
      have "v' = x \<and> r = (case q of Ready (Inl e) \<Rightarrow> Ready (Inl e) | _ \<Rightarrow> Ready (Inr (length buf)))"
        using assms True pad s w s2 by (auto simp: write_on_def Let_def split: poll.splits sum.splits)
      then show ?thesis
        using True pad tr tr2 w
        by (intro exI [of _ "tr @ tr2"])
          (auto simp: mirrors_def trace_append write_on_def Let_def split: poll.splits sum.splits)
    qed
  qed
qed

section \<open>The phases of the read side\<close>

text \<open>
  \<open>Padded\<close>: frames are expected; \<open>Released\<close>: the gate has just been opened; \<open>Fresh\<close>: TLS has just
  given plaintext; \<open>Plain\<close>: the padding has ended and TLS stays; \<open>Around\<close>: the socket is read.
\<close>

datatype phase = Padded | Released | Fresh | Plain | Around

fun next_phase :: "phase \<Rightarrow> stream_call \<Rightarrow> phase option" where
  "next_phase p COpen = (if p = Around then None else if p = Plain then Some Plain else Some Released)"
| "next_phase p (CRead cap r) =
     (if p = Plain then Some Plain
      else if p = Released \<and> cap = read_chunk then Some (if got r = [] then Padded else Fresh) else None)"
| "next_phase p CStop = (if p = Fresh then Some Plain else None)"
| "next_phase p (CTake b) = (if p = Fresh then Some Around else None)"
| "next_phase p (CReadDirect cap r) = (if p = Around then Some Around else None)"
| "next_phase p c = Some p"

fun phases :: "phase \<Rightarrow> stream_call list \<Rightarrow> phase option" where
  "phases p [] = Some p"
| "phases p (c # tr) = Option.bind (next_phase p c) (\<lambda>q. phases q tr)"

lemma phases_append: "phases p (a @ b) = Option.bind (phases p a) (\<lambda>q. phases q b)"
  by (induction a arbitrary: p) (auto split: Option.bind_splits)

lemma phases_writes: "writes_only tr \<Longrightarrow> phases p tr = Some p"
proof (induction tr)
  case (Cons c tr)
  then show ?case by (cases c) auto
qed simp

definition in_phase :: "phase \<Rightarrow> ('i, 'r) vision_over \<Rightarrow> bool" where
  "in_phase p v \<longleftrightarrow>
     (p = Around \<longleftrightarrow> is_direct (vs_unpadder v)) \<and>
     (p = Plain \<longleftrightarrow> is_done (vs_unpadder v) \<and> \<not> is_direct (vs_unpadder v))"

lemma absorb_mirrors:
  assumes "absorb_on S d v = (e, v')" and "in_phase p v" and "p \<noteq> Around" and "p \<noteq> Plain \<longrightarrow> p = Fresh"
  shows "\<exists>tr q. mirrors S T v tr v' (absorb_on T d) (Pair e) \<and> phases p tr = Some q \<and> in_phase q v'"
proof -
  obtain f h b where f: "feed (vs_header v) (vs_read_raw v @ d) = (f, h, b)" by (metis prod_cases3)
  obtain res u b2 o2 where u: "unpad (vs_unpadder v) b (vs_read_out v) = (res, u, b2, o2)"
    by (metis prod_cases4)
  show ?thesis
  proof (cases "f = Inr True \<and> res = Inr ()")
    case False
    have err: "res = Inl x \<Longrightarrow> is_done u = is_done (vs_unpadder v) \<and> is_direct u = is_direct (vs_unpadder v)" for x
      using unpad_error_flags [of "vs_unpadder v" b "vs_read_out v" x u b2 o2] unpad_flags_up [OF u] u
      by (auto simp: is_done_def is_direct_def)
    show ?thesis
      using assms(1,2) False f u
      by (intro exI [of _ "[]"] exI [of _ p])
        (auto simp: mirrors_def trace_simps absorb_on_def Let_def in_phase_def err
          split: sum.splits bool.splits)
  next
    case True
    let ?now = "\<not> is_done (vs_unpadder v) \<and> is_done u \<and> \<not> is_direct u"
    show ?thesis
    proof (cases "is_direct u")
      case dir: True
      obtain lo i where t: "so_take S (vs_inner v) = (lo, i)" by fastforce
      have "\<not> is_done (vs_unpadder v)"
        using assms(2,3) unpad_stays [OF u] dir by (auto simp: in_phase_def)
      then have "p = Fresh" using assms(2-4) by (auto simp: in_phase_def)
      then show ?thesis
        using assms(1-4) True f u dir t
        by (intro exI [of _ "[CTake lo]"] exI [of _ Around])
          (auto simp: mirrors_def trace_simps absorb_on_def Let_def in_phase_def
              split: if_splits)
    next
      case nodir: False
      show ?thesis
      proof (cases ?now)
        case True
        then show ?thesis
          using assms \<open>f = Inr True \<and> res = Inr ()\<close> f u nodir
          by (intro exI [of _ "[CStop]"] exI [of _ Plain])
            (auto simp: mirrors_def trace_simps absorb_on_def Let_def in_phase_def
              split: if_splits)
      next
        case False
        then show ?thesis
          using assms \<open>f = Inr True \<and> res = Inr ()\<close> f u nodir unpad_flags_up [OF u]
          by (intro exI [of _ "[]"] exI [of _ p])
            (auto simp: mirrors_def trace_simps absorb_on_def Let_def in_phase_def
              split: if_splits)
      qed
    qed
  qed
qed

lemma read_mirrors_aux:
  assumes "read_on S cap v = Some z"
  shows "\<forall>p. in_phase p v \<longrightarrow> (\<exists>tr q. mirrors S T v tr (snd z) (read_on T cap) (\<lambda>x. Some (fst z, x)) \<and>
       phases p tr = Some q \<and> in_phase q (snd z))"
proof (induction S cap v z rule: read_on.raw_induct)
  case 2
  show ?case by (rule assms)
next
  case (1 rec S cap v z)
  show ?case
  proof (intro allI impI)
    fix p assume p: "in_phase p v"
    consider (out) "vs_read_out v \<noteq> []" | (dir) "vs_read_out v = []" "is_direct (vs_unpadder v)"
      | (plain) "vs_read_out v = []" "\<not> is_direct (vs_unpadder v)" "is_done (vs_unpadder v) \<and> vs_read_raw v = []"
      | (pad) "vs_read_out v = []" "\<not> is_direct (vs_unpadder v)" "\<not> (is_done (vs_unpadder v) \<and> vs_read_raw v = [])"
      by blast
    then show "\<exists>tr q. mirrors S T v tr (snd z) (read_on T cap) (\<lambda>x. Some (fst z, x)) \<and>
       phases p tr = Some q \<and> in_phase q (snd z)"
    proof cases
      case out
      with 1(2) p show ?thesis
        by (intro exI [of _ "[]"] exI [of _ p])
          (auto simp: mirrors_def trace_simps read_on.simps [of T] in_phase_def Let_def)
    next
      case dir
      obtain r i where c: "so_read_direct S cap (vs_inner v) = (r, i)" by fastforce
      with 1(2) dir p show ?thesis
        by (intro exI [of _ "[CReadDirect cap r]"] exI [of _ p])
          (auto simp: mirrors_def trace_simps read_on.simps [of T] in_phase_def)
    next
      case plain
      obtain r i where c: "so_read S cap (vs_inner v) = (r, i)" by fastforce
      with 1(2) plain p show ?thesis
        by (intro exI [of _ "[CRead cap r]"] exI [of _ p])
          (auto simp: mirrors_def trace_simps read_on.simps [of T] in_phase_def split: poll.splits sum.splits)
    next
      case pad
      obtain r i where c: "so_read S read_chunk (so_open S (vs_inner v)) = (r, i)" by fastforce
      let ?p = "if p = Plain then Plain else if got r = [] then Padded else Fresh"
      have ph: "phases p (COpen # CRead read_chunk r # t) = phases ?p t" "p \<noteq> Around" for t
        using p pad by (auto simp: in_phase_def)
      show ?thesis
      proof (cases "\<exists>d. r = Ready (Inr d) \<and> d \<noteq> []")
        case False
        with 1(2) pad p ph c show ?thesis
          by (intro exI [of _ "[COpen, CRead read_chunk r]"] exI [of _ ?p])
            (auto simp: ph mirrors_def trace_simps read_on.simps [of T] in_phase_def
              split: poll.splits sum.splits if_splits)
      next
        case True
        then obtain d where d: "r = Ready (Inr d)" "d \<noteq> []" by blast
        obtain e u where a: "absorb_on S d (v\<lparr>vs_inner := i\<rparr>) = (e, u)" by fastforce
        have ip: "in_phase ?p (v\<lparr>vs_inner := i\<rparr>)" "?p \<noteq> Around" "?p \<noteq> Plain \<longrightarrow> ?p = Fresh"
          using p d ph by (auto simp: in_phase_def)
        from absorb_mirrors [OF a ip, of T] obtain tr q where
          tr: "mirrors S T (v\<lparr>vs_inner := i\<rparr>) tr u (absorb_on T d) (Pair e)" "phases ?p tr = Some q"
            "in_phase q u" by blast
        show ?thesis
        proof (cases e)
          case (Some x)
          then show ?thesis
            using 1(2) pad c d a tr ph
            by (intro exI [of _ "[COpen, CRead read_chunk r] @ tr"] exI [of _ q])
              (auto simp: mirrors_def trace_simps read_on.simps [of T "cap" "over _ v"] ph [unfolded d]
                simp del: phases.simps)
        next
          case None
          then have "rec S cap u = Some z" using 1(2) pad c d a by simp
          from 1(1) [OF this] tr(3) obtain tr2 q2 where
            tr2: "mirrors S T u tr2 (snd z) (read_on T cap) (\<lambda>x. Some (fst z, x))"
              "phases q tr2 = Some q2" "in_phase q2 (snd z)" by blast
          then show ?thesis
            using pad c d tr ph None
            by (intro exI [of _ "[COpen, CRead read_chunk r] @ tr @ tr2"] exI [of _ q2])
              (auto simp: mirrors_def trace_simps trace_append read_on.simps [of T "cap" "over _ v"]
                phases_append ph [unfolded d] simp del: phases.simps)
        qed
      qed
    qed
  qed
qed

lemma read_mirrors:
  assumes "read_on S cap v = Some (r, v')" and "in_phase p v"
  shows "\<exists>tr q. mirrors S T v tr v' (read_on T cap) (\<lambda>x. Some (r, x)) \<and>
    phases p tr = Some q \<and> in_phase q v'"
  using read_mirrors_aux [OF assms(1), of T] assms(2) by simp

lemma write_all_traces:
  assumes "write_all_on S d i = Some z"
  shows "\<exists>tr. trace S i tr (snd z) \<and> writes_only tr \<and>
       (\<forall>j j'. trace T j tr j' \<longrightarrow> write_all_on T d j = Some (fst z, j'))"
proof (induction S d i z rule: write_all_on.raw_induct)
  case 2
  show ?case by (rule assms)
next
  case (1 rec S d i z)
  show ?case
  proof (cases "d = []")
    case True
    with 1(2) show ?thesis
      by (intro exI [of _ "[]"]) (auto simp: trace_simps write_all_on.simps [of T])
  next
    case False
    obtain p i1 where c: "so_write S d i = (p, i1)" by fastforce
    show ?thesis
    proof (cases "p = Pending \<or> (\<exists>n. p = Ready (Inr n) \<and> n \<noteq> 0)")
      case True
      then obtain d1 where d1: "rec S d1 i1 = Some z"
        "\<And>j j1. so_write T d j = (p, j1) \<Longrightarrow> write_all_on T d j = write_all_on T d1 j1"
        using 1(2) False c by (auto simp: write_all_on.simps [of T d])
      from 1(1) [OF d1(1)] obtain tr where "trace S i1 tr (snd z)" "writes_only tr"
        "\<forall>j j'. trace T j tr j' \<longrightarrow> write_all_on T d1 j = Some (fst z, j')" by blast
      then show ?thesis using c d1(2)
        by (intro exI [of _ "CWrite d p # tr"]) (auto simp: trace_simps)
    next
      case stop: False
      with 1(2) False c show ?thesis
        by (intro exI [of _ "[CWrite d p]"])
          (auto simp: trace_simps write_all_on.simps [of T d] split: poll.splits sum.splits)
    qed
  qed
qed

lemma flush_all_traces:
  assumes "flush_all_on S i = Some z"
  shows "\<exists>tr. trace S i tr (snd z) \<and> writes_only tr \<and>
       (\<forall>j j'. trace T j tr j' \<longrightarrow> flush_all_on T j = Some (fst z, j'))"
proof (induction S i z rule: flush_all_on.raw_induct)
  case 2
  show ?case by (rule assms)
next
  case (1 rec S i z)
  obtain p i1 where c: "so_flush S i = (p, i1)" by fastforce
  show ?case
  proof (cases p)
    case Pending
    then have "rec S i1 = Some z" using 1(2) c by simp
    from 1(1) [OF this] obtain tr where "trace S i1 tr (snd z)" "writes_only tr"
      "\<forall>j j'. trace T j tr j' \<longrightarrow> flush_all_on T j = Some (fst z, j')" by blast
    then show ?thesis using c Pending
      by (intro exI [of _ "CFlush p # tr"]) (auto simp: trace_simps flush_all_on.simps [of T])
  next
    case (Ready x)
    with 1(2) c show ?thesis
      by (intro exI [of _ "[CFlush p]"]) (auto simp: trace_simps flush_all_on.simps [of T])
  qed
qed

text \<open>The first write as the frame it makes and the two calls that send it.\<close>

definition first_frame ::
  "'r rng \<Rightarrow> bytes \<Rightarrow> ('i, 'r) vision_over \<Rightarrow> bytes \<times> padder \<times> traffic_state \<times> 'r" where
  "first_frame rr payload v =
     (if payload = []
      then (case camouflage rr (vs_rng v) (vs_padder v) of (frame, p, r) \<Rightarrow> (frame, p, vs_traffic v, r))
      else pad rr (vs_rng v) (vs_padder v) payload (vs_traffic v))"

lemma first_frame_over [simp]: "first_frame rr payload (over j v) = first_frame rr payload v"
  by (simp add: first_frame_def)

lemma write_first_on_eq:
  "first_frame rr payload v = (frame, p, ts, g) \<Longrightarrow>
   write_first_on S rr header payload v =
      (case write_all_on S (header @ frame) (vs_inner v) of
         None \<Rightarrow> None
       | Some (Inl e, i) \<Rightarrow> Some (Inl e, v\<lparr>vs_padder := p, vs_traffic := ts, vs_rng := g, vs_inner := i\<rparr>)
       | Some (Inr _, i) \<Rightarrow>
           (case flush_all_on S i of
              None \<Rightarrow> None
            | Some (r, i) \<Rightarrow> Some (r, v\<lparr>vs_padder := p, vs_traffic := ts, vs_rng := g, vs_inner := i\<rparr>)))"
  by (auto simp: write_first_on_def first_frame_def Let_def split: prod.splits if_splits option.splits sum.splits)

lemma write_first_mirrors:
  assumes "write_first_on S rr header payload v = Some (r, v')"
  shows "\<exists>tr. mirrors S T v tr v' (write_first_on T rr header payload) (\<lambda>x. Some (r, x)) \<and> writes_only tr \<and>
    vs_unpadder v' = vs_unpadder v"
proof -
  obtain frame p ts g where fr: "first_frame rr payload v = (frame, p, ts, g)" by (metis prod_cases4)
  note W = write_first_on_eq [OF fr, of S header]
  have WT: "write_first_on T rr header payload (over j v) = (case write_all_on T (header @ frame) j of
         None \<Rightarrow> None
       | Some (Inl e, i) \<Rightarrow> Some (Inl e, over i (v\<lparr>vs_padder := p, vs_traffic := ts, vs_rng := g\<rparr>))
       | Some (Inr _, i) \<Rightarrow>
           (case flush_all_on T i of
              None \<Rightarrow> None
            | Some (r, i) \<Rightarrow> Some (r, over i (v\<lparr>vs_padder := p, vs_traffic := ts, vs_rng := g\<rparr>))))" for j
    using write_first_on_eq [of rr payload "over j v", unfolded first_frame_over, OF fr, of T header]
    by (simp add: over_def split: option.splits sum.splits)
  obtain y i where wa: "write_all_on S (header @ frame) (vs_inner v) = Some (y, i)"
    using assms by (auto simp: W split: option.splits)
  from write_all_traces [OF wa, of T] obtain tr where tr: "trace S (vs_inner v) tr i" "writes_only tr"
    "\<And>j j'. trace T j tr j' \<Longrightarrow> write_all_on T (header @ frame) j = Some (y, j')" by auto
  show ?thesis
  proof (cases y)
    case (Inl e)
    with assms wa tr show ?thesis
      by (intro exI [of _ tr]) (auto simp: mirrors_def W WT)
  next
    case (Inr u)
    obtain r1 i1 where fa: "flush_all_on S i = Some (r1, i1)"
      using assms wa Inr by (auto simp: W split: option.splits)
    from flush_all_traces [OF fa, of T] obtain tr2 where "trace S i tr2 i1" "writes_only tr2"
      "\<And>j j'. trace T j tr2 j' \<Longrightarrow> flush_all_on T j = Some (r1, j')" by auto
    with assms wa tr Inr fa show ?thesis
      by (intro exI [of _ "tr @ tr2"]) (auto simp: mirrors_def trace_append W WT)
  qed
qed

text \<open>A whole session.\<close>

lemma step_mirrors:
  assumes "step_on S rr (v, sent, out, ok) e = Some (v', sent', out', ok')" and "in_phase p v"
  shows "\<exists>tr q. mirrors S T v tr v' (\<lambda>x. step_on T rr (x, sent, out, ok) e) (\<lambda>x. Some (x, sent', out', ok')) \<and>
    phases p tr = Some q \<and> in_phase q v'"
proof (cases e)
  case (OpWrite b)
  obtain r u where w: "write_on S rr b v = (r, u)" by fastforce
  from write_mirrors [OF w, of T] assms w phases_writes show ?thesis
    by (fastforce simp: OpWrite mirrors_def in_phase_def)
next
  case OpFlush
  obtain r u where w: "flush_on S v = (r, u)" by fastforce
  from flush_mirrors [OF w, of T] assms w phases_writes show ?thesis
    by (fastforce simp: OpFlush mirrors_def in_phase_def)
next
  case OpShutdown
  obtain r u where w: "shutdown_on S v = (r, u)" by fastforce
  from shutdown_mirrors [OF w, of T] assms w phases_writes show ?thesis
    by (fastforce simp: OpShutdown mirrors_def in_phase_def)
next
  case (OpRead cap)
  obtain r where w: "read_on S cap v = Some (r, v')" "sent' = sent" "out' = out @ got r" "ok' = (ok \<and> \<not> failed r)"
    using assms(1) by (auto simp: OpRead)
  from read_mirrors [OF w(1) assms(2), of T] w show ?thesis
    by (fastforce simp: OpRead mirrors_def)
qed

lemma session_mirrors:
  "session_on S rr (v, sent, out, ok) es = Some (v', res) \<Longrightarrow> in_phase p v \<Longrightarrow>
     \<exists>tr q. mirrors S T v tr v' (\<lambda>x. session_on T rr (x, sent, out, ok) es) (\<lambda>x. Some (x, res)) \<and>
       phases p tr = Some q \<and> in_phase q v'"
proof (induction es arbitrary: v sent out ok p)
  case Nil
  then show ?case by (intro exI [of _ "[]"] exI [of _ p]) (auto simp: mirrors_def trace_simps)
next
  case (Cons e es)
  obtain u sent1 out1 ok1 where s: "step_on S rr (v, sent, out, ok) e = Some (u, sent1, out1, ok1)"
    using Cons.prems(1) by (auto simp: bind_eq_Some_conv)
  from step_mirrors [OF s Cons.prems(2), of T] obtain tr q where
    tr: "mirrors S T v tr u (\<lambda>x. step_on T rr (x, sent, out, ok) e) (\<lambda>x. Some (x, sent1, out1, ok1))"
      "phases p tr = Some q" "in_phase q u" by blast
  from Cons.IH [OF _ tr(3), of sent1 out1 ok1] Cons.prems(1) s obtain tr2 q2 where
    "mirrors S T u tr2 v' (\<lambda>x. session_on T rr (x, sent1, out1, ok1) es) (\<lambda>x. Some (x, res))"
    "phases q tr2 = Some q2" "in_phase q2 v'" by auto
  with tr show ?case
    by (intro exI [of _ "tr @ tr2"] exI [of _ q2]) (auto simp: mirrors_def trace_append phases_append)
qed

end
