(* ===== verification/AnyScript.thy ===== *)
theory AnyScript
  imports AnyStream
begin

text \<open>
  The scripted stream is one of the streams of \<open>AnyStream\<close>, and every run over any stream is a
  run over a script: the answers the stream gave. The properties of the scripted model become
  properties of \<^verbatim>\<open>VisionStream<S>\<close> for every \<open>S\<close>.
\<close>

section \<open>The scripted stream\<close>

definition script_ops :: "inner stream_ops" where
  "script_ops =
     \<lparr>so_read = tls_read, so_write = call_write TlsWrite, so_flush = call_ctl TlsFlush,
      so_shutdown = call_ctl TlsShutdown, so_open = open_record_gate, so_stop = stop_record_gate,
      so_take = take_buffered_raw, so_read_direct = raw_read, so_write_direct = call_write RawWrite,
      so_flush_direct = call_ctl RawFlush, so_shutdown_direct = call_ctl RawShutdown\<rparr>"

lemma script_ops_simps [simp]:
  "so_read script_ops = tls_read" "so_write script_ops = call_write TlsWrite"
  "so_flush script_ops = call_ctl TlsFlush" "so_shutdown script_ops = call_ctl TlsShutdown"
  "so_open script_ops = open_record_gate" "so_stop script_ops = stop_record_gate"
  "so_take script_ops = take_buffered_raw" "so_read_direct script_ops = raw_read"
  "so_write_direct script_ops = call_write RawWrite" "so_flush_direct script_ops = call_ctl RawFlush"
  "so_shutdown_direct script_ops = call_ctl RawShutdown"
  by (simp_all add: script_ops_def)

lemma drain_on_script: "drain_on script_ops v = poll_drain v"
proof (induction v rule: poll_drain.induct)
  case (1 v)
  show ?case
    by (subst drain_on.simps, subst poll_drain.simps)
      (auto simp: 1 split: prod.splits poll.splits sum.splits)
qed

lemma settle_on_script: "settle_on script_ops = poll_settle"
  unfolding settle_on_def [abs_def] poll_settle_def [abs_def] drain_on_script script_ops_simps ..

lemma write_on_script: "write_on script_ops = vision_poll_write"
  unfolding write_on_def [abs_def] vision_poll_write_def [abs_def] settle_on_script script_ops_simps
  by (intro ext) (auto simp: Let_def split: prod.splits poll.splits sum.splits)

lemma flush_on_script: "flush_on script_ops = vision_poll_flush"
  unfolding flush_on_def [abs_def] vision_poll_flush_def [abs_def] settle_on_script script_ops_simps
  by (intro ext) (auto split: prod.splits poll.splits sum.splits)

lemma shutdown_on_script: "shutdown_on script_ops = vision_poll_shutdown"
  unfolding shutdown_on_def [abs_def] vision_poll_shutdown_def [abs_def] settle_on_script script_ops_simps
  by (intro ext) (auto split: prod.splits poll.splits sum.splits)

lemma absorb_on_script: "absorb_on script_ops d v = absorb d v"
  unfolding absorb_on_def absorb_def script_ops_simps ..

lemma read_on_script: "read_on script_ops cap v = Some (vision_poll_read cap v)"
proof (induction cap v rule: vision_poll_read.induct)
  case (1 cap v)
  obtain r i where c: "tls_read read_chunk (open_record_gate (vs_inner v)) = (r, i)" by fastforce
  show ?case
  proof (cases "\<exists>d. r = Ready (Inr d) \<and> d \<noteq> []")
    case True
    then obtain d where d: "r = Ready (Inr d)" "d \<noteq> []" by blast
    obtain e u where a: "absorb d (v\<lparr>vs_inner := i\<rparr>) = (e, u)" by fastforce
    show ?thesis
      using 1 [OF _ _ _ c [symmetric] d(1) refl d(2) a [symmetric]] c d a
      by (subst read_on.simps, subst vision_poll_read.simps)
        (auto simp: absorb_on_script Let_def split: option.splits)
  next
    case False
    then show ?thesis using c
      by (subst read_on.simps, subst vision_poll_read.simps)
        (auto simp: Let_def split: poll.splits sum.splits)
  qed
qed

lemma loop_answers:
  "write_all_loop as d (i\<lparr>i_answers := x\<rparr>) = write_all_loop as d i"
  "write_all_loop as d (i\<lparr>i_answers := x, i_log := l\<rparr>) = write_all_loop as d (i\<lparr>i_log := l\<rparr>)"
  "flush_loop as (i\<lparr>i_answers := x\<rparr>) = flush_loop as i"
  "flush_loop as (i\<lparr>i_answers := x, i_log := l\<rparr>) = flush_loop as (i\<lparr>i_log := l\<rparr>)"
proof -
  have swap: "i\<lparr>i_log := k, i_answers := x\<rparr> = i\<lparr>i_answers := x, i_log := k\<rparr>" for i k x by simp
  show w: "write_all_loop as d (i\<lparr>i_answers := x\<rparr>) = write_all_loop as d i" for i
  proof (induction as d i arbitrary: x rule: write_all_loop.induct)
    case (3 as d1 d2 i)
    from 3 [of x] show ?case by (simp add: swap)
  next
    case (5 n as d1 d2 i)
    from 5 [of _ x] show ?case by (simp add: Let_def swap)
  qed simp_all
  show f: "flush_loop as (i\<lparr>i_answers := x\<rparr>) = flush_loop as i" for i
  proof (induction as i arbitrary: x rule: flush_loop.induct)
    case (2 as i)
    from 2 [of x] show ?case by (simp add: swap)
  qed simp_all
  show "write_all_loop as d (i\<lparr>i_answers := x, i_log := l\<rparr>) = write_all_loop as d (i\<lparr>i_log := l\<rparr>)"
    "flush_loop as (i\<lparr>i_answers := x, i_log := l\<rparr>) = flush_loop as (i\<lparr>i_log := l\<rparr>)"
    using w [of "i\<lparr>i_log := l\<rparr>"] f [of "i\<lparr>i_log := l\<rparr>"] by (simp_all only: swap)
qed

lemma write_all_on_script_aux:
  assumes "write_all_on S d i = Some z"
  shows "S = script_ops \<longrightarrow> write_all_loop (i_answers i) d i = (Ready (fst z), snd z)"
proof (induction S d i z rule: write_all_on.raw_induct)
  case 2
  show ?case by (rule assms)
next
  case (1 rec S d i z)
  show ?case
  proof
    assume S: "S = script_ops"
    show "write_all_loop (i_answers i) d i = (Ready (fst z), snd z)"
    proof (cases d)
      case Nil
      with 1(2) show ?thesis by auto
    next
      case (Cons x xs)
      have st: "rec script_ops b j = Some z \<Longrightarrow> write_all_loop (i_answers j) b j = (Ready (fst z), snd z)" for b j
        using 1(1) [of script_ops b j z] by simp
      show ?thesis
      proof (cases "(i_answers i, d, i)" rule: write_all_loop.cases)
        case (5 n as y ys j)
        show ?thesis
        proof (cases "n = 0")
          case False
          define m where "m = min n (length d)"
          have m: "0 < m" "drop m d = drop n d" "take m d = take n d"
            using False 5 by (simp_all add: m_def min_def)
          have "call_write TlsWrite d i =
              (Ready (Inr m), i\<lparr>i_answers := as, i_log := i_log i @ [TlsWrite (take n d)]\<rparr>)"
            using 5 by (auto simp: call_write_def m_def)
          with 1(2) Cons m have "rec script_ops (drop n d) (i\<lparr>i_answers := as, i_log := i_log i @ [TlsWrite (take n d)]\<rparr>) = Some z"
            by (simp add: S)
          from st [OF this] False 5 show ?thesis by (auto simp: loop_answers)
        qed (use 1(2) 5 in \<open>auto simp: S call_write_def loop_answers\<close>)
      qed (use 1(2) Cons st in \<open>fastforce simp: S call_write_def loop_answers\<close>)+
    qed
  qed
qed

lemmas write_all_on_script = write_all_on_script_aux [THEN mp, OF _ refl]

lemma flush_all_on_script_aux:
  assumes "flush_all_on S i = Some z"
  shows "S = script_ops \<longrightarrow> flush_loop (i_answers i) i = (Ready (fst z), snd z)"
proof (induction S i z rule: flush_all_on.raw_induct)
  case 2
  show ?case by (rule assms)
next
  case (1 rec S i z)
  show ?case
  proof
    assume S: "S = script_ops"
    have st: "rec script_ops j = Some z \<Longrightarrow> flush_loop (i_answers j) j = (Ready (fst z), snd z)" for j
      using 1(1) [of script_ops j z] by simp
    show "flush_loop (i_answers i) i = (Ready (fst z), snd z)"
      using 1(2) st
      by (cases "(i_answers i, i)" rule: flush_loop.cases)
        (fastforce simp: S call_ctl_def loop_answers)+
  qed
qed

lemmas flush_all_on_script = flush_all_on_script_aux [THEN mp, OF _ refl]

lemma write_first_as_frame:
  "first_frame rr payload v = (frame, p, ts, g) \<Longrightarrow>
   write_first rr header payload v =
     (let v = v\<lparr>vs_padder := p, vs_traffic := ts, vs_rng := g\<rparr>
      in case write_all_loop (i_answers (vs_inner v)) (header @ frame) (vs_inner v) of
           (Ready (Inr _), i) \<Rightarrow> (case flush_loop (i_answers i) i of (r, i) \<Rightarrow> (r, v\<lparr>vs_inner := i\<rparr>))
         | (r, i) \<Rightarrow> (r, v\<lparr>vs_inner := i\<rparr>))"
  by (auto simp: write_first_def first_frame_def Let_def
      split: prod.splits if_splits poll.splits sum.splits)

lemma write_first_on_script:
  assumes "write_first_on script_ops rr header payload v = Some (r, v')"
  shows "write_first rr header payload v = (Ready r, v')"
proof -
  obtain frame p ts g where fr: "first_frame rr payload v = (frame, p, ts, g)" by (metis prod_cases4)
  show ?thesis
    using assms by (auto simp: write_first_as_frame [OF fr] write_first_on_eq [OF fr] Let_def
        dest!: write_all_on_script flush_all_on_script split: option.splits sum.splits)
qed

lemma step_on_script: "step_on script_ops rr s e = Some (vision_step rr s e)"
proof -
  obtain v sent out ok where "s = (v, sent, out, ok)" by (cases s)
  then show ?thesis
    by (cases e) (simp_all add: write_on_script flush_on_script shutdown_on_script read_on_script
        split: prod.splits)
qed

lemma session_on_script: "session_on script_ops rr s es = Some (run (vision_step rr) s es)"
  by (induction es arbitrary: s) (simp_all add: step_on_script)

section \<open>The script of a trace\<close>

fun rd_event_of :: "rd_result \<Rightarrow> rd_event" where
  "rd_event_of (Ready (Inr d)) = Chunk d"
| "rd_event_of (Ready (Inl e)) = Broken e"
| "rd_event_of Pending = Stall"

fun wr_answer_of :: "(io_error + nat) poll \<Rightarrow> wr_answer" where
  "wr_answer_of (Ready (Inr n)) = Accept n"
| "wr_answer_of (Ready (Inl e)) = Fail e"
| "wr_answer_of Pending = Wait"

definition ctl_answer_of :: "(io_error + unit) poll \<Rightarrow> wr_answer" where
  "ctl_answer_of r = (case r of Ready (Inr _) \<Rightarrow> Accept 0 | Ready (Inl e) \<Rightarrow> Fail e | Pending \<Rightarrow> Wait)"

fun tls_events :: "stream_call list \<Rightarrow> rd_event list" where
  "tls_events [] = []"
| "tls_events (CRead cap r # tr) = rd_event_of r # tls_events tr"
| "tls_events (_ # tr) = tls_events tr"

fun raw_events :: "stream_call list \<Rightarrow> rd_event list" where
  "raw_events [] = []"
| "raw_events (CReadDirect cap r # tr) = rd_event_of r # raw_events tr"
| "raw_events (_ # tr) = raw_events tr"

fun held_taken :: "stream_call list \<Rightarrow> bytes list" where
  "held_taken [] = []"
| "held_taken (CTake b # tr) = b # held_taken tr"
| "held_taken (_ # tr) = held_taken tr"

fun wr_answers :: "stream_call list \<Rightarrow> wr_answer list" where
  "wr_answers [] = []"
| "wr_answers (CWrite d r # tr) = wr_answer_of r # wr_answers tr"
| "wr_answers (CWriteDirect d r # tr) = wr_answer_of r # wr_answers tr"
| "wr_answers (CFlush q # tr) = ctl_answer_of q # wr_answers tr"
| "wr_answers (CFlushDirect q # tr) = ctl_answer_of q # wr_answers tr"
| "wr_answers (CShutdown q # tr) = ctl_answer_of q # wr_answers tr"
| "wr_answers (CShutdownDirect q # tr) = ctl_answer_of q # wr_answers tr"
| "wr_answers (_ # tr) = wr_answers tr"

text \<open>The calls as the scripted stream logs them.\<close>

fun wr_log :: "stream_call list \<Rightarrow> wr_call list" where
  "wr_log [] = []"
| "wr_log (CWrite d r # tr) = TlsWrite (taken d r) # wr_log tr"
| "wr_log (CWriteDirect d r # tr) = RawWrite (taken d r) # wr_log tr"
| "wr_log (CFlush q # tr) = TlsFlush (q = Ready (Inr ())) # wr_log tr"
| "wr_log (CFlushDirect q # tr) = RawFlush (q = Ready (Inr ())) # wr_log tr"
| "wr_log (CShutdown q # tr) = TlsShutdown (q = Ready (Inr ())) # wr_log tr"
| "wr_log (CShutdownDirect q # tr) = RawShutdown (q = Ready (Inr ())) # wr_log tr"
| "wr_log (_ # tr) = wr_log tr"

fun rd_log :: "stream_call list \<Rightarrow> rd_call list" where
  "rd_log [] = []"
| "rd_log (COpen # tr) = GateOpened # rd_log tr"
| "rd_log (CStop # tr) = GateStopped # rd_log tr"
| "rd_log (CRead cap r # tr) = TlsRead (got r) # rd_log tr"
| "rd_log (CTake b # tr) = HeldTaken # rd_log tr"
| "rd_log (CReadDirect cap r # tr) = RawRead # rd_log tr"
| "rd_log (_ # tr) = rd_log tr"

text \<open>An inner stream that answers as in the trace.\<close>

definition script_for :: "stream_call list \<Rightarrow> bytes \<Rightarrow> wr_call list \<Rightarrow> rd_call list \<Rightarrow> inner" where
  "script_for tr h l rl =
     \<lparr>i_answers = wr_answers tr, i_log = l, i_tls = tls_events tr,
      i_held = (case held_taken tr of [] \<Rightarrow> h | b # _ \<Rightarrow> b), i_raw = raw_events tr, i_rlog = rl\<rparr>"

fun within_bounds :: "stream_call \<Rightarrow> bool" where
  "within_bounds (CRead cap r) \<longleftrightarrow> length (got r) \<le> cap"
| "within_bounds (CReadDirect cap r) \<longleftrightarrow> length (got r) \<le> cap"
| "within_bounds (CWrite d r) \<longleftrightarrow> (\<forall>n. r = Ready (Inr n) \<longrightarrow> n \<le> length d)"
| "within_bounds (CWriteDirect d r) \<longleftrightarrow> (\<forall>n. r = Ready (Inr n) \<longrightarrow> n \<le> length d)"
| "within_bounds _ \<longleftrightarrow> True"

context direct_stream
begin

lemma call_within: "does S i c j \<Longrightarrow> within_bounds c"
  using read_fits [of _ i] direct_fits [of _ i] write_fits [of _ i] write_direct_fits [of _ i]
  by (cases c) (auto, (metis fst_conv)+)

lemma trace_within: "trace S i tr j \<Longrightarrow> list_all within_bounds tr"
proof (induction rule: trace.induct)
  case (trace_Cons i c j tr k)
  then show ?case by (simp add: call_within)
qed simp

end

lemma src_read_event:
  "length (got r) \<le> cap \<Longrightarrow> src_read cap (rd_event_of r # s) = (r, s)"
  by (cases r rule: rd_event_of.cases) auto

lemma call_write_answer:
  "\<forall>n. r = Ready (Inr n) \<longrightarrow> n \<le> length d \<Longrightarrow> i_answers i = wr_answer_of r # as \<Longrightarrow>
     call_write mk d i = (r, i\<lparr>i_answers := as, i_log := i_log i @ [mk (taken d r)]\<rparr>)"
  by (cases r rule: wr_answer_of.cases) (auto simp: call_write_def)

lemma call_ctl_answer:
  "i_answers i = ctl_answer_of q # as \<Longrightarrow>
     call_ctl mk i = (q, i\<lparr>i_answers := as, i_log := i_log i @ [mk (q = Ready (Inr ()))]\<rparr>)"
  by (auto simp: call_ctl_def ctl_answer_of_def split: poll.splits sum.splits)

lemma script_step:
  assumes "within_bounds c" and "held_taken [c] = [] \<or> held_taken tr = []"
  shows "does script_ops (script_for (c # tr) h l rl) c
    (script_for tr (if held_taken [c] = [] then h else []) (l @ wr_log [c]) (rl @ rd_log [c]))"
  using assms
  by (cases c) (simp_all add: script_for_def tls_read_def raw_read_def src_read_event
      open_record_gate_def stop_record_gate_def take_buffered_raw_def call_write_answer call_ctl_answer)

lemma at_most_one: "length xs + length ys \<le> 1 \<Longrightarrow> xs = [] \<or> ys = []"
  by (cases xs; cases ys) auto

lemma script_trace:
  "list_all within_bounds tr \<Longrightarrow> length (held_taken tr) \<le> 1 \<Longrightarrow>
     trace script_ops (script_for tr h l rl) tr
       (script_for [] (if held_taken tr = [] then h else []) (l @ wr_log tr) (rl @ rd_log tr))"
proof (induction tr arbitrary: h l rl)
  case Nil
  show ?case by (simp add: trace_simps)
next
  case (Cons c tr)
  have eq: "held_taken (c # tr) = held_taken [c] @ held_taken tr" "wr_log (c # tr) = wr_log [c] @ wr_log tr"
    "rd_log (c # tr) = rd_log [c] @ rd_log tr"
    by (cases c; simp)+
  have "length (held_taken [c]) + length (held_taken tr) \<le> 1"
    using Cons.prems(2) by (subst (asm) eq(1)) simp
  then have "held_taken [c] = [] \<or> held_taken tr = []" "length (held_taken tr) \<le> 1" "within_bounds c"
    using Cons.prems(1) at_most_one [of "held_taken [c]" "held_taken tr"] by simp_all
  note IH = Cons.IH [OF _ this(2), of "if held_taken [c] = [] then h else []" "l @ wr_log [c]" "rl @ rd_log [c]"]
  have "script_for [] (if held_taken (c # tr) = [] then h else []) (l @ wr_log (c # tr)) (rl @ rd_log (c # tr))
      = script_for [] (if held_taken tr = [] then if held_taken [c] = [] then h else [] else [])
          ((l @ wr_log [c]) @ wr_log tr) ((rl @ rd_log [c]) @ rd_log tr)"
    by (subst eq(1), subst eq(2), subst eq(3)) simp
  moreover have "does script_ops (script_for (c # tr) h l rl) c
      (script_for tr (if held_taken [c] = [] then h else []) (l @ wr_log [c]) (rl @ rd_log [c]))"
    using script_step \<open>held_taken [c] = [] \<or> held_taken tr = []\<close> \<open>within_bounds c\<close> by blast
  ultimately show ?case using IH Cons.prems(1) by (auto simp only: trace_simps list.pred_inject)
qed

lemma phases_held:
  "phases p tr = Some q \<Longrightarrow>
     length (held_taken tr) + (if p = Around then 1 else 0) = (if q = Around then 1 else 0)"
proof (induction tr arbitrary: p)
  case (Cons c tr)
  then show ?case by (cases c) (fastforce split: if_splits Option.bind_splits)+
qed simp

lemma script_ops_contract: "io_contract script_ops"
proof -
  have "length (got (fst (tls_read cap i))) \<le> cap" "length (got (fst (raw_read cap i))) \<le> cap" for cap i
    using src_read_cap [of cap "i_tls i"] src_read_cap [of cap "i_raw i"]
    by (auto simp: tls_read_def raw_read_def split: prod.splits)
  moreover have "fst (call_write mk d i) = Ready (Inr n) \<Longrightarrow> n \<le> length d" for mk d i n
    by (auto simp: call_write_def split: list.splits wr_answer.splits)
  ultimately show ?thesis by (auto simp: io_contract_def)
qed

section \<open>Every run is a scripted run\<close>

context direct_stream
begin

lemma any_session:
  assumes "write_first_on S rr header payload (vision_client x uuid r) = Some (Inr (), v0)"
    and "session_on S rr (v0, payload, [], True) es = Some (v, sent, out, ok)"
  obtains tr q w0 where "trace S x tr (vs_inner v)" "phases Padded tr = Some q" "in_phase q v"
    "write_first rr header payload (vision_client (script_for tr [] [] []) uuid r) = (Ready (Inr ()), w0)"
    "run (vision_step rr) (w0, payload, [], True) es
      = (over (script_for [] [] (wr_log tr) (rd_log tr)) v, sent, out, ok)"
    "length (held_taken tr) \<le> 1"
proof -
  let ?v = "vision_client x uuid r"
  obtain tr1 where t1: "mirrors S script_ops ?v tr1 v0 (write_first_on script_ops rr header payload) (\<lambda>y. Some (Inr (), y))"
    "writes_only tr1" "vs_unpadder v0 = vs_unpadder ?v"
    using write_first_mirrors [OF assms(1), of script_ops] by blast
  have p0: "in_phase Padded v0" "phases Padded tr1 = Some Padded"
    using t1(2,3) by (simp_all add: in_phase_def phases_writes vision_client_def vision_new_def
        unpadder_new_def is_direct_def is_done_def)
  obtain tr2 q where t2: "mirrors S script_ops v0 tr2 v
      (\<lambda>y. session_on script_ops rr (y, payload, [], True) es) (\<lambda>y. Some (y, sent, out, ok))"
    "phases Padded tr2 = Some q" "in_phase q v"
    using session_mirrors [OF assms(2) p0(1), of script_ops] by blast
  let ?tr = "tr1 @ tr2"
  have ph: "phases Padded ?tr = Some q" by (simp add: phases_append p0 t2)
  have tr: "trace S x ?tr (vs_inner v)"
    using t1(1) t2(1) by (auto simp: mirrors_def trace_append vision_client_def vision_new_def)
  have held: "length (held_taken ?tr) \<le> 1" using phases_held [OF ph] by (simp split: if_splits)
  let ?fin = "script_for [] [] (wr_log ?tr) (rd_log ?tr)"
  have "trace script_ops (script_for ?tr [] [] []) ?tr ?fin"
    using script_trace [OF trace_within [OF tr] held, of "[]" "[]" "[]"] by (simp cong: if_cong)
  then obtain j where j: "trace script_ops (script_for ?tr [] [] []) tr1 j" "trace script_ops j tr2 ?fin"
    by (auto simp: trace_append)
  have "write_first_on script_ops rr header payload (vision_client (script_for ?tr [] [] []) uuid r)
      = Some (Inr (), over j v0)"
    using t1(1) j(1) by (simp add: mirrors_def)
  from write_first_on_script [OF this]
  have w: "write_first rr header payload (vision_client (script_for ?tr [] [] []) uuid r)
      = (Ready (Inr ()), over j v0)" .
  have "session_on script_ops rr (over j v0, payload, [], True) es = Some (over ?fin v, sent, out, ok)"
    using t2(1) j(2) by (simp add: mirrors_def)
  then have "run (vision_step rr) (over j v0, payload, [], True) es = (over ?fin v, sent, out, ok)"
    by (simp add: session_on_script)
  from that [OF tr ph t2(3) w this held] show thesis .
qed

text \<open>What the invariants of the scripted stream say of any stream.\<close>

lemma any_session_facts:
  assumes "length uuid = 16"
    and "write_first_on S rr header payload (vision_client x uuid r) = Some (Inr (), v0)"
    and "session_on S rr (v0, payload, [], True) es = Some (v, sent, out, ok)"
  obtains tr q where "trace S x tr (vs_inner v)" "phases Padded tr = Some q" "in_phase q v"
    "calls_ordered (vs_uplink_raw v) (wr_log tr)" "reads_ordered (is_direct (vs_unpadder v)) (rd_log tr)"
    "gate_used (rd_log tr)"
    "ok \<Longrightarrow> up_inv uuid header sent (over (script_for [] [] (wr_log tr) (rd_log tr)) v)"
    "ok \<Longrightarrow> down_at (tls_got (rd_log tr)) (concat (held_taken tr)) (content (raw_events tr))
       (over (script_for [] [] (wr_log tr) (rd_log tr)) v) out"
    "ok \<Longrightarrow> is_direct (vs_unpadder v) \<longrightarrow> switch_point (rd_log tr)"
proof -
  obtain tr q w0 where t: "trace S x tr (vs_inner v)" "phases Padded tr = Some q" "in_phase q v"
    "write_first rr header payload (vision_client (script_for tr [] [] []) uuid r) = (Ready (Inr ()), w0)"
    "run (vision_step rr) (w0, payload, [], True) es
      = (over (script_for [] [] (wr_log tr) (rd_log tr)) v, sent, out, ok)"
    "length (held_taken tr) \<le> 1"
    by (rule any_session [OF assms(2,3)])
  let ?i = "script_for [] [] (wr_log tr) (rd_log tr)" and ?start = "script_for tr [] [] []"
  have i0: "i_log ?start = []" "i_rlog ?start = []" "i_held ?start = concat (held_taken tr)" "i_raw ?start = raw_events tr"
    using t(6) by (auto simp: script_for_def split: list.splits)
  have i: "i_log ?i = wr_log tr" "i_rlog ?i = rd_log tr" by (simp_all add: script_for_def)
  have inv: "vision_inv uuid header (content (i_tls ?start)) (i_held ?start) (content (i_raw ?start))
      (over ?i v, sent, out, ok)"
    using vision.run_inv [OF write_first_inv [OF t(4) i0(1,2) assms(1)], of rr es] by (simp only: t(5))
  from inv obtain s where "rd_inv (over ?i v)" and up: "up_inv uuid header s (over ?i v)"
    and ok: "ok \<Longrightarrow> up_inv uuid header sent (over ?i v)"
      "ok \<Longrightarrow> down_inv (content (i_tls ?start)) (i_held ?start) (content (i_raw ?start)) out (over ?i v)"
    by (auto simp: vision_inv_def)
  from this(1) have rd: "reads_ordered (is_direct (vs_unpadder v)) (rd_log tr)" "gate_used (rd_log tr)"
    by (simp_all add: rd_inv_def i Let_def)
  have wr: "calls_ordered (vs_uplink_raw v) (wr_log tr)" using up by (simp add: up_inv_def Let_def i)
  show thesis
    by (rule that [OF t(1-3) wr rd ok(1)]) (use ok(2) in \<open>simp_all add: down_inv_def Let_def i i0\<close>)
qed

end

interpretation scripted: direct_stream script_ops
  by (simp add: direct_stream_iff script_ops_contract)

text \<open>For use outside the interface.\<close>

lemmas any_session_of = direct_stream.any_session [OF direct_stream_iff [THEN iffD2]]
lemmas any_session_facts_of = direct_stream.any_session_facts [OF direct_stream_iff [THEN iffD2]]

text \<open>Where the scripted calls return, so do those over the script.\<close>

lemma write_all_on_script_conv:
  "write_all_loop as d i = (Ready x, j) \<Longrightarrow> write_all_on script_ops d (i\<lparr>i_answers := as\<rparr>) = Some (x, j)"
proof (induction as d i rule: write_all_loop.induct)
  case (5 n as y ys i)
  let ?d = "y # ys"
  define m where "m = min n (length ?d)"
  let ?i = "i\<lparr>i_log := i_log i @ [TlsWrite (take n ?d)]\<rparr>"
  have c: "call_write TlsWrite ?d (i\<lparr>i_answers := Accept n # as\<rparr>) = (Ready (Inr m), ?i\<lparr>i_answers := as\<rparr>)"
    by (simp add: call_write_def m_def)
  show ?case
  proof (cases "n = 0")
    case True
    with 5(2) c show ?thesis by (auto simp: write_all_on.simps Let_def m_def)
  next
    case False
    then have m: "m \<noteq> 0" "drop m ?d = drop n ?d" by (simp_all add: m_def min_def)
    have "write_all_on script_ops (drop n ?d) (?i\<lparr>i_answers := as\<rparr>) = Some (x, j)"
      using 5 False by (simp add: Let_def)
    with m c show ?thesis by (subst write_all_on.simps) simp
  qed
next
  case (3 as y ys i)
  have c: "call_write TlsWrite (y # ys) (i\<lparr>i_answers := Wait # as\<rparr>)
      = (Pending, (i\<lparr>i_log := i_log i @ [TlsWrite []]\<rparr>)\<lparr>i_answers := as\<rparr>)"
    by (simp add: call_write_def)
  from 3 show ?case by (subst write_all_on.simps) (simp only: script_ops_simps c, simp)
next
  case (4 e as y ys i)
  have "call_write TlsWrite (y # ys) (i\<lparr>i_answers := Fail e # as\<rparr>)
      = (Ready (Inl e), i\<lparr>i_answers := as, i_log := i_log i @ [TlsWrite []]\<rparr>)"
    by (simp add: call_write_def)
  with 4 show ?case by (subst write_all_on.simps) simp
next
  case (1 as i)
  then show ?case by (subst write_all_on.simps) simp
next
  case (2 y ys i)
  then show ?case by simp
qed

lemma flush_all_on_script_conv:
  "flush_loop as i = (Ready x, j) \<Longrightarrow> flush_all_on script_ops (i\<lparr>i_answers := as\<rparr>) = Some (x, j)"
proof (induction as i rule: flush_loop.induct)
  case (2 as i)
  have c: "call_ctl TlsFlush (i\<lparr>i_answers := Wait # as\<rparr>)
      = (Pending, (i\<lparr>i_log := i_log i @ [TlsFlush False]\<rparr>)\<lparr>i_answers := as\<rparr>)"
    by (simp add: call_ctl_def)
  from 2 show ?case by (subst flush_all_on.simps) (simp only: script_ops_simps c, simp)
next
  case (3 e as i)
  have "call_ctl TlsFlush (i\<lparr>i_answers := Fail e # as\<rparr>)
      = (Ready (Inl e), i\<lparr>i_answers := as, i_log := i_log i @ [TlsFlush False]\<rparr>)"
    by (simp add: call_ctl_def)
  with 3 show ?case by (subst flush_all_on.simps) simp
next
  case (4 n as i)
  have "call_ctl TlsFlush (i\<lparr>i_answers := Accept n # as\<rparr>)
      = (Ready (Inr ()), i\<lparr>i_answers := as, i_log := i_log i @ [TlsFlush True]\<rparr>)"
    by (simp add: call_ctl_def)
  with 4 show ?case by (subst flush_all_on.simps) simp
next
  case (1 i)
  then show ?case by simp
qed

lemma write_first_on_script_conv:
  assumes "write_first rr header payload v = (Ready r, v')"
  shows "write_first_on script_ops rr header payload v = Some (r, v')"
proof -
  obtain frame p ts g where fr: "first_frame rr payload v = (frame, p, ts, g)" by (metis prod_cases4)
  let ?v = "v\<lparr>vs_padder := p, vs_traffic := ts, vs_rng := g\<rparr>"
  have wa: "write_all_loop (i_answers (vs_inner v)) d (vs_inner v) = (Ready x, j) \<Longrightarrow>
      write_all_on script_ops d (vs_inner v) = Some (x, j)" for d x j
    using write_all_on_script_conv [of "i_answers (vs_inner v)" d "vs_inner v" x j] by simp
  have fa: "flush_loop (i_answers i) i = (Ready x, j) \<Longrightarrow> flush_all_on script_ops i = Some (x, j)" for i x j
    using flush_all_on_script_conv [of "i_answers i" i x j] by simp
  show ?thesis
    using assms by (auto simp: write_first_as_frame [OF fr] write_first_on_eq [OF fr] Let_def
        dest!: wa fa split: prod.splits poll.splits sum.splits)
qed

lemma sample_any:
  "write_first_on script_ops sample_rng [9] [5] (vision_client sample_inner sample_uuid ())
     = Some (Inr (), snd sample_first)"
  "session_on script_ops sample_rng (snd sample_first, [5], [], True) [OpWrite [1, 2], OpFlush]
     = Some (fst sample_run, [5, 1, 2], [], True)"
proof -
  have "write_first sample_rng [9] [5] (vision_client sample_inner sample_uuid ()) = sample_first"
    unfolding sample_first_def ..
  moreover have "sample_first = (Ready (Inr ()), snd sample_first)"
    using sample_first_ok by (metis prod.collapse)
  ultimately show "write_first_on script_ops sample_rng [9] [5] (vision_client sample_inner sample_uuid ())
     = Some (Inr (), snd sample_first)"
    by (intro write_first_on_script_conv) (simp only:)
  have "sample_run = (fst sample_run, [5, 1, 2], [], True)"
    using sample_run_ok by (metis prod.collapse)
  then show "session_on script_ops sample_rng (snd sample_first, [5], [], True) [OpWrite [1, 2], OpFlush]
     = Some (fst sample_run, [5, 1, 2], [], True)"
    unfolding session_on_script sample_run_def [symmetric] by simp
qed

section \<open>Properties\<close>

text \<open>
  \<^verbatim>\<open>VisionStream\<close> depends on the stream below through its answers only: whatever the stream
  \<open>S\<close> is, a session over it is, call by call, the session over a script of the answers \<open>S\<close> gave, with
  the same results and the same state. So the scripted model covers TLS over the record gate,
  a plain stream, and every other stream.
\<close>

theorem stream_over_any:
  assumes "io_contract S"
    and "write_first_on S rr header payload (vision_client x uuid r) = Some (Inr (), v0)"
    and "session_on S rr (v0, payload, [], True) es = Some (v, sent, out, ok)"
  shows "\<exists>tr w0. trace S x tr (vs_inner v) \<and>
    write_first rr header payload (vision_client (script_for tr [] [] []) uuid r) = (Ready (Inr ()), w0) \<and>
    run (vision_step rr) (w0, payload, [], True) es
      = (over (script_for [] [] (wr_log tr) (rd_log tr)) v, sent, out, ok)"
  by (rule any_session_of [OF assms]) blast

text \<open>
  C10: The switches keep their order, whatever is called in whatever order and however the inner
  stream answers, errors included. On the write side no byte goes around TLS before a
  flush of TLS has completed behind everything written to it, and afterwards TLS is neither
  written nor flushed nor shut down again. On the read side the held bytes are taken once,
  before the socket is read directly, and TLS is not read afterwards; while the record gate
  is in use, every read of TLS directly follows an opening of the gate.
\<close>

theorem stream_calls_ordered:
  assumes "io_contract S" and "length uuid = 16"
    and "write_first_on S rr header payload (vision_client x uuid r) = Some (Inr (), v0)"
    and "session_on S rr (v0, payload, [], True) es = Some (v, sent, out, ok)"
  shows "\<exists>tr. trace S x tr (vs_inner v) \<and> calls_ordered (vs_uplink_raw v) (wr_log tr) \<and>
    reads_ordered (is_direct (vs_unpadder v)) (rd_log tr) \<and> gate_used (rd_log tr)"
  by (rule any_session_facts_of [OF assms]) blast

theorem stream_calls_ordered_witness:
  "\<exists>tr. trace script_ops sample_inner tr (vs_inner (fst sample_run)) \<and> gate_used (rd_log tr)"
  using stream_calls_ordered [OF script_ops_contract _ sample_any] by (auto simp: sample_uuid_def)

text \<open>
  C8: The uplink arrives, over any stream. As long as no call failed, what went through TLS, with
  what is still pending, is the VLESS header and then frames; they deframe at the peer, with
  nothing left over, to bytes that together with those written around TLS are exactly the
  bytes reported as written, in order. The peer has seen the switch exactly if the padder
  wants it, and nothing is pending once the uplink is raw.
\<close>

theorem stream_uplink:
  assumes "io_contract S" and "length uuid = 16"
    and "write_first_on S rr header payload (vision_client x uuid r) = Some (Inr (), v0)"
    and "session_on S rr (v0, payload, [], True) es = Some (v, sent, out, True)"
  shows "\<exists>tr frames u s. trace S x tr (vs_inner v) \<and>
    tls_bytes (wr_log tr) @ vs_write_pending v = header @ frames \<and>
    unpad unpadder_new frames [] = (Inr (), u, [], s) \<and> s @ raw_bytes (wr_log tr) = sent \<and>
    is_direct u = wants_direct (vs_padder v) \<and> (vs_uplink_raw v \<longrightarrow> vs_write_pending v = [])"
proof (rule any_session_facts_of [OF assms])
  fix tr
  assume tr: "trace S x tr (vs_inner v)"
    and up: "True \<Longrightarrow> up_inv uuid header sent (over (script_for [] [] (wr_log tr) (rd_log tr)) v)"
  from up_inv_peer [OF up] tr show ?thesis by (auto simp: script_for_def)
qed

theorem stream_uplink_witness:
  "\<exists>tr frames u s. trace script_ops sample_inner tr (vs_inner (fst sample_run)) \<and>
    unpad unpadder_new frames [] = (Inr (), u, [], s) \<and> s @ raw_bytes (wr_log tr) = [5, 1, 2]"
  using stream_uplink [OF script_ops_contract _ sample_any] by (auto simp: sample_uuid_def)

text \<open>
  C9: The downlink is delivered, over any stream. As long as no call failed, the plaintext taken
  from TLS determines what the application got: nothing while the response header is
  incomplete, and then exactly what the bytes behind the header deframe to, followed, once the
  peer has switched, by the bytes the gate held and those of the socket - in order, with nothing
  lost but bytes still waiting in the stream's buffers. And the held bytes are taken at once:
  directly behind the read of TLS that completed the frame with the switch.
\<close>

theorem stream_downlink:
  assumes "io_contract S" and "length uuid = 16"
    and "write_first_on S rr header payload (vision_client x uuid r) = Some (Inr (), v0)"
    and "session_on S rr (v0, payload, [], True) es = Some (v, sent, out, True)"
  shows "\<exists>tr. trace S x tr (vs_inner v) \<and>
    (case feed response_header_new (tls_got (rd_log tr)) of
       (Inr True, h, X) \<Rightarrow>
         (case unpad unpadder_new X [] of (res, u, rest, s) \<Rightarrow> res = Inr () \<and>
           out @ vs_read_out v =
             (if is_direct u then s @ concat (held_taken tr) @ content (raw_events tr) else s))
     | _ \<Rightarrow> out = []) \<and>
    (turns_direct (tls_got (rd_log tr)) \<longrightarrow> switch_point (rd_log tr))"
proof (rule any_session_facts_of [OF assms])
  fix tr
  let ?P = "tls_got (rd_log tr)"
  assume tr: "trace S x tr (vs_inner v)"
    and down: "True \<Longrightarrow> down_at ?P (concat (held_taken tr)) (content (raw_events tr))
       (over (script_for [] [] (wr_log tr) (rd_log tr)) v) out"
    and sw: "True \<Longrightarrow> is_direct (vs_unpadder v) \<longrightarrow> switch_point (rd_log tr)"
  have "turns_direct ?P \<longleftrightarrow> is_direct (vs_unpadder v)" using down_at_direct [OF down] by simp
  with sw tr down show ?thesis
    by (intro exI [of _ tr])
      (cases "rh_done (vs_header v)"; auto simp: down_at_def Let_def script_for_def)
qed

theorem stream_downlink_witness:
  "\<exists>tr. trace script_ops sample_inner tr (vs_inner (fst sample_run)) \<and>
    (turns_direct (tls_got (rd_log tr)) \<longrightarrow> switch_point (rd_log tr))"
  using stream_downlink [OF script_ops_contract _ sample_any] by (auto simp: sample_uuid_def)

end
