(* ===== verification/GatedTls.thy ===== *)
theory GatedTls
  imports AnyScript
begin

text \<open>
  The stream of the production path, \<^verbatim>\<open>TlsStream<RecordGate<TcpStream>>\<close> of
  \<^verbatim>\<open>src/outbound/record_gate.rs\<close>: the gate with both halves of the socket, the operations of
  \<^verbatim>\<open>DirectSwitch\<close> on it, and what TLS promises. TLS itself is a parameter with named laws.
\<close>

section \<open>The socket and the gate around it\<close>

text \<open>
  The write half of the socket: how its coming calls are answered, what it took, whether it
  was shut down. Its read half is the script in the gate.
\<close>

record wr_half =
  wh_answers :: "wr_answer list"
  wh_sent :: bytes
  wh_shut :: bool

definition sock_write :: "bytes \<Rightarrow> wr_half \<Rightarrow> (io_error + nat) poll \<times> wr_half" where
  "sock_write d w =
     (case wh_answers w of
        Accept n # a \<Rightarrow> (Ready (Inr (min n (length d))), w\<lparr>wh_answers := a, wh_sent := wh_sent w @ take n d\<rparr>)
      | Fail e # a \<Rightarrow> (Ready (Inl e), w\<lparr>wh_answers := a\<rparr>)
      | Wait # a \<Rightarrow> (Pending, w\<lparr>wh_answers := a\<rparr>)
      | [] \<Rightarrow> (Pending, w))"

definition sock_flush :: "wr_half \<Rightarrow> (io_error + unit) poll \<times> wr_half" where
  "sock_flush w =
     (case wh_answers w of
        Accept n # a \<Rightarrow> (Ready (Inr ()), w\<lparr>wh_answers := a\<rparr>)
      | Fail e # a \<Rightarrow> (Ready (Inl e), w\<lparr>wh_answers := a\<rparr>)
      | Wait # a \<Rightarrow> (Pending, w\<lparr>wh_answers := a\<rparr>)
      | [] \<Rightarrow> (Pending, w))"

definition sock_shutdown :: "wr_half \<Rightarrow> (io_error + unit) poll \<times> wr_half" where
  "sock_shutdown w = (case sock_flush w of (r, w) \<Rightarrow> (r, if r = Ready (Inr ()) then w\<lparr>wh_shut := True\<rparr> else w))"

text \<open>\<^verbatim>\<open>RecordGate<S>\<close> with both halves; \<^verbatim>\<open>AsyncWrite\<close> passes through.\<close>

record gated_socket =
  gs_gate :: record_gate
  gs_out :: wr_half

definition gate_poll_write :: "bytes \<Rightarrow> gated_socket \<Rightarrow> (io_error + nat) poll \<times> gated_socket" where
  "gate_poll_write d g = (case sock_write d (gs_out g) of (r, w) \<Rightarrow> (r, g\<lparr>gs_out := w\<rparr>))"

definition gate_poll_flush :: "gated_socket \<Rightarrow> (io_error + unit) poll \<times> gated_socket" where
  "gate_poll_flush g = (case sock_flush (gs_out g) of (r, w) \<Rightarrow> (r, g\<lparr>gs_out := w\<rparr>))"

definition gate_poll_shutdown :: "gated_socket \<Rightarrow> (io_error + unit) poll \<times> gated_socket" where
  "gate_poll_shutdown g = (case sock_shutdown (gs_out g) of (r, w) \<Rightarrow> (r, g\<lparr>gs_out := w\<rparr>))"

section \<open>The TLS stream\<close>

text \<open>
  tokio-rustls is not part of the sources: the polls of its stream over a \<^verbatim>\<open>RecordGate\<close> are
  parameters, functions of the state of the session and of the gate.
\<close>

record 't tls_lib =
  tl_read :: "nat \<Rightarrow> 't \<Rightarrow> gated_socket \<Rightarrow> rd_result \<times> 't \<times> gated_socket"
  tl_write :: "bytes \<Rightarrow> 't \<Rightarrow> gated_socket \<Rightarrow> (io_error + nat) poll \<times> 't \<times> gated_socket"
  tl_flush :: "'t \<Rightarrow> gated_socket \<Rightarrow> (io_error + unit) poll \<times> 't \<times> gated_socket"
  tl_shutdown :: "'t \<Rightarrow> gated_socket \<Rightarrow> (io_error + unit) poll \<times> 't \<times> gated_socket"

record 't tls_stream =
  ts_conn :: 't
  ts_io :: gated_socket

definition through_tls :: "('t \<Rightarrow> gated_socket \<Rightarrow> 'a \<times> 't \<times> gated_socket) \<Rightarrow> 't tls_stream \<Rightarrow> 'a \<times> 't tls_stream" where
  "through_tls f s = (case f (ts_conn s) (ts_io s) of (r, t, g) \<Rightarrow> (r, \<lparr>ts_conn = t, ts_io = g\<rparr>))"

text \<open>\<^verbatim>\<open>impl DirectSwitch for TlsStream<RecordGate<S>>\<close>.\<close>

definition on_gate :: "(record_gate \<Rightarrow> record_gate) \<Rightarrow> 't tls_stream \<Rightarrow> 't tls_stream" where
  "on_gate f s = s\<lparr>ts_io := (ts_io s)\<lparr>gs_gate := f (gs_gate (ts_io s))\<rparr>\<rparr>"

definition tls_open_record_gate :: "'t tls_stream \<Rightarrow> 't tls_stream" where
  "tls_open_record_gate s = on_gate gate_do_open s"

definition tls_stop_record_gate :: "'t tls_stream \<Rightarrow> 't tls_stream" where
  "tls_stop_record_gate s = on_gate stop_gating s"

definition tls_take_buffered_raw :: "'t tls_stream \<Rightarrow> bytes \<times> 't tls_stream" where
  "tls_take_buffered_raw s = (case take_buffered (gs_gate (ts_io s)) of (b, g) \<Rightarrow> (b, on_gate (\<lambda>_. g) s))"

definition tls_read_direct :: "nat \<Rightarrow> 't tls_stream \<Rightarrow> rd_result \<times> 't tls_stream" where
  "tls_read_direct cap s = (case gate_read_direct cap (gs_gate (ts_io s)) of (r, g) \<Rightarrow> (r, on_gate (\<lambda>_. g) s))"

definition tls_write_direct :: "bytes \<Rightarrow> 't tls_stream \<Rightarrow> (io_error + nat) poll \<times> 't tls_stream" where
  "tls_write_direct d s =
     (case sock_write d (gs_out (ts_io s)) of (r, w) \<Rightarrow> (r, s\<lparr>ts_io := (ts_io s)\<lparr>gs_out := w\<rparr>\<rparr>))"

definition tls_flush_direct :: "'t tls_stream \<Rightarrow> (io_error + unit) poll \<times> 't tls_stream" where
  "tls_flush_direct s =
     (case sock_flush (gs_out (ts_io s)) of (r, w) \<Rightarrow> (r, s\<lparr>ts_io := (ts_io s)\<lparr>gs_out := w\<rparr>\<rparr>))"

definition tls_shutdown_direct :: "'t tls_stream \<Rightarrow> (io_error + unit) poll \<times> 't tls_stream" where
  "tls_shutdown_direct s =
     (case sock_shutdown (gs_out (ts_io s)) of (r, w) \<Rightarrow> (r, s\<lparr>ts_io := (ts_io s)\<lparr>gs_out := w\<rparr>\<rparr>))"

definition tls_ops :: "'t tls_lib \<Rightarrow> 't tls_stream stream_ops" where
  "tls_ops L =
     \<lparr>so_read = (\<lambda>cap. through_tls (tl_read L cap)), so_write = (\<lambda>d. through_tls (tl_write L d)),
      so_flush = through_tls (tl_flush L), so_shutdown = through_tls (tl_shutdown L),
      so_open = tls_open_record_gate, so_stop = tls_stop_record_gate, so_take = tls_take_buffered_raw,
      so_read_direct = tls_read_direct, so_write_direct = tls_write_direct,
      so_flush_direct = tls_flush_direct, so_shutdown_direct = tls_shutdown_direct\<rparr>"

text \<open>\<^verbatim>\<open>tls.get_mut().0.start_gating()\<close> of \<^verbatim>\<open>open\<close>, once the handshake is over.\<close>

definition start_gated :: "'t tls_stream \<Rightarrow> 't tls_stream" where
  "start_gated s = on_gate start_gating s"

text \<open>
  \<^verbatim>\<open>impl DirectSwitch for DuplexStream\<close>: no TLS below, so there is no gate to open or to stop
  and nothing is held, and around TLS is the stream itself.
\<close>

record duplex =
  dx_in :: "rd_event list"
  dx_out :: wr_half

definition duplex_read :: "nat \<Rightarrow> duplex \<Rightarrow> rd_result \<times> duplex" where
  "duplex_read cap s = (case src_read cap (dx_in s) of (r, i) \<Rightarrow> (r, s\<lparr>dx_in := i\<rparr>))"

definition duplex_put :: "(wr_half \<Rightarrow> 'a \<times> wr_half) \<Rightarrow> duplex \<Rightarrow> 'a \<times> duplex" where
  "duplex_put f s = (case f (dx_out s) of (r, w) \<Rightarrow> (r, s\<lparr>dx_out := w\<rparr>))"

definition duplex_ops :: "duplex stream_ops" where
  "duplex_ops =
     \<lparr>so_read = duplex_read, so_write = (\<lambda>d. duplex_put (sock_write d)), so_flush = duplex_put sock_flush,
      so_shutdown = duplex_put sock_shutdown, so_open = (\<lambda>s. s), so_stop = (\<lambda>s. s), so_take = Pair [],
      so_read_direct = duplex_read, so_write_direct = (\<lambda>d. duplex_put (sock_write d)),
      so_flush_direct = duplex_put sock_flush, so_shutdown_direct = duplex_put sock_shutdown\<rparr>"

section \<open>What TLS promises\<close>

text \<open>
  What can be observed of a session, counted from the start of the gating: the bytes taken
  from the gate and the plaintext handed out; the plaintext accepted and the bytes it has
  encrypted but not yet written. \<open>tv_open\<close> is the plaintext of a sequence of whole records,
  \<open>tv_peer\<close> what the peer decrypts from the bytes on the wire.
\<close>

record 't tls_view =
  tv_in :: "'t \<Rightarrow> bytes"
  tv_plain :: "'t \<Rightarrow> bytes"
  tv_acc :: "'t \<Rightarrow> bytes"
  tv_unsent :: "'t \<Rightarrow> bytes"
  tv_open :: "bytes list \<Rightarrow> bytes"
  tv_peer :: "bytes \<Rightarrow> bytes"

abbreviation records :: "bytes \<Rightarrow> bytes list" where
  "records c \<equiv> units 5 record_len c"

abbreviation whole :: "bytes list \<Rightarrow> bool" where
  "whole rs \<equiv> \<forall>u \<in> set rs. 5 \<le> length u \<and> record_len u = length u"

text \<open>The plaintext that is there but not handed out.\<close>

definition waiting :: "'t tls_view \<Rightarrow> 't \<Rightarrow> bytes \<Rightarrow> bytes" where
  "waiting V t c = drop (length (tv_plain V t)) (tv_open V (records c))"

text \<open>
  A record adds its plaintext, of at most \<open>2 ^ 14\<close> bytes and shorter than the record. A read gives
  as much of what is there as fits; it takes bytes only from the \<^verbatim>\<open>poll_read\<close> of the gate, and
  only while no plaintext is waiting (\<^verbatim>\<open>wants_read\<close>).
\<close>

definition read_laws :: "'t tls_lib \<Rightarrow> 't tls_view \<Rightarrow> bool" where
  "read_laws L V \<longleftrightarrow>
     tv_open V [] = [] \<and>
     (\<forall>rs u. \<exists>x. tv_open V (rs @ [u]) = tv_open V rs @ x \<and> length x \<le> min (2 ^ 14) (length u)) \<and>
     (\<forall>cap t g r t' g'. tl_read L cap t g = (r, t', g') \<longrightarrow>
        gs_out g' = gs_out g \<and> tv_plain V t' = tv_plain V t @ got r \<and>
        got r = take cap (waiting V t (tv_in V t')) \<and>
        (\<exists>caps. run gate_step (gs_gate g, tv_in V t) (map GRead caps) = (gs_gate g', tv_in V t') \<and>
           (\<forall>k < length caps. waiting V t (snd (run gate_step (gs_gate g, tv_in V t) (map GRead (take k caps)))) = [])))"

text \<open>
  The peer decrypts exactly what was accepted from what is on the wire and still unsent; a
  completed flush leaves nothing unsent. Writing does not read, and reading does not write.
\<close>

definition carries :: "'t tls_view \<Rightarrow> 't \<Rightarrow> bytes \<Rightarrow> bool" where
  "carries V t w \<longleftrightarrow> tv_peer V (w @ tv_unsent V t) = tv_acc V t"

definition write_side_law :: "'t tls_view \<Rightarrow> bytes \<Rightarrow> 't \<Rightarrow> gated_socket \<Rightarrow> 't \<Rightarrow> gated_socket \<Rightarrow> bool" where
  "write_side_law V d t g t' g' \<longleftrightarrow>
     gs_gate g' = gs_gate g \<and> tv_in V t' = tv_in V t \<and> tv_plain V t' = tv_plain V t \<and>
     tv_acc V t' = tv_acc V t @ d \<and>
     (carries V t (wh_sent (gs_out g)) \<longrightarrow> carries V t' (wh_sent (gs_out g')))"

definition write_laws :: "'t tls_lib \<Rightarrow> 't tls_view \<Rightarrow> bool" where
  "write_laws L V \<longleftrightarrow>
     (\<forall>d t g r t' g'. tl_write L d t g = (r, t', g') \<longrightarrow>
        write_side_law V (taken d r) t g t' g' \<and> (\<forall>n. r = Ready (Inr n) \<longrightarrow> n \<le> length d)) \<and>
     (\<forall>t g r t' g'. tl_flush L t g = (r, t', g') \<longrightarrow>
        write_side_law V [] t g t' g' \<and> (r = Ready (Inr ()) \<longrightarrow> tv_unsent V t' = [])) \<and>
     (\<forall>t g r t' g'. tl_shutdown L t g = (r, t', g') \<longrightarrow> write_side_law V [] t g t' g') \<and>
     (\<forall>cap t g r t' g' w. tl_read L cap t g = (r, t', g') \<longrightarrow>
        tv_acc V t' = tv_acc V t \<and> (carries V t w \<longrightarrow> carries V t' w))"

definition tls_laws :: "'t tls_lib \<Rightarrow> 't tls_view \<Rightarrow> bool" where
  "tls_laws L V \<longleftrightarrow> read_laws L V \<and> write_laws L V"

section \<open>The contract of the stream\<close>

lemma tls_ops_simps [simp]:
  "so_read (tls_ops L) cap = through_tls (tl_read L cap)" "so_write (tls_ops L) d = through_tls (tl_write L d)"
  "so_flush (tls_ops L) = through_tls (tl_flush L)" "so_shutdown (tls_ops L) = through_tls (tl_shutdown L)"
  "so_open (tls_ops L) = tls_open_record_gate" "so_stop (tls_ops L) = tls_stop_record_gate"
  "so_take (tls_ops L) = tls_take_buffered_raw" "so_read_direct (tls_ops L) = tls_read_direct"
  "so_write_direct (tls_ops L) = tls_write_direct" "so_flush_direct (tls_ops L) = tls_flush_direct"
  "so_shutdown_direct (tls_ops L) = tls_shutdown_direct"
  by (simp_all add: tls_ops_def)

lemma through_tls_iff:
  "through_tls f s = (r, s') \<longleftrightarrow> f (ts_conn s) (ts_io s) = (r, ts_conn s', ts_io s')"
  by (cases s') (auto simp: through_tls_def split: prod.splits)

lemma read_lawsD:
  assumes "read_laws L V" and "tl_read L cap t g = (r, t', g')"
  obtains caps where "gs_out g' = gs_out g" "tv_plain V t' = tv_plain V t @ got r"
    "got r = take cap (waiting V t (tv_in V t'))"
    "run gate_step (gs_gate g, tv_in V t) (map GRead caps) = (gs_gate g', tv_in V t')"
    "\<And>k. k < length caps \<Longrightarrow>
       waiting V t (snd (run gate_step (gs_gate g, tv_in V t) (map GRead (take k caps)))) = []"
  using assms unfolding read_laws_def by blast

lemma tls_contract:
  assumes "tls_laws L V"
  shows "io_contract (tls_ops L)"
proof -
  have rd: "read_laws L V" and wr: "write_laws L V" using assms by (simp_all add: tls_laws_def)
  have "length (got (fst (through_tls (tl_read L cap) s))) \<le> cap" for cap s
  proof -
    obtain r t g where t: "tl_read L cap (ts_conn s) (ts_io s) = (r, t, g)" by (metis prod_cases3)
    from read_lawsD [OF rd t] have "got r = take cap (waiting V (ts_conn s) (tv_in V t))" by blast
    then show ?thesis by (simp add: through_tls_def t)
  qed
  moreover have "length (got (fst (tls_read_direct cap s))) \<le> cap" for cap and s :: "'a tls_stream"
    using src_read_cap [of cap "g_src (gs_gate (ts_io s))"]
    by (auto simp: tls_read_direct_def gate_read_direct_def split: prod.splits)
  moreover have "fst (through_tls (tl_write L d) s) = Ready (Inr n) \<Longrightarrow> n \<le> length d" for d s n
    using wr unfolding write_laws_def through_tls_def by (auto split: prod.splits)
  moreover have "fst (tls_write_direct d s) = Ready (Inr n) \<Longrightarrow> n \<le> length d" for d n and s :: "'a tls_stream"
    by (auto simp: tls_write_direct_def sock_write_def split: prod.splits list.splits wr_answer.splits)
  ultimately show ?thesis by (simp add: io_contract_def)
qed

lemma tls_stream_contract: "tls_laws L V \<Longrightarrow> direct_stream (tls_ops L)"
  by (simp add: direct_stream_iff tls_contract)

text \<open>A TLS library that keeps its promises gives a stream that does; so does the duplex stream.\<close>

locale tls_library =
  fixes L :: "'t tls_lib" and V :: "'t tls_view"
  assumes laws: "tls_laws L V"

sublocale tls_library \<subseteq> tls: direct_stream "tls_ops L"
  by (rule tls_stream_contract [OF laws])

interpretation duplexed: direct_stream duplex_ops
proof
  fix cap d n and i :: duplex
  show "length (got (fst (so_read duplex_ops cap i))) \<le> cap" "length (got (fst (so_read_direct duplex_ops cap i))) \<le> cap"
    using src_read_cap [of cap "dx_in i"] by (auto simp: duplex_ops_def duplex_read_def split: prod.splits)
  show "fst (so_write duplex_ops d i) = Ready (Inr n) \<Longrightarrow> n \<le> length d"
    "fst (so_write_direct duplex_ops d i) = Ready (Inr n) \<Longrightarrow> n \<le> length d"
    by (auto simp: duplex_ops_def duplex_put_def sock_write_def split: prod.splits list.splits wr_answer.splits)
qed

section \<open>Records\<close>

lemma records_whole: "whole rs \<Longrightarrow> records (concat rs @ c) = rs @ records c"
  by (rule rec.units_concat)

lemma records_append: "\<exists>us. records (c @ x) = records c @ us"
proof -
  have "whole (records c)" using rec.units_sound by blast
  from records_whole [OF this, of "unit_rest 5 record_len c @ x"] show ?thesis
    by (auto simp: units_rest simp flip: append_assoc)
qed

lemma records_stands:
  assumes "stands g rs part"
  shows "records (concat rs @ part) = rs"
proof -
  have "records part = []"
  proof (cases "0 < g_remaining g")
    case True
    then have "\<not> complete 5 record_len part"
      using assms rec.size_append [of part "gate_stream g"] by (auto simp: stands_def complete_def)
    then show ?thesis by (simp add: units.simps)
  next
    case False
    then show ?thesis using assms by (simp add: stands_def units.simps complete_def)
  qed
  with assms show ?thesis by (simp add: records_whole stands_def)
qed

text \<open>Two sequences of whole records in the same stream: one continues the other.\<close>

lemma whole_prefix:
  assumes "concat rs @ a = concat us @ b" and "whole rs" and "whole us"
  shows "prefix rs us \<or> prefix us rs"
proof -
  have "rs @ records a = us @ records b"
    using records_whole [OF assms(2), of a] records_whole [OF assms(3), of b] assms(1) by simp
  then show ?thesis by (metis append_eq_append_conv2 prefixI)
qed

lemma open_mono:
  assumes "read_laws L V" and "prefix rs us"
  shows "prefix (tv_open V rs) (tv_open V us)"
proof -
  have "prefix (tv_open V rs) (tv_open V (rs @ xs))" for xs
  proof (induction xs rule: rev_induct)
    case (snoc x xs)
    obtain y where "tv_open V ((rs @ xs) @ [x]) = tv_open V (rs @ xs) @ y"
      using assms(1) unfolding read_laws_def by blast
    with snoc show ?case by (simp add: prefix_order.order_trans)
  qed simp
  then show ?thesis using assms(2) by (auto elim: prefixE)
qed

lemma open_length:
  assumes "read_laws L V"
  shows "length (tv_open V rs) \<le> length (concat rs)"
proof (induction rs rule: rev_induct)
  case Nil
  then show ?case using assms by (simp add: read_laws_def)
next
  case (snoc u rs)
  obtain y where "tv_open V (rs @ [u]) = tv_open V rs @ y" "length y \<le> length u"
    using assms unfolding read_laws_def by (metis min.boundedE)
  with snoc show ?case by simp
qed

section \<open>The reads of TLS from the gate\<close>

lemma gate_run_extends:
  "run gate_step (g, out) ops = (g', out') \<Longrightarrow> \<exists>x. out' = out @ x"
proof (induction ops arbitrary: g out)
  case (Cons e ops)
  then show ?case by (cases e) (force split: prod.splits)+
qed simp

lemma gate_run_stream:
  assumes "run gate_step (g, out) ops = (g', out')"
  shows "out' @ gate_stream g' = out @ gate_stream g"
proof -
  have "gate_inv (out @ gate_stream g) (g, out)" by (simp add: gate_inv_def)
  from gate.run_inv [OF this, of ops] assms show ?thesis by (simp add: gate_inv_def)
qed

text \<open>
  A poll of TLS that starts with no plaintext waiting and reads on only while there is none
  stops at the end of the record that brings some.
\<close>

lemma gated_poll:
  assumes "read_laws L V"
  shows "run gate_step (g, concat rs @ part) (map GRead caps) = (g', c') \<Longrightarrow> g_gating g \<Longrightarrow>
    stands g rs part \<Longrightarrow> tv_plain V t = tv_open V rs \<Longrightarrow>
    (\<forall>k < length caps. waiting V t (snd (run gate_step (g, concat rs @ part) (map GRead (take k caps)))) = []) \<Longrightarrow>
    \<exists>rs' part'. c' = concat rs' @ part' \<and> stands g' rs' part' \<and> g_gating g' \<and>
      (tv_open V rs' = tv_open V rs \<or>
       part' = [] \<and> rs' \<noteq> [] \<and> tv_open V (butlast rs') = tv_open V rs)"
proof (induction caps arbitrary: g rs part)
  case Nil
  then show ?case by auto
next
  case (Cons cap caps)
  obtain r g1 where r: "gate_poll_read cap g = (r, g1)" by fastforce
  note round = gate_read_round [OF r Cons.prems(2)]
  then have gating: "g_gating g1" using Cons.prems(2) by (simp add: gate_round_def)
  from gate_round_stands [OF round Cons.prems(3)] obtain rs1 part1 where
    s: "(concat rs @ part) @ got r = concat rs1 @ part1" "stands g1 rs1 part1"
      "rs1 = rs \<or> (\<exists>u. rs1 = rs @ [u] \<and> part1 = [])" by auto
  have run: "run gate_step (g1, concat rs1 @ part1) (map GRead caps) = (g', c')"
    using Cons.prems(1) r s(1) by simp
  show ?case
  proof (cases caps)
    case Nil
    with run s gating show ?thesis by (intro exI [of _ rs1] exI [of _ part1]) auto
  next
    case (Cons k ks)
    have step: "run gate_step (g, concat rs @ part) (map GRead (take (Suc n) (cap # caps)))
        = run gate_step (g1, concat rs1 @ part1) (map GRead (take n caps))" for n
      using r s(1) by simp
    have w: "\<forall>n < length caps. waiting V t (snd (run gate_step (g1, concat rs1 @ part1) (map GRead (take n caps)))) = []"
      using Cons.prems(5) step by (metis Suc_less_eq length_Cons)
    then have "waiting V t (concat rs1 @ part1) = []" using Cons by force
    then have "length (tv_open V rs1) \<le> length (tv_open V rs)"
      using records_stands [OF s(2)] Cons.prems(4) by (simp add: waiting_def)
    moreover have "prefix (tv_open V rs) (tv_open V rs1)"
      using open_mono [OF assms, of rs rs1] s(3) by auto
    ultimately have same: "tv_open V rs1 = tv_open V rs" by (auto elim!: prefixE)
    from Cons.IH [OF run gating s(2) _ w] Cons.prems(4) same show ?thesis by simp
  qed
qed

end
