(* ===== verification/TlsStack.thy ===== *)
theory TlsStack
  imports GatedTls
begin

text \<open>
  Where the layers stand during a session of \<^verbatim>\<open>VisionStream\<close> over TLS over the record gate: which
  records TLS has taken and what of their plaintext it has handed out, and what is on the wire.
\<close>

section \<open>Where the stack stands\<close>

lemma script_append [simp]:
  "held_taken (a @ b) = held_taken a @ held_taken b" "raw_events (a @ b) = raw_events a @ raw_events b"
  "rd_log (a @ b) = rd_log a @ rd_log b" "wr_log (a @ b) = wr_log a @ wr_log b"
proof -
  show "held_taken (a @ b) = held_taken a @ held_taken b" by (induction a rule: held_taken.induct) auto
  show "raw_events (a @ b) = raw_events a @ raw_events b" by (induction a rule: raw_events.induct) auto
  show "rd_log (a @ b) = rd_log a @ rd_log b" by (induction a rule: rd_log.induct) auto
  show "wr_log (a @ b) = wr_log a @ wr_log b" by (induction a rule: wr_log.induct) auto
qed

lemma content_append [simp]: "content (a @ b) = content a @ content b"
  by (simp add: content_def)

text \<open>
  \<open>W\<close> is the stream of the socket from the start of the gating. While frames are expected, TLS
  has taken whole records and at most a part of one more, and has handed out all their
  plaintext; right behind a read that gave some it has taken whole records only, the last of
  which gave it. Around TLS, what was held and what is read from the socket continue behind
  the record with the switch.
\<close>

definition reading_at :: "'t tls_view \<Rightarrow> bytes \<Rightarrow> phase \<Rightarrow> stream_call list \<Rightarrow> 't tls_stream \<Rightarrow> bool" where
  "reading_at V W p tr s \<longleftrightarrow>
     (let t = ts_conn s; g = gs_gate (ts_io s); l = rd_log tr in
      if p = Around then
        \<exists>rs a d b. W = concat rs @ concat (held_taken tr) @ content (raw_events tr) @ content (g_src g) \<and>
          whole rs \<and> l = (a @ [TlsRead d]) @ HeldTaken # b \<and> HeldTaken \<notin> set a \<and> set b \<subseteq> {RawRead} \<and>
          tls_got a = tv_open V (butlast rs) \<and> tls_got a @ d = tv_open V rs
      else
        tv_in V t @ gate_stream g = W \<and> tv_plain V t = tls_got l \<and>
        held_taken tr = [] \<and> raw_events tr = [] \<and> set l \<inter> {HeldTaken, RawRead} = {} \<and>
        (if p = Plain then prefix (tv_plain V t) (tv_open V (records (tv_in V t)))
         else g_gating g \<and>
           (\<exists>rs part. tv_in V t = concat rs @ part \<and> stands g rs part \<and> tv_plain V t = tv_open V rs \<and>
              (p = Fresh \<longrightarrow> part = [] \<and>
                 (\<exists>a d. l = a @ [TlsRead d] \<and> tls_got a = tv_open V (butlast rs))))))"

lemma reading_common:
  assumes "reading_at V W p tr s" and "p \<noteq> Around"
  shows "tv_in V (ts_conn s) @ gate_stream (gs_gate (ts_io s)) = W"
    "tv_plain V (ts_conn s) = tls_got (rd_log tr)" "held_taken tr = []" "raw_events tr = []"
    "set (rd_log tr) \<inter> {HeldTaken, RawRead} = {}"
  using assms(1) unfolding reading_at_def Let_def if_not_P [OF assms(2)] by blast+

lemma reading_plain:
  assumes "p = Plain"
  shows "reading_at V W p tr s \<longleftrightarrow>
    tv_in V (ts_conn s) @ gate_stream (gs_gate (ts_io s)) = W \<and>
    tv_plain V (ts_conn s) = tls_got (rd_log tr) \<and> held_taken tr = [] \<and> raw_events tr = [] \<and>
    set (rd_log tr) \<inter> {HeldTaken, RawRead} = {} \<and>
    prefix (tv_plain V (ts_conn s)) (tv_open V (records (tv_in V (ts_conn s))))"
  by (simp add: reading_at_def Let_def assms)

lemma reading_paddedE:
  assumes "reading_at V W p tr s" and "p \<noteq> Around" and "p \<noteq> Plain"
  obtains rs part where "g_gating (gs_gate (ts_io s))" "tv_in V (ts_conn s) = concat rs @ part"
    "stands (gs_gate (ts_io s)) rs part" "tv_plain V (ts_conn s) = tv_open V rs"
    "p = Fresh \<Longrightarrow> part = [] \<and> (\<exists>a d. rd_log tr = a @ [TlsRead d] \<and> tls_got a = tv_open V (butlast rs))"
  using assms(1) unfolding reading_at_def Let_def if_not_P [OF assms(2)] if_not_P [OF assms(3)] by blast

lemma reading_paddedI:
  assumes "p \<noteq> Around" and "p \<noteq> Plain" and "tv_in V (ts_conn s) @ gate_stream (gs_gate (ts_io s)) = W"
    and "tv_plain V (ts_conn s) = tls_got (rd_log tr)" and "held_taken tr = []" and "raw_events tr = []"
    and "set (rd_log tr) \<inter> {HeldTaken, RawRead} = {}" and "g_gating (gs_gate (ts_io s))"
    and "tv_in V (ts_conn s) = concat rs @ part" and "stands (gs_gate (ts_io s)) rs part"
    and "tv_plain V (ts_conn s) = tv_open V rs"
    and "p = Fresh \<longrightarrow> part = [] \<and> (\<exists>a d. rd_log tr = a @ [TlsRead d] \<and> tls_got a = tv_open V (butlast rs))"
  shows "reading_at V W p tr s"
  unfolding reading_at_def Let_def if_not_P [OF assms(1)] if_not_P [OF assms(2)]
  using assms(3-12) by blast

text \<open>A call of the write side changes none of this.\<close>

lemma reading_at_write:
  assumes "reading_at V W p tr s" and "on_write_side c" and "ts_conn s' = t"
    and "gs_gate (ts_io s') = gs_gate (ts_io s)" and "tv_in V t = tv_in V (ts_conn s)"
    and "tv_plain V t = tv_plain V (ts_conn s)"
  shows "reading_at V W p (tr @ [c]) s'"
proof -
  have "held_taken [c] = []" "raw_events [c] = []" "rd_log [c] = []"
    using assms(2) by (cases c; simp)+
  then have eq: "held_taken (tr @ [c]) = held_taken tr" "raw_events (tr @ [c]) = raw_events tr"
    "rd_log (tr @ [c]) = rd_log tr" by simp_all
  show ?thesis using assms(1) unfolding reading_at_def Let_def eq assms(3-6) .
qed

lemma reading_aroundI:
  assumes "W = concat rs @ concat (held_taken tr) @ content (raw_events tr) @ content (g_src (gs_gate (ts_io s)))"
    and "whole rs" and "rd_log tr = (a @ [TlsRead d]) @ HeldTaken # b" and "HeldTaken \<notin> set a"
    and "set b \<subseteq> {RawRead}" and "tls_got a = tv_open V (butlast rs)" and "tls_got a @ d = tv_open V rs"
  shows "reading_at V W Around tr s"
  unfolding reading_at_def Let_def if_P [OF refl] using assms by blast

lemma reading_aroundE:
  assumes "reading_at V W Around tr s"
  obtains rs a d b where
    "W = concat rs @ concat (held_taken tr) @ content (raw_events tr) @ content (g_src (gs_gate (ts_io s)))"
    "whole rs" "rd_log tr = (a @ [TlsRead d]) @ HeldTaken # b" "HeldTaken \<notin> set a"
    "set b \<subseteq> {RawRead}" "tls_got a = tv_open V (butlast rs)" "tls_got a @ d = tv_open V rs"
  using assms unfolding reading_at_def Let_def if_P [OF refl] by blast

lemma write_keeps_reading:
  assumes "tls_laws L V" and "on_write_side c" and "does (tls_ops L) s c s'"
  shows "gs_gate (ts_io s') = gs_gate (ts_io s) \<and> tv_in V (ts_conn s') = tv_in V (ts_conn s) \<and>
    tv_plain V (ts_conn s') = tv_plain V (ts_conn s)"
  using assms unfolding tls_laws_def write_laws_def write_side_law_def
  by (cases c) (auto simp: through_tls_iff tls_write_direct_def tls_flush_direct_def tls_shutdown_direct_def
      split: prod.splits)

lemma on_gate_fields [simp]:
  "ts_conn (on_gate f s) = ts_conn s" "gs_gate (ts_io (on_gate f s)) = f (gs_gate (ts_io s))"
  "gs_out (ts_io (on_gate f s)) = gs_out (ts_io s)"
  by (simp_all add: on_gate_def)

lemma gate_op_fields [simp]:
  "gate_stream (gate_do_open g) = gate_stream g" "gate_stream (stop_gating g) = gate_stream g"
  "g_gating (gate_do_open g) = g_gating g" "stands (gate_do_open g) rs part = stands g rs part"
  by (simp_all add: gate_stream_def gate_do_open_def stop_gating_def stands_def)

lemma reading_step_open:
  assumes "reading_at V W p tr s" and "next_phase p COpen = Some q"
  shows "reading_at V W q (tr @ [COpen]) (tls_open_record_gate s)"
proof -
  have pq: "p \<noteq> Around" "q = (if p = Plain then Plain else Released)"
    using assms(2) by (auto split: if_splits)
  note c = reading_common [OF assms(1) pq(1)]
  show ?thesis
  proof (cases "p = Plain")
    case True
    then show ?thesis
      using assms(1) by (auto simp: reading_plain pq tls_open_record_gate_def)
  next
    case False
    from reading_paddedE [OF assms(1) pq(1) False] obtain rs part where
      "g_gating (gs_gate (ts_io s))" "tv_in V (ts_conn s) = concat rs @ part"
      "stands (gs_gate (ts_io s)) rs part" "tv_plain V (ts_conn s) = tv_open V rs" by metis
    with c False pq(2) show ?thesis
      by (intro reading_paddedI [of _ _ _ _ _ rs part]) (simp_all add: tls_open_record_gate_def)
  qed
qed

lemma reading_step_stop:
  assumes "reading_at V W p tr s" and "next_phase p CStop = Some q"
  shows "reading_at V W q (tr @ [CStop]) (tls_stop_record_gate s)"
proof -
  have p: "p = Fresh" "q = Plain" using assms(2) by (auto split: if_splits)
  from p have np: "p \<noteq> Around" "p \<noteq> Plain" by simp_all
  obtain rs part where
    "tv_in V (ts_conn s) = concat rs @ part" "stands (gs_gate (ts_io s)) rs part"
    "tv_plain V (ts_conn s) = tv_open V rs" by (rule reading_paddedE [OF assms(1) np])
  then have "tv_plain V (ts_conn s) = tv_open V (records (tv_in V (ts_conn s)))"
    by (simp add: records_stands)
  then show ?thesis
    using reading_common [OF assms(1)] by (simp add: reading_plain p tls_stop_record_gate_def)
qed

lemma reading_step_take:
  assumes "reading_at V W p tr s" and "next_phase p (CTake h) = Some q"
    and "tls_take_buffered_raw s = (h, s')"
  shows "reading_at V W q (tr @ [CTake h]) s'"
proof -
  have p: "p = Fresh" "q = Around" using assms(2) by (auto split: if_splits)
  let ?g = "gs_gate (ts_io s)"
  from p have np: "p \<noteq> Around" "p \<noteq> Plain" by simp_all
  obtain rs a d where at: "tv_in V (ts_conn s) = concat rs"
    "stands ?g rs []" "tv_plain V (ts_conn s) = tv_open V rs" "rd_log tr = a @ [TlsRead d]"
    "tls_got a = tv_open V (butlast rs)"
    by (rule reading_paddedE [OF assms(1) np]) (use p(1) in auto)
  have h: "h = g_buf ?g" "g_src (gs_gate (ts_io s')) = g_src ?g"
    using assms(3) by (auto simp: tls_take_buffered_raw_def take_buffered_def)
  have "whole rs" using at(2) by (simp add: stands_def)
  with at h reading_common [OF assms(1)] p show ?thesis
    by (auto intro!: reading_aroundI [of _ rs _ _ a d "[]"] simp: gate_stream_def)
qed

lemma reading_step_direct:
  assumes "reading_at V W p tr s" and "next_phase p (CReadDirect cap r) = Some q"
    and "tls_read_direct cap s = (r, s')"
  shows "reading_at V W q (tr @ [CReadDirect cap r]) s'"
proof -
  have p: "p = Around" "q = Around" using assms(2) by (auto split: if_splits)
  let ?g = "gs_gate (ts_io s)"
  obtain rs a d b where at: "W = concat rs @ concat (held_taken tr) @ content (raw_events tr) @ content (g_src ?g)"
    "whole rs" "rd_log tr = (a @ [TlsRead d]) @ HeldTaken # b" "HeldTaken \<notin> set a" "set b \<subseteq> {RawRead}"
    "tls_got a = tv_open V (butlast rs)" "tls_got a @ d = tv_open V rs"
    using assms(1) unfolding p by (rule reading_aroundE)
  obtain src where src: "src_read cap (g_src ?g) = (r, src)" "g_src (gs_gate (ts_io s')) = src"
    using assms(3) by (auto simp: tls_read_direct_def gate_read_direct_def split: prod.splits)
  have "content [rd_event_of r] = got r" by (cases r rule: rd_event_of.cases) auto
  then have c: "content [rd_event_of r] @ content src = content (g_src ?g)"
    using src_read_content [OF src(1)] by simp
  show ?thesis
    unfolding p(2) using at c src(2)
    by (intro reading_aroundI [of _ rs _ _ a d "b @ [RawRead]"]) auto
qed

lemma reading_step_read:
  assumes "read_laws L V" and "reading_at V W p tr s" and "next_phase p (CRead cap r) = Some q"
    and "through_tls (tl_read L cap) s = (r, s')"
  shows "reading_at V W q (tr @ [CRead cap r]) s'"
proof -
  let ?t = "ts_conn s" and ?t' = "ts_conn s'" and ?g = "gs_gate (ts_io s)" and ?g' = "gs_gate (ts_io s')"
  have t: "tl_read L cap ?t (ts_io s) = (r, ?t', ts_io s')" using assms(4) by (simp add: through_tls_iff)
  from read_lawsD [OF assms(1) t] obtain caps where
    law: "tv_plain V ?t' = tv_plain V ?t @ got r" "got r = take cap (waiting V ?t (tv_in V ?t'))"
      "run gate_step (?g, tv_in V ?t) (map GRead caps) = (?g', tv_in V ?t')"
      "\<forall>k < length caps. waiting V ?t (snd (run gate_step (?g, tv_in V ?t) (map GRead (take k caps)))) = []"
    by metis
  have pq: "p = Plain \<and> q = Plain \<or>
      p = Released \<and> cap = read_chunk \<and> q = (if got r = [] then Padded else Fresh)"
    using assms(3) by (auto split: if_splits)
  have common: "tv_in V ?t' @ gate_stream ?g' = W" "tv_plain V ?t' = tls_got (rd_log (tr @ [CRead cap r]))"
    "held_taken (tr @ [CRead cap r]) = []" "raw_events (tr @ [CRead cap r]) = []"
    "set (rd_log (tr @ [CRead cap r])) \<inter> {HeldTaken, RawRead} = {}"
    using reading_common [OF assms(2)] pq gate_run_stream [OF law(3)] law(1) by auto
  from pq show ?thesis
  proof
    assume p: "p = Plain \<and> q = Plain"
    obtain x where "tv_in V ?t' = tv_in V ?t @ x" using gate_run_extends [OF law(3)] by blast
    then obtain us where "records (tv_in V ?t') = records (tv_in V ?t) @ us" using records_append by metis
    moreover have "prefix (tv_plain V ?t) (tv_open V (records (tv_in V ?t)))"
      using assms(2) p by (auto simp: reading_plain)
    ultimately have "prefix (tv_plain V ?t) (tv_open V (records (tv_in V ?t')))"
      using open_mono [OF assms(1), of "records (tv_in V ?t)" "records (tv_in V ?t')"]
      by (metis prefixI prefix_order.trans)
    then obtain y where y: "tv_open V (records (tv_in V ?t')) = tv_plain V ?t @ y" by (auto elim: prefixE)
    then have "got r = take cap y" using law(2) by (simp add: waiting_def)
    then have "prefix (tv_plain V ?t') (tv_open V (records (tv_in V ?t')))"
      by (simp add: law(1) y take_is_prefix)
    then show ?thesis using common p by (simp add: reading_plain)
  next
    assume p: "p = Released \<and> cap = read_chunk \<and> q = (if got r = [] then Padded else Fresh)"
    then have np: "p \<noteq> Around" "p \<noteq> Plain" by simp_all
    obtain rs part where at: "g_gating ?g"
      "tv_in V ?t = concat rs @ part" "stands ?g rs part" "tv_plain V ?t = tv_open V rs"
      by (rule reading_paddedE [OF assms(2) np])
    from gated_poll [OF assms(1) law(3) [unfolded at(2)] at(1,3,4) law(4) [unfolded at(2)]]
    obtain rs' part' where s': "tv_in V ?t' = concat rs' @ part'" "stands ?g' rs' part'" "g_gating ?g'"
      "tv_open V rs' = tv_open V rs \<or>
       part' = [] \<and> rs' \<noteq> [] \<and> tv_open V (butlast rs') = tv_open V rs" by blast
    have w: "waiting V ?t (tv_in V ?t') = drop (length (tv_open V rs)) (tv_open V rs')"
      by (simp add: waiting_def at(4) s'(1) records_stands [OF s'(2)])
    have "got r = [] \<and> tv_open V rs' = tv_open V rs \<or>
        part' = [] \<and> tv_open V (butlast rs') = tv_open V rs \<and> tv_open V rs' = tv_open V rs @ got r"
    proof (cases "tv_open V rs' = tv_open V rs")
      case True
      then show ?thesis using law(2) w by simp
    next
      case False
      then have s4: "part' = []" "rs' \<noteq> []" "tv_open V (butlast rs') = tv_open V rs" using s'(4) by auto
      then have "rs' = butlast rs' @ [last rs']" by simp
      then obtain x where x: "tv_open V rs' = tv_open V (butlast rs') @ x" "length x \<le> 2 ^ 14"
        using assms(1) unfolding read_laws_def by (metis min.boundedE)
      then have "got r = x" using law(2) w s4(3) p by (simp add: read_chunk_def)
      with s4 x show ?thesis by simp
    qed
    then have "tv_plain V ?t' = tv_open V rs'"
      "q = Fresh \<longrightarrow> part' = [] \<and> (\<exists>a d. rd_log (tr @ [CRead cap r]) = a @ [TlsRead d] \<and>
         tls_got a = tv_open V (butlast rs'))"
      using p law(1) at(4) reading_common(2) [OF assms(2)] by auto
    with common s' p show ?thesis
      by (intro reading_paddedI [of _ _ _ _ _ rs' part']) (auto split: if_splits)
  qed
qed

lemma reading_step:
  assumes "tls_laws L V" and "reading_at V W p tr s" and "next_phase p c = Some q"
    and "does (tls_ops L) s c s'"
  shows "reading_at V W q (tr @ [c]) s'"
proof (cases "on_write_side c")
  case True
  then have "q = p" using assms(3) by (cases c) auto
  with write_keeps_reading [OF assms(1) True assms(4)] reading_at_write [OF assms(2) True refl, of s'] show ?thesis
    by simp
next
  case False
  have rd: "read_laws L V" using assms(1) by (simp add: tls_laws_def)
  show ?thesis
  proof (cases c)
    case (CRead cap r)
    with assms(3,4) reading_step_read [OF rd assms(2)] show ?thesis by simp
  next
    case COpen
    with assms(3,4) reading_step_open [OF assms(2), of q] show ?thesis by simp
  next
    case CStop
    with assms(3,4) reading_step_stop [OF assms(2), of q] show ?thesis by simp
  next
    case (CTake h)
    with assms(3,4) reading_step_take [OF assms(2), of h q s'] show ?thesis by simp
  next
    case (CReadDirect cap r)
    with assms(3,4) reading_step_direct [OF assms(2), of cap r q s'] show ?thesis by simp
  qed (use False in simp_all)
qed

lemma reading_trace:
  assumes "tls_laws L V"
  shows "trace (tls_ops L) s tr s' \<Longrightarrow> reading_at V W p tr0 s \<Longrightarrow> phases p tr = Some q \<Longrightarrow>
    reading_at V W q (tr0 @ tr) s'"
proof (induction arbitrary: p tr0 rule: trace.induct)
  case (trace_Cons s c s1 tr s2)
  obtain p1 where p1: "next_phase p c = Some p1" "phases p1 tr = Some q"
    using trace_Cons.prems(2) by (auto simp: bind_eq_Some_conv)
  from trace_Cons.IH [OF reading_step [OF assms trace_Cons.prems(1) p1(1) trace_Cons.hyps(1)] p1(2)]
  show ?case by simp
qed simp

section \<open>The write side of the stack\<close>

lemma bytes_append:
  "tls_bytes (a @ b) = tls_bytes a @ tls_bytes b" "raw_bytes (a @ b) = raw_bytes a @ raw_bytes b"
  by (simp_all add: tls_bytes_def raw_bytes_def)

lemma write_lawsD:
  assumes "tls_laws L V"
  shows "tl_write L d t g = (r, t', g') \<Longrightarrow> write_side_law V (taken d r) t g t' g'"
    and "tl_flush L t g = (q, t', g') \<Longrightarrow> write_side_law V [] t g t' g'"
    and "tl_flush L t g = (Ready (Inr ()), t', g') \<Longrightarrow> tv_unsent V t' = []"
    and "tl_shutdown L t g = (q, t', g') \<Longrightarrow> write_side_law V [] t g t' g'"
    and "tl_read L cap t g = (p, t', g') \<Longrightarrow> tv_acc V t' = tv_acc V t"
    and "tl_read L cap t g = (p, t', g') \<Longrightarrow> carries V t w \<Longrightarrow> carries V t' w"
  using assms by (simp_all add: tls_laws_def write_laws_def) blast+

text \<open>Before the switch: everything accepted is on the wire or unsent in TLS.\<close>

lemma carried_step:
  assumes "tls_laws L V" and "does (tls_ops L) s c s'" and "\<forall>x \<in> set (wr_log [c]). \<not> is_raw x"
    and "carries V (ts_conn s) (wh_sent (gs_out (ts_io s)))"
  shows "carries V (ts_conn s') (wh_sent (gs_out (ts_io s'))) \<and>
    tv_acc V (ts_conn s') = tv_acc V (ts_conn s) @ tls_bytes (wr_log [c])"
proof -
  have rd: "read_laws L V" using assms(1) by (simp add: tls_laws_def)
  show ?thesis
  proof (cases c)
    case (CRead cap r)
    then have t: "tl_read L cap (ts_conn s) (ts_io s) = (r, ts_conn s', ts_io s')"
      using assms(2) by (simp add: through_tls_iff)
    from read_lawsD [OF rd t] have "gs_out (ts_io s') = gs_out (ts_io s)" by blast
    moreover have "tv_acc V (ts_conn s') = tv_acc V (ts_conn s)"
      "carries V (ts_conn s) w \<Longrightarrow> carries V (ts_conn s') w" for w
      using write_lawsD(5,6) [OF assms(1) t] by simp_all
    ultimately show ?thesis using assms(4) by (simp add: CRead tls_bytes_def)
  next
    case (CWrite d r)
    then have "tl_write L d (ts_conn s) (ts_io s) = (r, ts_conn s', ts_io s')"
      using assms(2) by (simp add: through_tls_iff)
    from write_lawsD(1) [OF assms(1) this]
    have "write_side_law V (taken d r) (ts_conn s) (ts_io s) (ts_conn s') (ts_io s')" .
    then show ?thesis using assms(4) by (simp add: CWrite write_side_law_def tls_bytes_def)
  next
    case (CFlush r)
    then have "tl_flush L (ts_conn s) (ts_io s) = (r, ts_conn s', ts_io s')"
      using assms(2) by (simp add: through_tls_iff)
    from write_lawsD(2) [OF assms(1) this]
    have "write_side_law V [] (ts_conn s) (ts_io s) (ts_conn s') (ts_io s')" .
    then show ?thesis using assms(4) by (simp add: CFlush write_side_law_def tls_bytes_def)
  next
    case (CShutdown r)
    then have "tl_shutdown L (ts_conn s) (ts_io s) = (r, ts_conn s', ts_io s')"
      using assms(2) by (simp add: through_tls_iff)
    from write_lawsD(4) [OF assms(1) this]
    have "write_side_law V [] (ts_conn s) (ts_io s) (ts_conn s') (ts_io s')" .
    then show ?thesis using assms(4) by (simp add: CShutdown write_side_law_def tls_bytes_def)
  qed (use assms(2-4) in \<open>auto simp: tls_bytes_def tls_open_record_gate_def tls_stop_record_gate_def
      tls_take_buffered_raw_def tls_read_direct_def split: prod.splits\<close>)
qed

lemma carried_trace:
  assumes "tls_laws L V"
  shows "trace (tls_ops L) s tr s' \<Longrightarrow> \<forall>x \<in> set (wr_log tr). \<not> is_raw x \<Longrightarrow>
    carries V (ts_conn s) (wh_sent (gs_out (ts_io s))) \<Longrightarrow>
    carries V (ts_conn s') (wh_sent (gs_out (ts_io s'))) \<and>
    tv_acc V (ts_conn s') = tv_acc V (ts_conn s) @ tls_bytes (wr_log tr)"
proof (induction rule: trace.induct)
  case (trace_Cons s c s1 tr s2)
  have eq: "wr_log (c # tr) = wr_log [c] @ wr_log tr" using script_append(4) [of "[c]" tr] by simp
  then have "\<forall>x \<in> set (wr_log [c]). \<not> is_raw x" "\<forall>x \<in> set (wr_log tr). \<not> is_raw x"
    using trace_Cons.prems(1) by simp_all
  with carried_step [OF assms trace_Cons.hyps(1) this(1) trace_Cons.prems(2)] trace_Cons.IH
  have "carries V (ts_conn s2) (wh_sent (gs_out (ts_io s2)))"
    "tv_acc V (ts_conn s2) = tv_acc V (ts_conn s) @ tls_bytes (wr_log [c]) @ tls_bytes (wr_log tr)" by simp_all
  then show ?case unfolding eq bytes_append by simp
qed (simp add: tls_bytes_def)

text \<open>Behind the switch: the socket takes the raw bytes and nothing else.\<close>

lemma raw_step:
  assumes "tls_laws L V" and "does (tls_ops L) s c s'" and "\<forall>x \<in> set (wr_log [c]). is_raw x"
  shows "wh_sent (gs_out (ts_io s')) = wh_sent (gs_out (ts_io s)) @ raw_bytes (wr_log [c])"
proof (cases c)
  case (CRead cap r)
  then have t: "tl_read L cap (ts_conn s) (ts_io s) = (r, ts_conn s', ts_io s')"
    using assms(2) by (simp add: through_tls_iff)
  from read_lawsD [OF _ t] assms(1) have "gs_out (ts_io s') = gs_out (ts_io s)"
    unfolding tls_laws_def by blast
  then show ?thesis by (simp add: CRead raw_bytes_def)
next
  case (CWriteDirect d r)
  then show ?thesis
    using assms(2) by (auto simp: raw_bytes_def tls_write_direct_def sock_write_def min_def
        split: prod.splits list.splits wr_answer.splits if_splits)
qed (use assms(2,3) in \<open>auto simp: raw_bytes_def tls_open_record_gate_def tls_stop_record_gate_def
    tls_take_buffered_raw_def tls_read_direct_def tls_flush_direct_def tls_shutdown_direct_def
    sock_flush_def sock_shutdown_def split: prod.splits list.splits wr_answer.splits if_splits\<close>)

lemma raw_trace:
  assumes "tls_laws L V"
  shows "trace (tls_ops L) s tr s' \<Longrightarrow> \<forall>x \<in> set (wr_log tr). is_raw x \<Longrightarrow>
    wh_sent (gs_out (ts_io s')) = wh_sent (gs_out (ts_io s)) @ raw_bytes (wr_log tr)"
proof (induction rule: trace.induct)
  case (trace_Cons s c s1 tr s2)
  have eq: "wr_log (c # tr) = wr_log [c] @ wr_log tr" using script_append(4) [of "[c]" tr] by simp
  then have "\<forall>x \<in> set (wr_log [c]). is_raw x" "\<forall>x \<in> set (wr_log tr). is_raw x"
    using trace_Cons.prems(1) by simp_all
  with raw_step [OF assms trace_Cons.hyps(1) this(1)] trace_Cons.IH
  show ?case unfolding eq bytes_append by simp
qed (simp add: raw_bytes_def)

lemma wr_log_split:
  "wr_log tr = a @ TlsFlush True # b \<Longrightarrow>
     \<exists>tr1 tr2. tr = tr1 @ CFlush (Ready (Inr ())) # tr2 \<and> wr_log tr1 = a \<and> wr_log tr2 = b"
proof (induction tr arbitrary: a)
  case (Cons c tr)
  have eq: "wr_log (c # tr) = wr_log [c] @ wr_log tr" using script_append(4) [of "[c]" tr] by simp
  show ?case
  proof (cases a)
    case Nil
    show ?thesis
    proof (cases "wr_log [c]")
      case Nil2: Nil
      with Cons.prems eq Nil have "wr_log tr = [] @ TlsFlush True # b" by simp
      from Cons.IH [OF this] obtain tr1 tr2 where
        "tr = tr1 @ CFlush (Ready (Inr ())) # tr2" "wr_log tr1 = []" "wr_log tr2 = b" by blast
      with Nil Nil2 show ?thesis
        using script_append(4) [of "[c]" tr1] by (intro exI [of _ "c # tr1"] exI [of _ tr2]) simp
    next
      case (Cons x xs)
      with Cons.prems eq Nil have "x = TlsFlush True" by simp
      with Cons have "c = CFlush (Ready (Inr ()))" "xs = []" by (cases c; simp)+
      with Cons.prems Nil show ?thesis by (intro exI [of _ "[]"] exI [of _ tr]) simp
    qed
  next
    case (Cons y ys)
    have len: "length (wr_log [c]) \<le> 1" by (cases c) simp_all
    show ?thesis
    proof (cases "wr_log [c]")
      case Nil
      with Cons.prems eq have "wr_log tr = a @ TlsFlush True # b" by simp
      from Cons.IH [OF this] obtain tr1 tr2 where
        "tr = tr1 @ CFlush (Ready (Inr ())) # tr2" "wr_log tr1 = a" "wr_log tr2 = b" by blast
      with Nil show ?thesis
        using script_append(4) [of "[c]" tr1] by (intro exI [of _ "c # tr1"] exI [of _ tr2]) simp
    next
      case (Cons x xs)
      with len have c: "wr_log [c] = [x]" by simp
      with Cons.prems eq \<open>a = y # ys\<close> have "x = y" "wr_log tr = ys @ TlsFlush True # b" by simp_all
      from Cons.IH [OF this(2)] obtain tr1 tr2 where
        "tr = tr1 @ CFlush (Ready (Inr ())) # tr2" "wr_log tr1 = ys" "wr_log tr2 = b" by blast
      with c \<open>x = y\<close> \<open>a = y # ys\<close> show ?thesis
        using script_append(4) [of "[c]" tr1] by (intro exI [of _ "c # tr1"] exI [of _ tr2]) simp
    qed
  qed
qed simp

text \<open>What the socket got, and what the peer decrypts.\<close>

lemma written_stack:
  assumes "tls_laws L V" and "trace (tls_ops L) s tr s'" and "calls_ordered raw (wr_log tr)"
    and "carries V (ts_conn s) (wh_sent (gs_out (ts_io s)))" and "tv_acc V (ts_conn s) = []"
  shows "\<exists>c. tv_peer V c = tls_bytes (wr_log tr) \<and>
    (if raw then wh_sent (gs_out (ts_io s')) = c @ raw_bytes (wr_log tr)
     else c = wh_sent (gs_out (ts_io s')) @ tv_unsent V (ts_conn s') \<and> raw_bytes (wr_log tr) = [])"
proof (cases raw)
  case False
  then have nr: "\<forall>x \<in> set (wr_log tr). \<not> is_raw x" using assms(3) by (simp add: calls_ordered_def)
  from carried_trace [OF assms(1,2) nr assms(4)] False no_raw_bytes [OF nr] assms(5) show ?thesis
    by (simp add: carries_def)
next
  case True
  then obtain a b where ab: "wr_log tr = a @ TlsFlush True # b" "\<forall>x \<in> set a. \<not> is_raw x" "\<forall>x \<in> set b. is_raw x"
    using assms(3) by (auto simp: calls_ordered_def)
  from wr_log_split [OF ab(1)] obtain tr1 tr2 where
    t: "tr = tr1 @ CFlush (Ready (Inr ())) # tr2" "wr_log tr1 = a" "wr_log tr2 = b" by blast
  obtain s1 s2 where tr: "trace (tls_ops L) s tr1 s1" "does (tls_ops L) s1 (CFlush (Ready (Inr ()))) s2"
    "trace (tls_ops L) s2 tr2 s'"
    using assms(2) unfolding t(1) trace_append trace_simps by blast
  have c1: "carries V (ts_conn s1) (wh_sent (gs_out (ts_io s1)))" "tv_acc V (ts_conn s1) = tls_bytes a"
    using carried_trace [OF assms(1) tr(1) _ assms(4)] t(2) ab(2) assms(5) by simp_all
  have c2: "carries V (ts_conn s2) (wh_sent (gs_out (ts_io s2)))" "tv_acc V (ts_conn s2) = tls_bytes a"
    using carried_step [OF assms(1) tr(2) _ c1(1)] c1(2) by (simp_all add: tls_bytes_def)
  have "tl_flush L (ts_conn s1) (ts_io s1) = (Ready (Inr ()), ts_conn s2, ts_io s2)"
    using tr(2) by (simp add: through_tls_iff)
  from write_lawsD(3) [OF assms(1) this] have "tv_unsent V (ts_conn s2) = []" .
  then have p: "tv_peer V (wh_sent (gs_out (ts_io s2))) = tls_bytes a" using c2 by (simp add: carries_def)
  have r: "wh_sent (gs_out (ts_io s')) = wh_sent (gs_out (ts_io s2)) @ raw_bytes b"
    using raw_trace [OF assms(1) tr(3)] t(3) ab(3) by simp
  have "\<forall>x \<in> set b. case x of TlsWrite d \<Rightarrow> False | _ \<Rightarrow> True" using ab(3) by (auto split: wr_call.splits)
  then have "tls_bytes b = []" by (induction b) (auto simp: tls_bytes_def split: wr_call.splits)
  moreover have "raw_bytes a = []" by (rule no_raw_bytes [OF ab(2)])
  ultimately have "tls_bytes (wr_log tr) = tls_bytes a" "raw_bytes (wr_log tr) = raw_bytes b"
    using bytes_append [of a "TlsFlush True # b"] bytes_append [of "[TlsFlush True]" b]
    unfolding ab(1) by (simp_all add: tls_bytes_def raw_bytes_def)
  with p r True show ?thesis by auto
qed

section \<open>The switch seen from the server\<close>

lemma turns_direct_mono: "turns_direct P \<Longrightarrow> turns_direct (P @ x)"
proof -
  assume "turns_direct P"
  then obtain h X where f: "feed response_header_new P = (Inr True, h, X)"
    and d: "is_direct (fst (snd (unpad unpadder_new X [])))"
    by (auto simp: turns_direct_def split: prod.splits sum.splits bool.splits)
  obtain res u b s where u: "unpad unpadder_new X [] = (res, u, b, s)" by (metis prod_cases4)
  have "feed response_header_new (P @ x) = (Inr True, h, X @ x)" using feed_append [OF f, of x] by simp
  moreover have "is_direct (fst (snd (unpad unpadder_new (X @ x) [])))"
  proof (cases res)
    case (Inr y)
    obtain r2 u2 b2 s2 where u2: "unpad u (b @ x) s = (r2, u2, b2, s2)" by (metis prod_cases4)
    with unpad_append [OF u, of x] u d unpad_flags_up [OF u2] Inr show ?thesis by simp
  qed (use unpad_append [OF u, of x] u d in simp)
  ultimately show ?thesis by (auto simp: turns_direct_def split: prod.splits)
qed

lemma turns_direct_prefix: "turns_direct P \<Longrightarrow> prefix P Q \<Longrightarrow> turns_direct Q"
  using turns_direct_mono by (auto elim: prefixE)

text \<open>The record with the switch is determined by the stream.\<close>

lemma switch_record_unique:
  assumes "read_laws L V" and "concat rs @ a = concat us @ b" and "whole rs" and "whole us"
    and "turns_direct (tv_open V rs)" and "\<not> turns_direct (tv_open V (butlast rs))"
    and "turns_direct (tv_open V us)" and "\<not> turns_direct (tv_open V (butlast us))"
  shows "rs = us \<and> a = b"
proof -
  have le: "xs = ys" if "prefix xs ys" "turns_direct (tv_open V xs)" "\<not> turns_direct (tv_open V (butlast ys))" for xs ys
  proof (rule ccontr)
    assume "xs \<noteq> ys"
    with that(1) obtain z zs where "ys = xs @ z # zs" by (metis prefixE append_Nil2 neq_Nil_conv)
    then have "butlast ys = xs @ butlast (z # zs)" by (simp add: butlast_append)
    then have "prefix xs (butlast ys)" by simp
    with open_mono [OF assms(1) this] turns_direct_prefix that(2,3) show False by blast
  qed
  from whole_prefix [OF assms(2-4)] have "rs = us"
    using le [of rs us] le [of us rs] assms(5-8) by blast
  with assms(2) show ?thesis by simp
qed

end
