(* ===== verification/ClearTls.thy ===== *)
theory ClearTls
  imports TlsStack
begin

text \<open>
  An instance of TLS whose records carry their plaintext in the clear: it shows that the laws
  assumed of TLS can hold, and runs the samples of the properties.
\<close>

section \<open>Records in the clear\<close>

text \<open>
  An instance of the parameters that satisfies the laws: records carry their plaintext in the
  clear. Its state is what it took, what it handed out and what it accepted.
\<close>

type_synonym clear_state = "bytes \<times> bytes \<times> bytes"

definition clear_open :: "bytes list \<Rightarrow> bytes" where
  "clear_open rs = concat (map (\<lambda>u. take (2 ^ 14) (drop 5 u)) rs)"

definition clear_view :: "clear_state tls_view" where
  "clear_view = \<lparr>tv_in = (\<lambda>(c, p, a). c), tv_plain = (\<lambda>(c, p, a). p), tv_acc = (\<lambda>(c, p, a). a),
     tv_unsent = (\<lambda>_. []), tv_open = clear_open, tv_peer = (\<lambda>c. c)\<rparr>"

definition clear_read :: "nat \<Rightarrow> clear_state \<Rightarrow> gated_socket \<Rightarrow> rd_result \<times> clear_state \<times> gated_socket" where
  "clear_read cap t g =
     (case t of (c, p, a) \<Rightarrow>
        let w = drop (length p) (clear_open (records c)) in
        if w \<noteq> [] then (Ready (Inr (take cap w)), (c, p @ take cap w, a), g)
        else
          case gate_poll_read 4096 (gs_gate g) of (q, g1) \<Rightarrow>
            let c = c @ got q; w = take cap (drop (length p) (clear_open (records c)));
                r = (if w \<noteq> [] then Ready (Inr w)
                     else case q of Ready (Inr d) \<Rightarrow> if d = [] then Ready (Inr []) else Pending | _ \<Rightarrow> q)
            in (r, (c, p @ w, a), g\<lparr>gs_gate := g1\<rparr>))"

definition clear_write :: "bytes \<Rightarrow> clear_state \<Rightarrow> gated_socket \<Rightarrow> (io_error + nat) poll \<times> clear_state \<times> gated_socket" where
  "clear_write d t g =
     (case t of (c, p, a) \<Rightarrow> case gate_poll_write d g of (r, g) \<Rightarrow> (r, (c, p, a @ taken d r), g))"

definition clear_tls :: "clear_state tls_lib" where
  "clear_tls = \<lparr>tl_read = clear_read, tl_write = clear_write,
     tl_flush = (\<lambda>t g. case gate_poll_flush g of (r, g) \<Rightarrow> (r, t, g)),
     tl_shutdown = (\<lambda>t g. case gate_poll_shutdown g of (r, g) \<Rightarrow> (r, t, g))\<rparr>"

lemma clear_read_laws: "read_laws clear_tls clear_view"
proof -
  have law: "gs_out g' = gs_out g \<and> tv_plain clear_view t' = tv_plain clear_view t @ got r \<and>
        got r = take cap (waiting clear_view t (tv_in clear_view t')) \<and>
        (\<exists>caps. run gate_step (gs_gate g, tv_in clear_view t) (map GRead caps) = (gs_gate g', tv_in clear_view t') \<and>
           (\<forall>k < length caps. waiting clear_view t
              (snd (run gate_step (gs_gate g, tv_in clear_view t) (map GRead (take k caps)))) = []))"
    if r: "clear_read cap t g = (r, t', g')" for cap t g r t' g'
  proof -
    obtain c p a where t: "t = (c, p, a)" by (cases t)
    let ?w = "drop (length p) (clear_open (records c))"
    show ?thesis
    proof (cases "?w = []")
      case False
      with r show ?thesis
        by (auto simp: clear_read_def t clear_view_def waiting_def Let_def intro!: exI [of _ "[]"])
    next
      case True
      obtain q g1 where q: "gate_poll_read 4096 (gs_gate g) = (q, g1)" by fastforce
      let ?u = "drop (length p) (clear_open (records (c @ got q)))"
      have "q = Ready (Inr d) \<Longrightarrow> got q = d" for d by simp
      then have got: "got r = take cap ?u" "t' = (c @ got q, p @ take cap ?u, a)" "g' = g\<lparr>gs_gate := g1\<rparr>"
        using r True q
        by (auto simp: clear_read_def t Let_def split: poll.splits sum.splits if_splits)
      have "run gate_step (gs_gate g, c) (map GRead [4096]) = (g1, c @ got q)" using q by simp
      then show ?thesis
        using got True q by (auto simp: t clear_view_def waiting_def intro!: exI [of _ "[4096]"])
    qed
  qed
  have "\<exists>x. clear_open (rs @ [u]) = clear_open rs @ x \<and> length x \<le> min (2 ^ 14) (length u)" for rs u
    by (intro exI [of _ "take (2 ^ 14) (drop 5 u)"]) (simp add: clear_open_def)
  moreover have "clear_open [] = []" by (simp add: clear_open_def)
  ultimately show ?thesis
    unfolding read_laws_def using law by (simp add: clear_tls_def clear_view_def)
qed

lemma sock_write_sent: "sock_write d w = (r, w') \<Longrightarrow> wh_sent w' = wh_sent w @ taken d r"
  by (auto simp: sock_write_def min_def split: list.splits wr_answer.splits)

lemma sock_flush_sent: "sock_flush w = (r, w') \<Longrightarrow> wh_sent w' = wh_sent w"
  by (auto simp: sock_flush_def split: list.splits wr_answer.splits)

lemma clear_laws: "tls_laws clear_tls clear_view"
proof -
  have "write_side_law clear_view (taken d r) t g t' g' \<and> (\<forall>n. r = Ready (Inr n) \<longrightarrow> n \<le> length d)"
    if "clear_write d t g = (r, t', g')" for d t g r t' g'
    using that by (auto simp: clear_write_def gate_poll_write_def write_side_law_def carries_def clear_view_def
        sock_write_sent split: prod.splits)
      (auto simp: sock_write_def split: list.splits wr_answer.splits)
  moreover have "write_side_law clear_view [] t g t g'"
    if "gate_poll_flush g = (r, g') \<or> gate_poll_shutdown g = (r, g')" for t g r g'
    using that by (auto simp: gate_poll_flush_def gate_poll_shutdown_def sock_shutdown_def write_side_law_def
        carries_def sock_flush_sent split: prod.splits if_splits)
  moreover have "tv_acc clear_view t' = tv_acc clear_view t" if "clear_read cap t g = (r, t', g')" for cap t g r t' g'
    using that by (auto simp: clear_read_def clear_view_def Let_def split: prod.splits if_splits)
  ultimately have "write_laws clear_tls clear_view"
    unfolding write_laws_def clear_tls_def by (fastforce simp: carries_def clear_view_def split: prod.splits)
  then show ?thesis using clear_read_laws by (simp add: tls_laws_def)
qed

interpretation clear: tls_library clear_tls clear_view
  by unfold_locales (rule clear_laws)

text \<open>
  A server that answers with one record - the response header and a frame with three bytes and
  the switch - and then three raw bytes, two of which arrive together with the record.
\<close>

definition sample_record :: bytes where
  "sample_record = [23, 3, 3, 0, 26] @ [0, 0] @ sample_uuid @ [2, 0, 3, 0, 0, 7, 8, 9]"

definition stack_start :: "clear_state tls_stream" where
  "stack_start =
     \<lparr>ts_conn = ([], [], []),
      ts_io = \<lparr>gs_gate = gate_new [Chunk (sample_record @ [1, 2]), Chunk [3]],
               gs_out = \<lparr>wh_answers = replicate 9 (Accept 50), wh_sent = [], wh_shut = False\<rparr>\<rparr>\<rparr>"

definition stack_first :: "((io_error + unit) \<times> (clear_state tls_stream, unit) vision_over) option" where
  "stack_first = write_first_on (tls_ops clear_tls) sample_rng [9] [5]
     (vision_client (start_gated stack_start) sample_uuid ())"

lemma stack_first_ok: "map_option fst stack_first = Some (Inr ())"
  by code_simp

lemma stack_first_fields:
  "map_option (\<lambda>(r, v). (gs_gate (ts_io (vs_inner v)), fst (ts_conn (vs_inner v)), fst (snd (ts_conn (vs_inner v))),
       vs_unpadder v, vs_header v, vs_read_raw v, vs_read_out v)) stack_first
     = Some (start_gating (gate_new [Chunk (sample_record @ [1, 2]), Chunk [3]]), [], [],
         unpadder_new, response_header_new, [], [])"
  by code_simp

definition sample_plain :: bytes where
  "sample_plain = [0, 0] @ sample_uuid @ [2, 0, 3, 0, 0, 7, 8, 9]"

lemma sample_feed: "feed response_header_new sample_plain = (Inr True, already_consumed, drop 2 sample_plain)"
  by code_simp

lemma sample_unpad: "unpad unpadder_new (drop 2 sample_plain) []
    = (Inr (), \<lparr>expect_uuid = False, up_done = True, up_direct = True\<rparr>, [], [7, 8, 9])"
  by code_simp

lemma sample_record_list: "sample_record = [23, 3, 3, 0, 26, 0, 0, 7, 7, 7, 7, 7, 7, 7, 7, 7, 7, 7, 7, 7, 7, 7, 7,
    2, 0, 3, 0, 0, 7, 8, 9]"
  by code_simp

lemma sample_gate_read:
  "gate_poll_read 4096 (gate_do_open (start_gating (gate_new [Chunk (sample_record @ [1, 2]), Chunk [3]])))
     = (Ready (Inr sample_record), \<lparr>g_src = [Chunk [3]], g_buf = [1, 2], g_gating = True, g_remaining = 0,
          g_open = False, g_wakes = 0\<rparr>)"
  by (simp add: gate_do_open_def start_gating_def gate_new_def gate_poll_read_def gate_loop.simps
      poll_fill_def hand_over_def record_len_def be_u16_def tls_record_header_len_def sample_record_list)

lemma sample_records: "records [] = []" "records sample_record = [sample_record]"
    "clear_open [sample_record] = sample_plain" "clear_open [] = []"
proof -
  show "records [] = []" by (simp add: units.simps complete_def)
  have l: "record_len sample_record = 31" "length sample_record = 31"
    by (simp_all add: record_len_def be_u16_def sample_record_list)
  then show "records sample_record = [sample_record]"
    by (subst units.simps, subst units.simps) (simp add: complete_def)
  have "drop 5 sample_record = sample_plain" by code_simp
  moreover have "length sample_plain = 26" by (simp add: sample_plain_def sample_uuid_def)
  ultimately show "clear_open [sample_record] = sample_plain" by (simp add: clear_open_def)
  show "clear_open [] = []" by (simp add: clear_open_def)
qed

lemma sample_tls_read:
  assumes "ts_conn s = ([], [], a)"
    and "gs_gate (ts_io s) = gate_do_open (start_gating (gate_new [Chunk (sample_record @ [1, 2]), Chunk [3]]))"
  shows "through_tls (clear_read read_chunk) s = (Ready (Inr sample_plain),
    \<lparr>ts_conn = (sample_record, sample_plain, a), ts_io = (ts_io s)\<lparr>gs_gate :=
       \<lparr>g_src = [Chunk [3]], g_buf = [1, 2], g_gating = True, g_remaining = 0, g_open = False, g_wakes = 0\<rparr>\<rparr>\<rparr>)"
proof -
  have "length sample_plain \<le> read_chunk" "sample_plain \<noteq> []" "0 < read_chunk"
    by (simp_all add: sample_plain_def sample_uuid_def read_chunk_def)
  then show ?thesis
    by (simp add: through_tls_def clear_read_def assms sample_gate_read sample_records)
qed

text \<open>A read from this start brings the frame and, with it, what the gate still held.\<close>

lemma stack_read_first:
  assumes "ts_conn (vs_inner v) = ([], [], a)"
    and "gs_gate (ts_io (vs_inner v)) = start_gating (gate_new [Chunk (sample_record @ [1, 2]), Chunk [3]])"
    and "vs_unpadder v = unpadder_new" and "vs_header v = response_header_new" and "vs_read_raw v = []"
    and "vs_read_out v = []" and "5 \<le> cap"
  shows "\<exists>v1. read_on (tls_ops clear_tls) cap v = Some (Ready (Inr [7, 8, 9, 1, 2]), v1) \<and>
    vs_read_out v1 = [] \<and> is_direct (vs_unpadder v1) \<and> g_src (gs_gate (ts_io (vs_inner v1))) = [Chunk [3]]"
proof -
  let ?T = "tls_ops clear_tls"
  have flags: "\<not> is_done unpadder_new" "\<not> is_direct unpadder_new"
    by (simp_all add: unpadder_new_def is_done_def is_direct_def)
  obtain s1 where s1: "so_read ?T read_chunk (so_open ?T (vs_inner v)) = (Ready (Inr sample_plain), s1)"
    "gs_gate (ts_io s1) = \<lparr>g_src = [Chunk [3]], g_buf = [1, 2], g_gating = True, g_remaining = 0,
        g_open = False, g_wakes = 0\<rparr>"
    using sample_tls_read [of "tls_open_record_gate (vs_inner v)" a] assms(1,2)
    by (simp add: clear_tls_def tls_open_record_gate_def)
  obtain v1 where v1: "absorb_on ?T sample_plain (v\<lparr>vs_inner := s1\<rparr>) = (None, v1)"
    "vs_read_out v1 = [7, 8, 9, 1, 2]" "is_direct (vs_unpadder v1)"
    "g_src (gs_gate (ts_io (vs_inner v1))) = [Chunk [3]]"
    using flags by (simp add: absorb_on_def assms sample_feed sample_unpad is_done_def is_direct_def
        tls_take_buffered_raw_def take_buffered_def s1(2))
  have "sample_plain \<noteq> []" by (simp add: sample_plain_def)
  then have "read_on ?T cap v = Some (Ready (Inr [7, 8, 9, 1, 2]), v1\<lparr>vs_read_out := []\<rparr>)"
    using s1(1) v1 flags assms(7) min_absorb1 [of 5 cap]
    by (subst read_on.simps) (simp add: assms(1-6) read_on.simps [of ?T cap v1] del: tls_ops_simps)
  with v1 show ?thesis by auto
qed

lemma stack_reads:
  assumes "ts_conn (vs_inner v) = ([], [], a)"
    and "gs_gate (ts_io (vs_inner v)) = start_gating (gate_new [Chunk (sample_record @ [1, 2]), Chunk [3]])"
    and "vs_unpadder v = unpadder_new" and "vs_header v = response_header_new" and "vs_read_raw v = []"
    and "vs_read_out v = []"
  shows "map_option snd (session_on (tls_ops clear_tls) rr (v, sent, [], True) [OpRead 100, OpRead 100])
    = Some (sent, [7, 8, 9, 1, 2, 3], True)"
proof -
  obtain v1 where r1: "read_on (tls_ops clear_tls) 100 v = Some (Ready (Inr [7, 8, 9, 1, 2]), v1)"
    "vs_read_out v1 = []" "is_direct (vs_unpadder v1)" "g_src (gs_gate (ts_io (vs_inner v1))) = [Chunk [3]]"
    using stack_read_first [OF assms, of 100] by auto
  then have "\<exists>v2. read_on (tls_ops clear_tls) 100 v1 = Some (Ready (Inr [3]), v2)"
    by (subst read_on.simps) (auto simp: tls_read_direct_def gate_read_direct_def)
  with r1 show ?thesis by auto
qed

lemma stack_run_ok:
  obtains v0 v where "stack_first = Some (Inr (), v0)"
    "session_on (tls_ops clear_tls) sample_rng (v0, [5], [], True) [OpRead 100, OpRead 100]
      = Some (v, [5], [7, 8, 9, 1, 2, 3], True)"
proof -
  obtain v0 where v0: "stack_first = Some (Inr (), v0)" using stack_first_ok by auto
  have "map_option snd (session_on (tls_ops clear_tls) sample_rng (v0, [5], [], True) [OpRead 100, OpRead 100])
    = Some ([5], [7, 8, 9, 1, 2, 3], True)"
    using stack_first_fields by (intro stack_reads [of _ "snd (snd (ts_conn (vs_inner v0)))"])
      (auto simp: v0 prod_eq_iff)
  then show thesis using that [OF v0] by fastforce
qed

end
