(* ===== verification/StackSession.thy ===== *)
theory StackSession
  imports ClearTls
begin

text \<open>
  Sessions of \<^verbatim>\<open>VisionStream\<close> over TLS over the record gate over the socket: what the application
  gets of what the server sent, what the server gets of what the application sent, and that
  every read returns.
\<close>

section \<open>A session over the stack\<close>

text \<open>A session of TLS from which nothing has been taken or given since the handshake.\<close>

definition fresh_stream :: "'t tls_view \<Rightarrow> 't tls_stream \<Rightarrow> bool" where
  "fresh_stream V s \<longleftrightarrow>
     tv_in V (ts_conn s) = [] \<and> tv_plain V (ts_conn s) = [] \<and> tv_acc V (ts_conn s) = [] \<and>
     carries V (ts_conn s) (wh_sent (gs_out (ts_io s))) \<and> g_remaining (gs_gate (ts_io s)) = 0"

lemma start_gated_fields [simp]:
  "ts_conn (start_gated s) = ts_conn s" "gs_out (ts_io (start_gated s)) = gs_out (ts_io s)"
  "gs_gate (ts_io (start_gated s)) = start_gating (gs_gate (ts_io s))"
  by (simp_all add: start_gated_def)

lemma reading_start:
  assumes "fresh_stream V s" and "read_laws L V"
  shows "reading_at V (gate_stream (gs_gate (ts_io s))) Padded [] (start_gated s)"
  using assms by (intro reading_paddedI [of _ _ _ _ _ "[]" "[]"])
    (simp_all add: fresh_stream_def start_gating_def gate_stream_def stands_def read_laws_def)

lemma stack_session:
  assumes "tls_laws L V" and "fresh_stream V s" and "length uuid = 16"
    and "write_first_on (tls_ops L) rr header payload (vision_client (start_gated s) uuid r) = Some (Inr (), v0)"
    and "session_on (tls_ops L) rr (v0, payload, [], True) es = Some (v, sent, out, ok)"
  obtains tr q where "trace (tls_ops L) (start_gated s) tr (vs_inner v)" "in_phase q v"
    "reading_at V (gate_stream (gs_gate (ts_io s))) q tr (vs_inner v)"
    "calls_ordered (vs_uplink_raw v) (wr_log tr)"
    "ok \<Longrightarrow> up_inv uuid header sent (over (script_for [] [] (wr_log tr) (rd_log tr)) v)"
    "ok \<Longrightarrow> down_at (tls_got (rd_log tr)) (concat (held_taken tr)) (content (raw_events tr))
       (over (script_for [] [] (wr_log tr) (rd_log tr)) v) out"
    "ok \<Longrightarrow> is_direct (vs_unpadder v) \<longrightarrow> switch_point (rd_log tr)"
proof (rule any_session_facts_of [OF tls_contract [OF assms(1)] assms(3-5)])
  fix tr q
  assume t: "trace (tls_ops L) (start_gated s) tr (vs_inner v)" "phases Padded tr = Some q" "in_phase q v"
    "calls_ordered (vs_uplink_raw v) (wr_log tr)"
    "ok \<Longrightarrow> up_inv uuid header sent (over (script_for [] [] (wr_log tr) (rd_log tr)) v)"
    "ok \<Longrightarrow> down_at (tls_got (rd_log tr)) (concat (held_taken tr)) (content (raw_events tr))
       (over (script_for [] [] (wr_log tr) (rd_log tr)) v) out"
    "ok \<Longrightarrow> is_direct (vs_unpadder v) \<longrightarrow> switch_point (rd_log tr)"
  have "read_laws L V" using assms(1) by (simp add: tls_laws_def)
  from reading_trace [OF assms(1) t(1) reading_start [OF assms(2) this] t(2)]
  have "reading_at V (gate_stream (gs_gate (ts_io s))) q tr (vs_inner v)" by simp
  from that [OF t(1,3) this t(4-7)] show thesis .
qed

text \<open>What a plaintext downlink deframes to, as far as it has come.\<close>

definition deframed :: "bytes \<Rightarrow> bytes" where
  "deframed P =
     (case feed response_header_new P of
        (Inr True, h, X) \<Rightarrow> snd (snd (snd (unpad unpadder_new X [])))
      | _ \<Rightarrow> [])"

lemma down_at_deframed:
  assumes "down_at P held raw v out"
  shows "if turns_direct P then out @ vs_read_out v @ content (i_raw (vs_inner v)) = deframed P @ held @ raw
    else out @ vs_read_out v = deframed P"
  using assms down_at_direct [OF assms]
  by (auto simp: down_at_def Let_def deframed_def unpadder_new_def is_direct_def split: if_splits)

lemma deframed_mono: "prefix (deframed P) (deframed (P @ x))"
proof -
  obtain r h X where f: "feed response_header_new P = (r, h, X)" by (metis prod_cases3)
  show ?thesis
  proof (cases "r = Inr True")
    case True
    obtain res u b s where u: "unpad unpadder_new X [] = (res, u, b, s)" by (metis prod_cases4)
    obtain r2 u2 b2 s2 where u2: "unpad unpadder_new (X @ x) [] = (r2, u2, b2, s2)" by (metis prod_cases4)
    have "feed response_header_new (P @ x) = (Inr True, h, X @ x)"
      using feed_append [OF f, of x] by (simp add: True)
    moreover have "prefix s s2"
    proof (cases res)
      case (Inr y)
      obtain r3 u3 b3 s3 where "unpad u (b @ x) s = (r3, u3, b3, s3)" by (metis prod_cases4)
      with unpad_append [OF u, of x] unpad_extends [of u "b @ x" s] u2 Inr show ?thesis by auto
    qed (use unpad_append [OF u, of x] u2 in simp)
    ultimately show ?thesis using f u u2 by (simp add: deframed_def True)
  next
    case False
    with f have "deframed P = []" by (auto simp: deframed_def split: sum.splits bool.splits)
    then show ?thesis by simp
  qed
qed

lemma before_switch:
  assumes "reading_at V W q tr s'" and "read_laws L V" and "q \<noteq> Around"
    and "W = concat rs @ raw" and "whole rs" and "turns_direct (tv_open V rs)"
    and "\<not> turns_direct (tls_got (rd_log tr))"
  shows "prefix (tls_got (rd_log tr)) (tv_open V rs)"
proof -
  let ?t = "ts_conn s'"
  let ?us = "records (tv_in V ?t)"
  note c = reading_common [OF assms(1,3)]
  have "prefix (tv_plain V ?t) (tv_open V ?us)"
  proof (cases "q = Plain")
    case True
    then show ?thesis using assms(1) by (auto simp: reading_plain)
  next
    case False
    obtain vs part where "tv_in V ?t = concat vs @ part" "stands (gs_gate (ts_io s')) vs part"
      "tv_plain V ?t = tv_open V vs" by (rule reading_paddedE [OF assms(1,3) False])
    then show ?thesis by (simp add: records_stands)
  qed
  moreover have "prefix rs ?us \<or> prefix ?us rs"
  proof (rule whole_prefix)
    show "concat rs @ raw = concat ?us @ unit_rest 5 record_len (tv_in V ?t) @ gate_stream (gs_gate (ts_io s'))"
      using c(1) assms(4) by (simp add: units_rest flip: append_assoc)
    show "whole ?us" using rec.units_sound by blast
  qed (rule assms(5))
  ultimately have "prefix (tv_plain V ?t) (tv_open V rs) \<or> prefix (tv_open V rs) (tv_plain V ?t)"
    using open_mono [OF assms(2)] by (meson prefix_order.trans prefix_same_cases)
  then show ?thesis using turns_direct_prefix [OF assms(6)] assms(7) by (auto simp: c(2))
qed

lemma at_switch:
  assumes "reading_at V W Around tr s'" and "read_laws L V" and "switch_point (rd_log tr)"
    and "W = concat rs @ raw" and "whole rs" and "turns_direct (tv_open V rs)"
    and "\<not> turns_direct (tv_open V (butlast rs))"
  shows "tls_got (rd_log tr) = tv_open V rs \<and>
    raw = concat (held_taken tr) @ content (raw_events tr) @ content (g_src (gs_gate (ts_io s')))"
proof -
  obtain us a d b where at:
    "W = concat us @ concat (held_taken tr) @ content (raw_events tr) @ content (g_src (gs_gate (ts_io s')))"
    "whole us" "rd_log tr = (a @ [TlsRead d]) @ HeldTaken # b" "HeldTaken \<notin> set a"
    "set b \<subseteq> {RawRead}" "tls_got a = tv_open V (butlast us)" "tls_got a @ d = tv_open V us"
    using assms(1) by (rule reading_aroundE)
  obtain a2 d2 b2 where sw: "rd_log tr = (a2 @ [TlsRead d2]) @ HeldTaken # b2"
    "\<not> turns_direct (tls_got a2)" "turns_direct (tls_got a2 @ d2)"
    using assms(3) unfolding switch_point_def by auto
  have "a @ [TlsRead d] = a2 @ [TlsRead d2] \<and> b = b2"
  proof (rule append_Cons_eq_iff [THEN iffD1])
    show "HeldTaken \<notin> set (a @ [TlsRead d])" using at(4) by simp
    show "HeldTaken \<notin> set b" using at(5) by auto
    show "(a @ [TlsRead d]) @ HeldTaken # b = (a2 @ [TlsRead d2]) @ HeldTaken # b2" using at(3) sw(1) by simp
  qed
  then have us: "\<not> turns_direct (tv_open V (butlast us))" "turns_direct (tv_open V us)"
    using sw at(6,7) by auto
  have "concat rs @ raw = concat us @ concat (held_taken tr) @ content (raw_events tr) @ content (g_src (gs_gate (ts_io s')))"
    using at(1) assms(4) by simp
  from switch_record_unique [OF assms(2) this assms(5) at(2) assms(6,7) us(2,1)]
  have "rs = us" "raw = concat (held_taken tr) @ content (raw_events tr) @ content (g_src (gs_gate (ts_io s')))"
    by simp_all
  moreover have "tls_got b = []" using at(5) by (induction b) auto
  ultimately show ?thesis using at(3,7) by simp
qed

lemma downlink_seamless:
  assumes "tls_laws L V" and "fresh_stream V s" and "length uuid = 16"
    and "write_first_on (tls_ops L) rr header payload (vision_client (start_gated s) uuid r) = Some (Inr (), v0)"
    and "session_on (tls_ops L) rr (v0, payload, [], True) es = Some (v, sent, out, True)"
    and "gate_stream (gs_gate (ts_io s)) = concat rs @ raw" and "whole rs"
    and "turns_direct (tv_open V rs)" and "\<not> turns_direct (tv_open V (butlast rs))"
  shows "\<exists>rest. out @ vs_read_out v @ rest = deframed (tv_open V rs) @ raw \<and>
    (is_direct (vs_unpadder v) \<longrightarrow> rest = content (g_src (gs_gate (ts_io (vs_inner v)))))"
proof (rule stack_session [OF assms(1-5)])
  fix tr q
  let ?P = "tls_got (rd_log tr)"
  assume t: "in_phase q v" "reading_at V (gate_stream (gs_gate (ts_io s))) q tr (vs_inner v)"
    and down: "True \<Longrightarrow> down_at ?P (concat (held_taken tr)) (content (raw_events tr))
       (over (script_for [] [] (wr_log tr) (rd_log tr)) v) out"
    and sw: "True \<Longrightarrow> is_direct (vs_unpadder v) \<longrightarrow> switch_point (rd_log tr)"
  have rd: "read_laws L V" using assms(1) by (simp add: tls_laws_def)
  have td: "turns_direct ?P \<longleftrightarrow> is_direct (vs_unpadder v)" using down_at_direct [OF down] by simp
  have d: "out @ vs_read_out v =
      (if turns_direct ?P then deframed ?P @ concat (held_taken tr) @ content (raw_events tr) else deframed ?P)"
    using down_at_deframed [OF down] by (auto simp: script_for_def split: if_splits)
  show ?thesis
  proof (cases "is_direct (vs_unpadder v)")
    case True
    then have "q = Around" using t(1) by (simp add: in_phase_def)
    with at_switch [OF _ rd _ assms(6-9)] t(2) sw True
    have "?P = tv_open V rs"
      "raw = concat (held_taken tr) @ content (raw_events tr) @ content (g_src (gs_gate (ts_io (vs_inner v))))"
      by simp_all
    with d td True show ?thesis by (auto simp flip: append_assoc)
  next
    case False
    then have "q \<noteq> Around" using t(1) by (simp add: in_phase_def)
    from before_switch [OF t(2) rd this assms(6-8)] td False
    have "prefix ?P (tv_open V rs)" by simp
    then have "prefix (deframed ?P) (deframed (tv_open V rs))" using deframed_mono by (auto elim: prefixE)
    then obtain zs where "deframed (tv_open V rs) = deframed ?P @ zs" by (auto elim: prefixE)
    with d td False have "out @ vs_read_out v @ zs @ raw = deframed (tv_open V rs) @ raw"
      by (metis append.assoc)
    with False show ?thesis by blast
  qed
qed

lemma uplink_on_wire:
  assumes "tls_laws L V" and "fresh_stream V s" and "length uuid = 16"
    and "write_first_on (tls_ops L) rr header payload (vision_client (start_gated s) uuid r) = Some (Inr (), v0)"
    and "session_on (tls_ops L) rr (v0, payload, [], True) es = Some (v, sent, out, True)"
  shows "\<exists>c raw frames u y. let w = wh_sent (gs_out (ts_io (vs_inner v))) in
    (if vs_uplink_raw v then w = c @ raw else c = w @ tv_unsent V (ts_conn (vs_inner v)) \<and> raw = []) \<and>
    tv_peer V c @ vs_write_pending v = header @ frames \<and>
    unpad unpadder_new frames [] = (Inr (), u, [], y) \<and> y @ raw = sent \<and>
    is_direct u = wants_direct (vs_padder v) \<and> (vs_uplink_raw v \<longrightarrow> is_direct u \<and> vs_write_pending v = [])"
proof (rule stack_session [OF assms])
  fix tr q
  let ?i = "script_for [] [] (wr_log tr) (rd_log tr)"
  assume t: "trace (tls_ops L) (start_gated s) tr (vs_inner v)" "calls_ordered (vs_uplink_raw v) (wr_log tr)"
    and up: "True \<Longrightarrow> up_inv uuid header sent (over ?i v)"
  obtain frames u y where f: "tls_bytes (wr_log tr) @ vs_write_pending v = header @ frames"
    "unpad unpadder_new frames [] = (Inr (), u, [], y)" "y @ raw_bytes (wr_log tr) = sent"
    "is_direct u = wants_direct (vs_padder v)" "vs_uplink_raw v \<longrightarrow> vs_write_pending v = []"
    using up_inv_peer [OF up] by (auto simp: script_for_def)
  have "vs_uplink_raw v \<longrightarrow> wants_direct (vs_padder v)"
    using up by (simp add: up_inv_def Let_def wants_direct_def)
  moreover obtain c where c: "tv_peer V c = tls_bytes (wr_log tr)"
    "if vs_uplink_raw v then wh_sent (gs_out (ts_io (vs_inner v))) = c @ raw_bytes (wr_log tr)
     else c = wh_sent (gs_out (ts_io (vs_inner v))) @ tv_unsent V (ts_conn (vs_inner v)) \<and> raw_bytes (wr_log tr) = []"
    using written_stack [OF assms(1) t] assms(2) by (auto simp: fresh_stream_def)
  ultimately show ?thesis
    using f(2-5) f(1) [folded c(1)] unfolding Let_def
    by (intro exI [of _ c] exI [of _ "raw_bytes (wr_log tr)"] exI [of _ frames] exI [of _ u] exI [of _ y])
      (cases "vs_uplink_raw v"; simp)
qed

section \<open>Reads return\<close>

text \<open>What bounds the rounds of a read: the plaintext the stream of the socket can still bring.\<close>

definition plain_left :: "'t tls_view \<Rightarrow> 't tls_stream \<Rightarrow> nat" where
  "plain_left V s =
     length (tv_in V (ts_conn s) @ gate_stream (gs_gate (ts_io s))) - length (tv_plain V (ts_conn s))"

lemma poll_plain_left:
  assumes "read_laws L V" and "through_tls (tl_read L cap) s = (Ready (Inr d), s')" and "d \<noteq> []"
  shows "plain_left V s' < plain_left V s"
proof -
  have t: "tl_read L cap (ts_conn s) (ts_io s) = (Ready (Inr d), ts_conn s', ts_io s')"
    using assms(2) by (simp add: through_tls_iff)
  from read_lawsD [OF assms(1) t] obtain caps where
    law: "tv_plain V (ts_conn s') = tv_plain V (ts_conn s) @ d"
      "d = take cap (waiting V (ts_conn s) (tv_in V (ts_conn s')))"
      "run gate_step (gs_gate (ts_io s), tv_in V (ts_conn s)) (map GRead caps)
        = (gs_gate (ts_io s'), tv_in V (ts_conn s'))" by (metis got.simps(1))
  have "length d \<le> length (waiting V (ts_conn s) (tv_in V (ts_conn s')))"
    by (subst law(2)) simp
  also have "\<dots> = length (tv_open V (records (tv_in V (ts_conn s')))) - length (tv_plain V (ts_conn s))"
    by (simp add: waiting_def)
  finally have "length (tv_plain V (ts_conn s)) + length d \<le> length (tv_open V (records (tv_in V (ts_conn s'))))"
    using assms(3) by (cases d) auto
  also have "\<dots> \<le> length (concat (records (tv_in V (ts_conn s'))))" by (rule open_length [OF assms(1)])
  also have "\<dots> \<le> length (tv_in V (ts_conn s'))"
    using arg_cong [OF units_rest [of 5 record_len "tv_in V (ts_conn s')"], of length] by simp
  finally have "length (tv_plain V (ts_conn s)) + length d \<le> length (tv_in V (ts_conn s'))" .
  then show ?thesis
    using arg_cong [OF gate_run_stream [OF law(3)], of length] assms(3) law(1)
    by (cases d) (auto simp: plain_left_def)
qed

lemma absorb_plain_left:
  assumes "absorb_on (tls_ops L) d v = (e, v')"
  shows "plain_left V (vs_inner v') \<le> plain_left V (vs_inner v)"
  using assms
  by (auto simp: absorb_on_def Let_def plain_left_def tls_stop_record_gate_def tls_take_buffered_raw_def
      take_buffered_def gate_stream_def stop_gating_def
      split: prod.splits sum.splits bool.splits if_splits)

lemma read_terminates:
  assumes "read_laws L V"
  shows "\<exists>r v'. read_on (tls_ops L) cap v = Some (r, v')"
proof (induction "plain_left V (vs_inner v)" arbitrary: v rule: less_induct)
  case less
  let ?s = "tls_open_record_gate (vs_inner v)"
  obtain p s where p: "through_tls (tl_read L read_chunk) ?s = (p, s)" by fastforce
  show ?case
  proof (cases "\<exists>d. p = Ready (Inr d) \<and> d \<noteq> [] \<and> fst (absorb_on (tls_ops L) d (v\<lparr>vs_inner := s\<rparr>)) = None")
    case True
    then obtain d u where d: "p = Ready (Inr d)" "d \<noteq> []" "absorb_on (tls_ops L) d (v\<lparr>vs_inner := s\<rparr>) = (None, u)"
      by (metis prod.collapse)
    have "plain_left V (vs_inner u) < plain_left V (vs_inner v)"
      using absorb_plain_left [OF d(3), of V] poll_plain_left [OF assms p [unfolded d(1)] d(2)]
      by (simp add: plain_left_def tls_open_record_gate_def)
    from less [OF this] obtain r v' where "read_on (tls_ops L) cap u = Some (r, v')" by blast
    then show ?thesis using p d by (subst read_on.simps) (auto simp: Let_def split: prod.splits)
  next
    case False
    then show ?thesis
      using p by (subst read_on.simps) (auto simp: Let_def split: prod.splits poll.splits sum.splits option.splits)
  qed
qed

lemma stack_fresh: "fresh_stream clear_view stack_start"
  by (simp add: fresh_stream_def stack_start_def clear_view_def carries_def gate_new_def)

lemma sample_switch: "turns_direct sample_plain" "\<not> turns_direct []" "deframed sample_plain = [7, 8, 9]"
  by (simp_all add: turns_direct_def deframed_def sample_feed sample_unpad is_direct_def)
    (simp add: feed_def response_header_new_def)


section \<open>Properties\<close>

text \<open>
  C2: The switch to direct copy is seamless, through all layers. Suppose the server sent the TLS
  records \<open>rs\<close> and then, around TLS, the bytes \<open>raw\<close>, and the switch is in the plaintext of the last
  of the records. Then at every moment of a session in which no call has failed the
  application has got a beginning of what the records deframe to, followed by \<open>raw\<close>; and once
  it has switched, exactly the bytes the socket still holds are missing. Nothing of the raw
  bytes is swallowed by the TLS library, however they arrive at the socket and whatever it
  reads ahead of itself; nothing is lost, repeated or out of order.
\<close>

theorem direct_switch_lossless:
  assumes "tls_laws L V" and "fresh_stream V s" and "length uuid = 16"
    and "write_first_on (tls_ops L) rr header payload (vision_client (start_gated s) uuid r) = Some (Inr (), v0)"
    and "session_on (tls_ops L) rr (v0, payload, [], True) es = Some (v, sent, out, True)"
    and "gate_stream (gs_gate (ts_io s)) = concat rs @ raw" and "whole rs"
    and "turns_direct (tv_open V rs)" and "\<not> turns_direct (tv_open V (butlast rs))"
  shows "\<exists>rest. out @ vs_read_out v @ rest = deframed (tv_open V rs) @ raw \<and>
    (is_direct (vs_unpadder v) \<longrightarrow> rest = content (g_src (gs_gate (ts_io (vs_inner v)))))"
  by (rule downlink_seamless [OF assms])

theorem direct_switch_lossless_witness:
  "\<exists>v0 v. stack_first = Some (Inr (), v0) \<and>
    session_on (tls_ops clear_tls) sample_rng (v0, [5], [], True) [OpRead 100, OpRead 100]
      = Some (v, [5], [7, 8, 9, 1, 2, 3], True) \<and> vs_read_out v = []"
proof (rule stack_run_ok)
  fix v0 v
  assume s: "stack_first = Some (Inr (), v0)"
    "session_on (tls_ops clear_tls) sample_rng (v0, [5], [], True) [OpRead 100, OpRead 100]
      = Some (v, [5], [7, 8, 9, 1, 2, 3], True)"
  have "gate_stream (gs_gate (ts_io stack_start)) = concat [sample_record] @ [1, 2, 3]"
    by (simp add: stack_start_def gate_new_def gate_stream_def)
  moreover have "5 \<le> length sample_record \<and> record_len sample_record = length sample_record"
    by (simp add: record_len_def be_u16_def sample_record_list)
  ultimately obtain rest where "[7, 8, 9, 1, 2, 3] @ vs_read_out v @ rest = deframed sample_plain @ [1, 2, 3]"
    using direct_switch_lossless [OF clear_laws stack_fresh _ s [unfolded stack_first_def], of "[sample_record]" "[1, 2, 3]"]
      sample_switch sample_records by (auto simp: sample_uuid_def clear_view_def)
  with s show ?thesis by (auto simp: sample_switch)
qed

text \<open>
  C4: The uplink on the wire. In a session in which no call has failed, the socket got TLS
  ciphertext and, once the uplink has switched, the raw bytes right behind it, with nothing
  of TLS among them. The server decrypts the ciphertext to the VLESS header and frames, which
  deframe - with what is still pending - to bytes that together with the raw ones are those
  reported as written; and it has seen the switch before the first raw byte.
\<close>

theorem direct_uplink:
  assumes "tls_laws L V" and "fresh_stream V s" and "length uuid = 16"
    and "write_first_on (tls_ops L) rr header payload (vision_client (start_gated s) uuid r) = Some (Inr (), v0)"
    and "session_on (tls_ops L) rr (v0, payload, [], True) es = Some (v, sent, out, True)"
  shows "\<exists>c raw frames u y. let w = wh_sent (gs_out (ts_io (vs_inner v))) in
    (if vs_uplink_raw v then w = c @ raw else c = w @ tv_unsent V (ts_conn (vs_inner v)) \<and> raw = []) \<and>
    tv_peer V c @ vs_write_pending v = header @ frames \<and>
    unpad unpadder_new frames [] = (Inr (), u, [], y) \<and> y @ raw = sent \<and>
    is_direct u = wants_direct (vs_padder v) \<and> (vs_uplink_raw v \<longrightarrow> is_direct u \<and> vs_write_pending v = [])"
  by (rule uplink_on_wire [OF assms])

theorem direct_uplink_witness:
  "\<exists>v0 v c frames u y raw. stack_first = Some (Inr (), v0) \<and>
    session_on (tls_ops clear_tls) sample_rng (v0, [5], [], True) [OpRead 100, OpRead 100]
      = Some (v, [5], [7, 8, 9, 1, 2, 3], True) \<and>
    c @ vs_write_pending v = 9 # frames \<and> unpad unpadder_new frames [] = (Inr (), u, [], y) \<and> y @ raw = [5]"
proof (rule stack_run_ok)
  fix v0 v
  assume s: "stack_first = Some (Inr (), v0)"
    "session_on (tls_ops clear_tls) sample_rng (v0, [5], [], True) [OpRead 100, OpRead 100]
      = Some (v, [5], [7, 8, 9, 1, 2, 3], True)"
  then show ?thesis
    using direct_uplink [OF clear_laws stack_fresh _ s [unfolded stack_first_def]]
    by (fastforce simp: sample_uuid_def clear_view_def Let_def)
qed

text \<open>
  C15: Every read of the stream returns: over TLS and the record gate the loop of \<^verbatim>\<open>poll_read\<close>
  ends, in every state, whatever arrives: each round that goes on has consumed plaintext, and
  there is no more of it than ciphertext. So a session never hangs inside one poll.
\<close>

theorem stream_reads_return:
  assumes "tls_laws L V"
  shows "\<exists>r v'. read_on (tls_ops L) cap v = Some (r, v')"
  using assms by (intro read_terminates [of L V]) (simp add: tls_laws_def)

theorem stream_reads_return_witness:
  "\<exists>r v'. read_on (tls_ops clear_tls) 10 (vision_client stack_start sample_uuid ()) = Some (r, v')"
  by (rule stream_reads_return [OF clear_laws])

end
