(* ===== verification/RealityRandom.thy ===== *)
theory RealityRandom
  imports RErrors "HOL-Library.Sublist"
begin

text \<open>
  The deterministic randomness of \<^verbatim>\<open>src/outbound/reality.rs\<close>: \<^verbatim>\<open>SeedStream\<close>, the script that
  is in force while a ClientHello is built, and \<^verbatim>\<open>ScriptedRandom\<close>, which serves rustls from
  it. SHA-256 is a parameter, and so is the construction of the ClientHello: an interaction
  that draws random bytes and asks for a key share.
\<close>

section \<open>The byte stream\<close>

text \<open>\<^verbatim>\<open>Sha256::finalize\<close> returns an array of 32 bytes by its type.\<close>

definition digest32 :: "(bytes \<Rightarrow> bytes) \<Rightarrow> bytes \<Rightarrow> bytes" where
  "digest32 sha x = take 32 (sha x @ replicate 32 0)"

lemma length_digest32 [simp]: "length (digest32 sha x) = 32"
  by (simp add: digest32_def)

record seed_stream =
  ss_seed :: bytes
  ss_counter :: u64
  ss_buf :: bytes

definition seed_stream_new :: "bytes \<Rightarrow> seed_stream" where
  "seed_stream_new seed = \<lparr>ss_seed = seed, ss_counter = 0, ss_buf = []\<rparr>"

definition refill :: "(bytes \<Rightarrow> bytes) \<Rightarrow> seed_stream \<Rightarrow> seed_stream" where
  "refill sha st =
     (if ss_buf st = []
      then st\<lparr>ss_buf := digest32 sha (ss_seed st @ u64_le (ss_counter st)),
              ss_counter := ss_counter st + 1\<rparr>
      else st)"

lemma refill_nonempty: "ss_buf (refill sha st) \<noteq> []"
proof (cases "ss_buf st = []")
  case True
  have "digest32 sha x \<noteq> []" for x
    by (metis length_digest32 list.size(3) zero_neq_numeral)
  with True show ?thesis by (simp add: refill_def)
qed (simp add: refill_def)

text \<open>\<^verbatim>\<open>SeedStream::fill\<close> of a slice of \<open>n\<close> bytes.\<close>

function seed_fill :: "(bytes \<Rightarrow> bytes) \<Rightarrow> nat \<Rightarrow> seed_stream \<Rightarrow> bytes \<times> seed_stream" where
  "seed_fill sha n st =
     (if n = 0 then ([], st)
      else
        let st = refill sha st;
            m = min n (length (ss_buf st));
            (out, st') = seed_fill sha (n - m) (st\<lparr>ss_buf := drop m (ss_buf st)\<rparr>)
        in (take m (ss_buf st) @ out, st'))"
  by pat_completeness auto

termination
proof (relation "measure (\<lambda>(sha, n, st). n)")
  fix sha n st x m
  assume "n \<noteq> 0" "x = refill sha st" "m = min n (length (ss_buf x))"
  then show "((sha, n - m, x\<lparr>ss_buf := drop m (ss_buf x)\<rparr>), sha, n, st) \<in> measure (\<lambda>(sha, n, st). n)"
    using refill_nonempty [of sha st] by (auto simp: min_def)
qed simp

declare seed_fill.simps [simp del]

lemma seed_fill_0 [simp]: "seed_fill sha 0 st = ([], st)"
  by (simp add: seed_fill.simps)

lemma length_seed_fill: "length (fst (seed_fill sha n st)) = n"
proof (induction sha n st rule: seed_fill.induct)
  case (1 sha n st)
  then show ?case
    by (subst seed_fill.simps) (auto simp: Let_def split: prod.splits)
qed

text \<open>Filling in two steps is filling at once.\<close>

lemma refill_idem: "refill sha (refill sha st) = refill sha st"
  using refill_nonempty [of sha st] by (simp add: refill_def [of sha "refill sha st"])

lemma seed_fill_refill: "0 < n \<Longrightarrow> seed_fill sha n (refill sha st) = seed_fill sha n st"
  by (subst (1 2) seed_fill.simps) (simp add: refill_idem)

lemma seed_fill_step:
  assumes "k \<le> length (ss_buf st)"
  shows "seed_fill sha (k + m) st =
    (case seed_fill sha m (st\<lparr>ss_buf := drop k (ss_buf st)\<rparr>) of (b, st2) \<Rightarrow> (take k (ss_buf st) @ b, st2))"
proof (cases "k = 0 \<or> m = 0")
  case True
  show ?thesis
  proof (cases "k = 0")
    case False
    with True assms have "m = 0" "ss_buf st \<noteq> []" "min k (length (ss_buf st)) = k" by auto
    then show ?thesis
      using False by (subst seed_fill.simps) (simp add: refill_def Let_def)
  qed (simp split: prod.splits)
next
  case False
  then have ne: "ss_buf st \<noteq> []" using assms by auto
  let ?n = "length (ss_buf st)"
  have r: "refill sha st = st" using ne by (simp add: refill_def)
  show ?thesis
  proof (cases "k = ?n")
    case True
    with False ne r show ?thesis by (subst seed_fill.simps) (simp add: Let_def)
  next
    case less: False
    let ?st = "st\<lparr>ss_buf := drop k (ss_buf st)\<rparr>"
    have r2: "refill sha ?st = ?st" using less assms by (simp add: refill_def)
    have "min (k + m) ?n = k + min m (?n - k)" using assms by linarith
    with False less assms show ?thesis
      by (subst (1 2) seed_fill.simps)
        (simp add: r r2 Let_def take_add add.commute split: prod.splits)
  qed
qed

lemma seed_fill_append:
  "seed_fill sha (n + m) st =
     (case seed_fill sha n st of (a, st1) \<Rightarrow> (case seed_fill sha m st1 of (b, st2) \<Rightarrow> (a @ b, st2)))"
proof (induction sha n st rule: seed_fill.induct)
  case (1 sha n st)
  show ?case
  proof (cases "n = 0")
    case False
    let ?st = "refill sha st"
    let ?k = "min n (length (ss_buf ?st))"
    have "seed_fill sha (n + m) st = seed_fill sha (?k + (n - ?k + m)) ?st"
      using False by (simp add: seed_fill_refill)
    also have "\<dots> = (case seed_fill sha (n - ?k + m) (?st\<lparr>ss_buf := drop ?k (ss_buf ?st)\<rparr>) of
        (b, st2) \<Rightarrow> (take ?k (ss_buf ?st) @ b, st2))"
      by (rule seed_fill_step) simp
    also have "\<dots> = (case seed_fill sha n st of (a, st1) \<Rightarrow>
        (case seed_fill sha m st1 of (b, st2) \<Rightarrow> (a @ b, st2)))"
      using 1 [OF False refl refl] False
      by (simp add: seed_fill.simps [of sha n st] Let_def split: prod.splits)
    finally show ?thesis .
  qed (simp split: prod.splits)
qed

end
