(* ===== verification/RealityScript.thy ===== *)
theory RealityScript
  imports RealityRandom
begin

text \<open>
  The random script and the key shares of \<^verbatim>\<open>src/outbound/reality.rs\<close>: what rustls is given
  while it builds a ClientHello. The cryptography comes from other crates and is the
  parameter \<open>cr\<close>; an ML-KEM key object of aws-lc is a public key with a function that completes
  an exchange.
\<close>

record crypto =
  cr_sha256 :: "bytes \<Rightarrow> bytes"
  cr_x25519 :: "bytes \<Rightarrow> bytes \<Rightarrow> bytes"
  cr_base :: bytes
  cr_hkdf :: "bytes \<Rightarrow> bytes \<Rightarrow> bytes \<Rightarrow> bytes option"
  cr_seal :: "bytes \<Rightarrow> bytes \<Rightarrow> bytes \<Rightarrow> bytes \<Rightarrow> bytes option"
  cr_hmac512 :: "bytes \<Rightarrow> bytes \<Rightarrow> bytes"

text \<open>\<^verbatim>\<open>rustls::Error\<close>: the variants the code makes, the others with their text.\<close>

datatype tls_error = General bytes | InvalidKeyShare | OtherTls bytes

section \<open>The script\<close>

record kx =
  kx_pub :: bytes
  kx_complete :: "bytes \<Rightarrow> tls_error + bytes"

datatype mlkem_share = PubOnly bytes | Active kx

fun mlkem_pub_key :: "mlkem_share \<Rightarrow> bytes" where
  "mlkem_pub_key (PubOnly b) = b"
| "mlkem_pub_key (Active kx) = kx_pub kx"

record script =
  sc_stream :: seed_stream
  sc_calls :: "bytes list"
  sc_replace :: "(nat \<times> bytes) option"
  sc_kx_secret :: bytes
  sc_mlkem :: "mlkem_share option"

text \<open>
  \<^verbatim>\<open>ScriptedRandom::fill\<close> of a buffer of \<open>n\<close> bytes; \<open>fb\<close> is the generator of aws-lc, used
  when no script is in force on the thread.
\<close>

definition random_fill ::
  "crypto \<Rightarrow> (nat \<Rightarrow> unit + bytes) \<Rightarrow> nat \<Rightarrow> script option \<Rightarrow> (unit + bytes) \<times> script option" where
  "random_fill cr fb n slot =
     (case slot of
        Some sc \<Rightarrow>
          let (buf, stream) = seed_fill (cr_sha256 cr) n (sc_stream sc);
              idx = length (sc_calls sc);
              buf = (case sc_replace sc of
                       Some (k, bytes) \<Rightarrow> if k = idx \<and> length bytes = length buf then bytes else buf
                     | None \<Rightarrow> buf)
          in (Inr buf, Some (sc\<lparr>sc_stream := stream, sc_calls := sc_calls sc @ [buf]\<rparr>))
      | None \<Rightarrow> (fb n, None))"

section \<open>Key shares\<close>

record x25519_kx =
  xk_secret :: bytes
  xk_public :: bytes

definition start_x25519 :: "crypto \<Rightarrow> script option \<Rightarrow> tls_error + x25519_kx" where
  "start_x25519 cr slot =
     (case slot of
        None \<Rightarrow> Inl (General (str ''reality: no key share script active''))
      | Some sc \<Rightarrow> Inr \<lparr>xk_secret = sc_kx_secret sc, xk_public = cr_x25519 cr (sc_kx_secret sc) (cr_base cr)\<rparr>)"

definition complete_x25519 :: "crypto \<Rightarrow> x25519_kx \<Rightarrow> bytes \<Rightarrow> tls_error + bytes" where
  "complete_x25519 cr k peer =
     (if length peer \<noteq> 32 then Inl (General (str ''reality: bad x25519 peer key''))
      else Inr (cr_x25519 cr (xk_secret k) peer))"

definition mlkem768_encap_len :: nat where "mlkem768_encap_len = 1184"
definition mlkem768_ciphertext_len :: nat where "mlkem768_ciphertext_len = 1088"
definition x25519_len :: nat where "x25519_len = 32"

lemmas share_consts [const_defs] =
  mlkem768_encap_len_def mlkem768_ciphertext_len_def x25519_len_def

record hybrid_kx =
  hk_x25519 :: x25519_kx
  hk_mlkem :: "kx option"
  hk_combined :: bytes

text \<open>\<open>start\<close> takes the ML-KEM share out of the script.\<close>

definition start_hybrid :: "crypto \<Rightarrow> script option \<Rightarrow> (tls_error + hybrid_kx) \<times> script option" where
  "start_hybrid cr slot =
     (case slot of
        None \<Rightarrow> (Inl (General (str ''reality: no key share script active'')), None)
      | Some sc \<Rightarrow>
          let slot = Some (sc\<lparr>sc_mlkem := None\<rparr>) in
          (case sc_mlkem sc of
             None \<Rightarrow> (Inl (General (str ''reality: no ml-kem share in script'')), slot)
           | Some mlkem \<Rightarrow>
               let public = cr_x25519 cr (sc_kx_secret sc) (cr_base cr) in
               if length (mlkem_pub_key mlkem) \<noteq> mlkem768_encap_len
               then (Inl (General (str ''reality: bad ml-kem public key length'')), slot)
               else (Inr \<lparr>hk_x25519 = \<lparr>xk_secret = sc_kx_secret sc, xk_public = public\<rparr>,
                          hk_mlkem = (case mlkem of PubOnly _ \<Rightarrow> None | Active kx \<Rightarrow> Some kx),
                          hk_combined = mlkem_pub_key mlkem @ public\<rparr>, slot)))"

definition complete_hybrid :: "crypto \<Rightarrow> hybrid_kx \<Rightarrow> bytes \<Rightarrow> tls_error + bytes" where
  "complete_hybrid cr k peer =
     (if length peer \<noteq> mlkem768_ciphertext_len + x25519_len then Inl InvalidKeyShare
      else
        case hk_mlkem k of
          None \<Rightarrow> Inl (General (str ''reality: ml-kem key not available in this pass''))
        | Some m \<Rightarrow>
            and_then (kx_complete m (take mlkem768_ciphertext_len peer)) (\<lambda>pq.
            and_then (complete_x25519 cr (hk_x25519 k) (drop mlkem768_ciphertext_len peer)) (\<lambda>cl.
            Inr (pq @ cl))))"

definition hybrid_component :: "hybrid_kx \<Rightarrow> bytes" where
  "hybrid_component k = xk_public (hk_x25519 k)"

definition complete_hybrid_component :: "crypto \<Rightarrow> hybrid_kx \<Rightarrow> bytes \<Rightarrow> tls_error + bytes" where
  "complete_hybrid_component cr k peer = complete_x25519 cr (hk_x25519 k) peer"

section \<open>Building a ClientHello under the script\<close>

text \<open>
  The construction of a ClientHello inside rustls, seen from outside: it draws random bytes
  and starts the first key exchange group, of which the hello shows the public parts, and
  ends with a result. \<open>run_hello\<close> serves it from the thread's script.
\<close>

datatype 'a hello =
    Emit 'a
  | Fill nat "unit + bytes \<Rightarrow> 'a hello"
  | Share "tls_error + (bytes \<times> bytes) \<Rightarrow> 'a hello"

definition shown :: "tls_error + hybrid_kx \<Rightarrow> tls_error + (bytes \<times> bytes)" where
  "shown r = map_sum id (\<lambda>k. (hk_combined k, hybrid_component k)) r"

primrec run_hello ::
  "crypto \<Rightarrow> (nat \<Rightarrow> unit + bytes) \<Rightarrow> 'a hello \<Rightarrow> script option \<Rightarrow> 'a \<times> script option" where
  "run_hello cr fb (Emit x) = (\<lambda>slot. (x, slot))"
| "run_hello cr fb (Fill n f) = (\<lambda>slot.
     case random_fill cr fb n slot of (b, slot) \<Rightarrow> run_hello cr fb (f b) slot)"
| "run_hello cr fb (Share f) = (\<lambda>slot.
     case start_hybrid cr slot of (r, slot) \<Rightarrow> run_hello cr fb (f (shown r)) slot)"

text \<open>\<^verbatim>\<open>with_script\<close>: put a fresh script in force, run, take the script off and return its log.\<close>

definition with_script ::
  "crypto \<Rightarrow> (nat \<Rightarrow> unit + bytes) \<Rightarrow> bytes \<Rightarrow> bytes \<Rightarrow> mlkem_share \<Rightarrow> (nat \<times> bytes) option \<Rightarrow> 'a hello
     \<Rightarrow> 'a \<times> bytes list" where
  "with_script cr fb seed kx_secret mlkem replace f =
     (case run_hello cr fb f (Some \<lparr>sc_stream = seed_stream_new seed, sc_calls = [],
          sc_replace = replace, sc_kx_secret = kx_secret, sc_mlkem = Some mlkem\<rparr>) of
        (out, slot) \<Rightarrow> (out, case slot of Some sc \<Rightarrow> sc_calls sc | None \<Rightarrow> []))"

section \<open>Replaying\<close>

text \<open>
  The reference semantics of such a construction: given the bytes it draws and what the first
  request for a key share shows, which result it ends with. Every further request for a share
  finds the script's share taken.
\<close>

definition share_taken :: "tls_error + (bytes \<times> bytes)" where
  "share_taken = Inl (General (str ''reality: no ml-kem share in script''))"

primrec play :: "'a hello \<Rightarrow> tls_error + (bytes \<times> bytes) \<Rightarrow> bytes list \<Rightarrow> 'a option" where
  "play (Emit x) = (\<lambda>r ds. if ds = [] then Some x else None)"
| "play (Fill n f) = (\<lambda>r ds. case ds of d # ds \<Rightarrow> if length d = n then play (f (Inr d)) r ds else None
                               | [] \<Rightarrow> None)"
| "play (Share f) = (\<lambda>r ds. play (f r) share_taken ds)"

text \<open>The draws a script serves for requests of the given lengths.\<close>

fun served :: "crypto \<Rightarrow> nat list \<Rightarrow> script \<Rightarrow> bytes list" where
  "served cr [] sc = []"
| "served cr (n # ns) sc =
     (case random_fill cr (\<lambda>_. Inl ()) n (Some sc) of
        (Inr b, Some sc) \<Rightarrow> b # served cr ns sc
      | _ \<Rightarrow> [])"

definition share_of :: "crypto \<Rightarrow> script \<Rightarrow> tls_error + (bytes \<times> bytes)" where
  "share_of cr sc = shown (fst (start_hybrid cr (Some sc)))"

lemma random_fill_Some:
  "random_fill cr fb n (Some sc) = (r, slot) \<Longrightarrow>
     \<exists>b st. r = Inr b \<and> slot = Some (sc\<lparr>sc_stream := st, sc_calls := sc_calls sc @ [b]\<rparr>) \<and> length b = n"
  using length_seed_fill [of "cr_sha256 cr" n "sc_stream sc"]
  by (auto simp: random_fill_def Let_def split: prod.splits option.splits if_splits)

lemma random_fill_fb: "random_fill cr fb n (Some sc) = random_fill cr fb' n (Some sc)"
  by (simp add: random_fill_def)

lemma random_fill_mlkem:
  "random_fill cr fb n (Some (sc\<lparr>sc_mlkem := m\<rparr>))
     = (case random_fill cr fb n (Some sc) of (r, slot) \<Rightarrow> (r, map_option (\<lambda>sc. sc\<lparr>sc_mlkem := m\<rparr>) slot))"
  by (cases sc) (simp add: random_fill_def Let_def split: prod.splits option.splits)

lemma served_mlkem: "served cr ns (sc\<lparr>sc_mlkem := m\<rparr>) = served cr ns sc"
proof (induction ns arbitrary: sc)
  case (Cons n ns)
  obtain r slot where "random_fill cr (\<lambda>_. Inl ()) n (Some sc) = (r, slot)" by fastforce
  from random_fill_Some [OF this] this show ?case
    by (auto simp: random_fill_mlkem Cons.IH)
qed simp

lemma start_hybrid_slot: "snd (start_hybrid cr (Some sc)) = Some (sc\<lparr>sc_mlkem := None\<rparr>)"
  by (auto simp: start_hybrid_def Let_def split: option.splits)

lemma share_of_taken: "share_of cr (sc\<lparr>sc_mlkem := None\<rparr>) = share_taken"
  by (simp add: share_of_def start_hybrid_def share_taken_def shown_def)

lemma share_of_fill:
  "random_fill cr fb n (Some sc) = (r, Some sc') \<Longrightarrow> share_of cr sc' = share_of cr sc"
  by (drule random_fill_Some) (auto simp: share_of_def start_hybrid_def Let_def split: option.splits)

text \<open>Running under a script is replaying what the script serves.\<close>

lemma run_hello_play:
  "run_hello cr fb h (Some sc) = (x, slot) \<Longrightarrow>
     \<exists>ns sc'. slot = Some sc' \<and> sc_calls sc' = sc_calls sc @ served cr ns sc \<and>
       map length (served cr ns sc) = ns \<and>
       play h (share_of cr sc) (served cr ns sc) = Some x"
proof (induction h arbitrary: sc)
  case (Emit y)
  then show ?case by (auto intro!: exI [of _ "[]"])
next
  case (Fill n f)
  obtain r s1 where rf: "random_fill cr fb n (Some sc) = (r, s1)" by fastforce
  from random_fill_Some [OF this] obtain b sc1 where b: "r = Inr b" "s1 = Some sc1" "length b = n"
    "sc_calls sc1 = sc_calls sc @ [b]" by auto
  have "run_hello cr fb (f (Inr b)) (Some sc1) = (x, slot)"
    using Fill.prems by (simp add: rf b)
  from Fill.IH [OF rangeI this] obtain ns sc' where ns: "slot = Some sc'"
    "sc_calls sc' = sc_calls sc1 @ served cr ns sc1" "map length (served cr ns sc1) = ns"
    "play (f (Inr b)) (share_of cr sc1) (served cr ns sc1) = Some x" by auto
  have "served cr (n # ns) sc = b # served cr ns sc1"
    using rf random_fill_fb [of cr fb n sc "\<lambda>_. Inl ()"] by (simp add: b)
  with ns b share_of_fill [OF rf [unfolded b(2)]] show ?case
    by (intro exI [of _ "n # ns"] exI [of _ sc']) (auto simp flip: length_map [of length])
next
  case (Share f)
  obtain r s1 where sh: "start_hybrid cr (Some sc) = (r, s1)" by fastforce
  have s1: "s1 = Some (sc\<lparr>sc_mlkem := None\<rparr>)" using start_hybrid_slot [of cr sc] by (simp add: sh)
  have "run_hello cr fb (f (shown r)) (Some (sc\<lparr>sc_mlkem := None\<rparr>)) = (x, slot)"
    using Share.prems by (simp add: sh s1)
  from Share.IH [OF rangeI this] obtain ns sc' where "slot = Some sc'"
    "sc_calls sc' = sc_calls sc @ served cr ns sc" "map length (served cr ns sc) = ns"
    "play (f (shown r)) share_taken (served cr ns sc) = Some x"
    by (auto simp: served_mlkem share_of_taken)
  moreover have "share_of cr sc = shown r" by (simp add: share_of_def sh)
  ultimately show ?case by (intro exI [of _ ns] exI [of _ sc']) simp
qed

lemma play_run_hello:
  "play h (share_of cr sc) (served cr ns sc) = Some x \<Longrightarrow> map length (served cr ns sc) = ns \<Longrightarrow>
     \<exists>sc'. run_hello cr fb h (Some sc) = (x, Some sc') \<and> sc_calls sc' = sc_calls sc @ served cr ns sc"
proof (induction h arbitrary: sc ns)
  case (Emit y)
  then show ?case by (auto split: if_splits)
next
  case (Fill n f)
  then obtain m ms where ns: "ns = m # ms" by (cases ns) auto
  obtain r s1 where rf: "random_fill cr fb m (Some sc) = (r, s1)" by fastforce
  from random_fill_Some [OF this] obtain b sc1 where b: "r = Inr b" "s1 = Some sc1" "length b = m"
    "sc_calls sc1 = sc_calls sc @ [b]" by auto
  have sv: "served cr ns sc = b # served cr ms sc1"
    using rf random_fill_fb [of cr fb m sc "\<lambda>_. Inl ()"] by (simp add: b ns)
  have "m = n" "play (f (Inr b)) (share_of cr sc1) (served cr ms sc1) = Some x"
    using Fill.prems(1) share_of_fill [OF rf [unfolded b(2)]] b(3)
    by (simp_all add: sv split: if_splits)
  moreover have "map length (served cr ms sc1) = ms" using Fill.prems(2) by (simp add: sv) (simp add: ns)
  ultimately obtain sc' where "run_hello cr fb (f (Inr b)) (Some sc1) = (x, Some sc')"
    "sc_calls sc' = sc_calls sc1 @ served cr ms sc1"
    using Fill.IH [OF rangeI, of "Inr b" sc1 ms] by blast
  then show ?case
    using rf b \<open>m = n\<close> sv by (simp del: served.simps)
next
  case (Share f)
  obtain r s1 where sh: "start_hybrid cr (Some sc) = (r, s1)" by fastforce
  have s1: "s1 = Some (sc\<lparr>sc_mlkem := None\<rparr>)" using start_hybrid_slot [of cr sc] by (simp add: sh)
  have sh0: "share_of cr sc = shown r" by (simp add: share_of_def sh)
  have "play (f (shown r)) (share_of cr (sc\<lparr>sc_mlkem := None\<rparr>)) (served cr ns (sc\<lparr>sc_mlkem := None\<rparr>)) = Some x"
    using Share.prems(1) sh0 by (simp add: share_of_taken served_mlkem)
  from Share.IH [OF rangeI this] Share.prems(2) show ?case
    by (simp add: sh s1 served_mlkem)
qed

section \<open>The second pass\<close>

text \<open>
  Two scripts with the same stream, one of which replaces draw number \<open>j\<close>: they serve the
  same bytes but for that draw.
\<close>

lemma served_replace:
  assumes "sc_stream b = sc_stream a" and "length (sc_calls b) = length (sc_calls a)"
    and "sc_replace a = None" and "sc_replace b = Some (j, s)"
  shows "served cr ns b =
    (let i = j - length (sc_calls a) in
     if length (sc_calls a) \<le> j \<and> i < length ns \<and> ns ! i = length s
     then (served cr ns a)[i := s] else served cr ns a)"
  using assms
proof (induction ns arbitrary: a b)
  case (Cons n ns)
  obtain d st where f: "seed_fill (cr_sha256 cr) n (sc_stream a) = (d, st)" by fastforce
  have n: "length d = n" using length_seed_fill [of "cr_sha256 cr" n "sc_stream a"] f by simp
  define d' where "d' = (if j = length (sc_calls a) \<and> length s = n then s else d)"
  let ?a = "a\<lparr>sc_stream := st, sc_calls := sc_calls a @ [d]\<rparr>"
  let ?b = "b\<lparr>sc_stream := st, sc_calls := sc_calls b @ [d']\<rparr>"
  have sv: "served cr (n # ns) a = d # served cr ns ?a" "served cr (n # ns) b = d' # served cr ns ?b"
    using Cons.prems f n by (auto simp: random_fill_def d'_def Let_def)
  have IH: "served cr ns ?b =
      (let i = j - Suc (length (sc_calls a)) in
       if Suc (length (sc_calls a)) \<le> j \<and> i < length ns \<and> ns ! i = length s
       then (served cr ns ?a)[i := s] else served cr ns ?a)"
    using Cons.IH [of ?b ?a] Cons.prems by simp
  consider "j < length (sc_calls a)" | "j = length (sc_calls a)"
    | i where "j = length (sc_calls a) + Suc i"
    by (metis add_Suc_right less_imp_Suc_add linorder_neqE_nat)
  then show ?case
  proof cases
    case 2
    show ?thesis
    proof (cases "length s = n")
      case True
      with 2 have "d' = s" by (simp add: d'_def)
      with 2 True IH show ?thesis unfolding sv by simp
    next
      case False
      with 2 have "d' = d" by (simp add: d'_def)
      with 2 False IH show ?thesis unfolding sv by simp
    qed
  next
    case 1
    then have "d' = d" by (simp add: d'_def)
    with 1 IH show ?thesis unfolding sv by (simp add: Let_def)
  next
    case 3
    then have "d' = d" by (simp add: d'_def)
    with 3 IH show ?thesis unfolding sv by (simp add: Let_def)
  qed
qed simp

section \<open>Properties\<close>

text \<open>
  The deterministic byte stream is one stream: filling \<open>n\<close> bytes and then \<open>m\<close> gives the
  same bytes, and the same state, as filling \<open>n + m\<close> at once, and always exactly as many
  bytes as asked for. So the two passes agree however rustls cuts its draws.
\<close>

theorem seed_stream_chunking:
  "seed_fill sha (n + m) st =
     (case seed_fill sha n st of (a, st1) \<Rightarrow> (case seed_fill sha m st1 of (b, st2) \<Rightarrow> (a @ b, st2)))
   \<and> length (fst (seed_fill sha n st)) = n"
  using seed_fill_append length_seed_fill by blast

text \<open>
  The two key shares fit together. The first pass, which knows only the ML-KEM public key,
  and the second, which holds the key, show the same hybrid share; its last 32 bytes are the
  separate x25519 share, computed from the script's secret. The exchange of the second pass
  splits the server's share into the ML-KEM ciphertext and the x25519 key and concatenates
  the two secrets; the first pass can never complete it.
\<close>

theorem hybrid_share_agreement:
  assumes "length (kx_pub kx) = 1184" and "length ct = 1088" and "length peer = 32"
    and "kx_complete kx ct = Inr pq"
  shows "let
      a = fst (start_hybrid cr (Some (sc\<lparr>sc_mlkem := Some (PubOnly (kx_pub kx))\<rparr>)));
      b = fst (start_hybrid cr (Some (sc\<lparr>sc_mlkem := Some (Active kx)\<rparr>)));
      public = cr_x25519 cr (sc_kx_secret sc) (cr_base cr)
    in shown a = Inr (kx_pub kx @ public, public) \<and> shown b = shown a \<and>
      and_then b (\<lambda>k. complete_hybrid cr k (ct @ peer)) = Inr (pq @ cr_x25519 cr (sc_kx_secret sc) peer) \<and>
      and_then a (\<lambda>k. complete_hybrid cr k (ct @ peer))
        = Inl (General (str ''reality: ml-kem key not available in this pass''))"
  using assms
  by (simp add: start_hybrid_def shown_def hybrid_component_def complete_hybrid_def complete_x25519_def
      const_defs Let_def del: str_Cons)

definition sample_crypto :: crypto where
  "sample_crypto = \<lparr>cr_sha256 = (\<lambda>x. replicate 32 (of_nat (length x))), cr_x25519 = (\<lambda>a b. take 32 (a @ replicate 32 5)),
     cr_base = replicate 32 9, cr_hkdf = (\<lambda>salt ikm info. Some (replicate 32 3)),
     cr_seal = (\<lambda>k n aad m. Some (m @ replicate 16 4)), cr_hmac512 = (\<lambda>k m. replicate 64 6)\<rparr>"

theorem hybrid_share_agreement_witness:
  "and_then (fst (start_hybrid sample_crypto (Some \<lparr>sc_stream = seed_stream_new [], sc_calls = [],
      sc_replace = None, sc_kx_secret = [8], sc_mlkem = Some (Active \<lparr>kx_pub = replicate 1184 1,
        kx_complete = (\<lambda>c. Inr [2])\<rparr>)\<rparr>))) (\<lambda>k. complete_hybrid sample_crypto k (replicate 1088 0 @ replicate 32 0))
    = Inr ([2] @ cr_x25519 sample_crypto [8] (replicate 32 0))"
  using hybrid_share_agreement [of "\<lparr>kx_pub = replicate 1184 1, kx_complete = (\<lambda>c. Inr [2])\<rparr>"
      "replicate 1088 0" "replicate 32 0" "[2]" sample_crypto
      "\<lparr>sc_stream = seed_stream_new [], sc_calls = [], sc_replace = None, sc_kx_secret = [8], sc_mlkem = None\<rparr>"]
  by (simp add: Let_def)

end
