(* ===== verification/RealityAuth.thy ===== *)
theory RealityAuth
  imports RealityScript TlsRecord Address
begin

text \<open>
  The authentication data of \<^verbatim>\<open>src/outbound/reality.rs\<close>: reading the ClientHello, the key and
  the sealed session id the client puts into it, and the check of the server's certificate.
\<close>

section \<open>The ClientHello\<close>

definition session_id_offset :: nat where "session_id_offset = 39"
definition session_id_len :: nat where "session_id_len = 32"
definition random_offset :: nat where "random_offset = 6"
definition random_len :: nat where "random_len = 32"
definition hkdf_salt_len :: nat where "hkdf_salt_len = 20"
definition hkdf_info :: bytes where "hkdf_info = str ''REALITY''"
definition auth_plaintext_len :: nat where "auth_plaintext_len = 16"
definition client_version :: bytes where "client_version = [26, 7, 28]"
definition short_id_len :: nat where "short_id_len = 8"
definition ed25519_spki_prefix :: bytes where
  "ed25519_spki_prefix = [0x30, 0x2A, 0x30, 0x05, 0x06, 0x03, 0x2B, 0x65, 0x70, 0x03, 0x21, 0x00]"
definition ed25519_sig_prefix :: bytes where "ed25519_sig_prefix = [0x03, 0x41, 0x00]"
definition ed25519_sig_len :: nat where "ed25519_sig_len = 64"

lemmas auth_consts [const_defs] =
  session_id_offset_def session_id_len_def random_offset_def random_len_def hkdf_salt_len_def
  auth_plaintext_len_def client_version_def short_id_len_def ed25519_sig_len_def

definition client_hello_body :: "bytes \<Rightarrow> rerror + bytes" where
  "client_hello_body records =
     (if length records < 5 \<or> records ! 0 \<noteq> 0x16
      then Inl (Reality (str ''first record is not a handshake record''))
      else
        case get_range 5 (5 + unat (be_u16 (records ! 3) (records ! 4))) records of
          None \<Rightarrow> Inl (Reality (str ''truncated ClientHello record''))
        | Some body \<Rightarrow>
            if body = [] \<or> hd body \<noteq> 1
            then Inl (Reality (str ''first handshake message is not ClientHello''))
            else if length body < session_id_offset + session_id_len
            then Inl (Reality (str ''ClientHello too short for session_id''))
            else Inr body)"

definition locate_session_id_call :: "bytes \<Rightarrow> bytes list \<Rightarrow> rerror + nat" where
  "locate_session_id_call hello calls =
     (let sid = slice session_id_offset (session_id_offset + session_id_len) hello in
      case position (\<lambda>c. c = sid) calls of
        Some i \<Rightarrow> Inr i
      | None \<Rightarrow> Inl (Reality (str ''cannot locate session_id draw in RNG call log'')))"

definition aad_from_hello :: "bytes \<Rightarrow> bytes" where
  "aad_from_hello hello =
     take session_id_offset hello @ replicate session_id_len 0
       @ drop (session_id_offset + session_id_len) hello"

section \<open>The client's proof\<close>

definition derive_auth_key :: "crypto \<Rightarrow> bytes \<Rightarrow> bytes \<Rightarrow> bytes \<Rightarrow> rerror + bytes" where
  "derive_auth_key cr kx_secret server_public_key hello_random =
     (let shared = cr_x25519 cr kx_secret server_public_key in
      if \<forall>b \<in> set shared. b = 0 then Inl (Reality (str ''x25519 shared secret is all zero''))
      else
        case cr_hkdf cr (take hkdf_salt_len hello_random) shared hkdf_info of
          Some auth_key \<Rightarrow> Inr auth_key
        | None \<Rightarrow> Inl (Reality (str ''hkdf expand failed'')))"

definition build_auth_plaintext :: "bytes \<Rightarrow> u32 \<Rightarrow> rerror + bytes" where
  "build_auth_plaintext short_id unix_secs =
     (if short_id_len < length short_id then Inl (Reality (str ''short_id longer than 8 bytes''))
      else Inr (client_version @ [0] @ u32_be unix_secs @ short_id
             @ replicate (auth_plaintext_len - (8 + length short_id)) 0))"

definition seal_session_id :: "crypto \<Rightarrow> bytes \<Rightarrow> bytes \<Rightarrow> bytes \<Rightarrow> bytes \<Rightarrow> rerror + bytes" where
  "seal_session_id cr auth_key nonce aad plaintext =
     (case cr_seal cr auth_key nonce aad plaintext of
        None \<Rightarrow> Inl (Reality (str ''aes-gcm seal failed''))
      | Some out \<Rightarrow>
          if length out = session_id_len then Inr out
          else Inl (Reality (str ''sealed session_id is not 32 bytes'')))"

section \<open>The server's certificate\<close>

definition ed25519_public_key :: "bytes \<Rightarrow> rerror + bytes" where
  "ed25519_public_key der =
     (case position (\<lambda>w. w = ed25519_spki_prefix) (windows (length ed25519_spki_prefix) der) of
        None \<Rightarrow> Inl (Reality (str ''certificate has no Ed25519 SubjectPublicKeyInfo''))
      | Some pos \<Rightarrow>
          let start = pos + length ed25519_spki_prefix in
          (case get_range start (start + 32) der of
             Some k \<Rightarrow> Inr k
           | None \<Rightarrow> Inl (Reality (str ''truncated Ed25519 public key''))))"

definition certificate_signature :: "bytes \<Rightarrow> rerror + bytes" where
  "certificate_signature der =
     (if length der < ed25519_sig_len + length ed25519_sig_prefix
      then Inl (Reality (str ''certificate too short for Ed25519 signature''))
      else
        let head = length der - (ed25519_sig_len + length ed25519_sig_prefix) in
        if slice head (head + length ed25519_sig_prefix) der \<noteq> ed25519_sig_prefix
        then Inl (Reality (str ''certificate signature is not a 64-byte Ed25519 BIT STRING''))
        else Inr (drop (head + length ed25519_sig_prefix) der))"

text \<open>\<^verbatim>\<open>RealityVerifier::verify_server_cert\<close>; \<^verbatim>\<open>verify_slice\<close> compares the whole code.\<close>

definition verify_server_cert :: "crypto \<Rightarrow> bytes \<Rightarrow> bytes \<Rightarrow> tls_error + unit" where
  "verify_server_cert cr auth_key der =
     (case ed25519_public_key der of
        Inl e \<Rightarrow> Inl (General (display [] e))
      | Inr pubkey \<Rightarrow>
          (case certificate_signature der of
             Inl e \<Rightarrow> Inl (General (display [] e))
           | Inr signature \<Rightarrow>
               if cr_hmac512 cr auth_key pubkey = signature then Inr ()
               else Inl (General (str ''reality: server is not a REALITY endpoint (certificate HMAC mismatch)''))))"

section \<open>Facts\<close>

lemma client_hello_body_iff:
  "client_hello_body records = Inr body \<longleftrightarrow>
     (\<exists>a b rest. records = tls_record 0x16 a b body @ rest) \<and> length body < 65536 \<and>
     71 \<le> length body \<and> hd body = 1"
proof
  assume h: "client_hello_body records = Inr body"
  let ?n = "unat (be_u16 (records ! 3) (records ! 4))"
  have len: "5 \<le> length records" "records ! 0 = 0x16" "5 + ?n \<le> length records"
    "body = slice 5 (5 + ?n) records" "71 \<le> length body" "hd body = 1"
    using h by (auto simp: client_hello_body_def get_range_def const_defs split: if_splits)
  then have "complete 5 record_len records" by (simp add: complete_def record_len_def)
  from tls_record_split [OF this] obtain a b p where
    r: "take (record_len records) records = tls_record 0x16 a b p" "length p < 65536"
    using len(2) by auto
  have "p = drop 5 (take (record_len records) records)" by (simp add: r(1) tls_record_def)
  also have "\<dots> = body" by (simp add: len(4) slice_def record_len_def drop_take)
  finally have "p = body" .
  then have "records = tls_record 0x16 a b body @ drop (record_len records) records"
    using r(1) by (metis append_take_drop_id)
  with len(5,6) r(2) \<open>p = body\<close>
  show "(\<exists>a b rest. records = tls_record 0x16 a b body @ rest) \<and> length body < 65536 \<and>
     71 \<le> length body \<and> hd body = 1" by blast
next
  assume "(\<exists>a b rest. records = tls_record 0x16 a b body @ rest) \<and> length body < 65536 \<and>
     71 \<le> length body \<and> hd body = 1"
  then obtain a b rest where r: "records = tls_record 0x16 a b body @ rest" "length body < 65536"
    "71 \<le> length body" "hd body = 1" by blast
  have n: "unat (be_u16 (records ! 3) (records ! 4)) = length body"
    using record_len_tls_record [OF r(2), of "0x16" a b rest] by (simp add: r(1) record_len_def)
  have "drop 5 records = body @ rest" by (simp add: r(1) tls_record_def u16_be_def)
  then have "get_range 5 (5 + length body) records = Some body"
    by (simp add: get_range_def slice_def) (simp add: r(1))
  moreover have "records ! 0 = 0x16" "5 \<le> length records" "body \<noteq> []"
    using r(3) by (auto simp: r(1) tls_record_def)
  ultimately show "client_hello_body records = Inr body"
    using r(3,4) by (simp add: client_hello_body_def n const_defs)
qed

lemma length_auth_plaintext: "build_auth_plaintext sid t = Inr p \<Longrightarrow> length p = 16"
  by (auto simp: build_auth_plaintext_def const_defs split: if_splits)

lemma get_range_Some: "get_range a b xs = Some ys \<longleftrightarrow> a \<le> b \<and> b \<le> length xs \<and> ys = slice a b xs"
  by (auto simp: get_range_def)

lemma ed25519_public_key_iff:
  "ed25519_public_key der = Inr k \<longleftrightarrow>
     (\<exists>pre rest. der = pre @ ed25519_spki_prefix @ k @ rest \<and> length k = 32 \<and>
        (\<forall>j < length pre. take 12 (drop j der) \<noteq> ed25519_spki_prefix))"
proof -
  have l: "length ed25519_spki_prefix = 12" by (simp add: ed25519_spki_prefix_def)
  have pos: "position (\<lambda>w. w = ed25519_spki_prefix) (windows 12 der) = Some i \<longleftrightarrow>
      i + 12 \<le> length der \<and> take 12 (drop i der) = ed25519_spki_prefix \<and>
      (\<forall>j < i. take 12 (drop j der) \<noteq> ed25519_spki_prefix)" for i
    by (auto simp: position_Some less_diff_conv)
  show ?thesis
  proof
    assume "ed25519_public_key der = Inr k"
    then obtain i where i: "i + 12 \<le> length der" "take 12 (drop i der) = ed25519_spki_prefix"
      "\<forall>j < i. take 12 (drop j der) \<noteq> ed25519_spki_prefix" "i + 12 + 32 \<le> length der"
      "k = slice (i + 12) (i + 12 + 32) der"
      by (auto simp: ed25519_public_key_def l get_range_Some pos Let_def split: option.splits)
    have "der = take i der @ take 12 (drop i der) @ take 32 (drop (i + 12) der) @ drop (i + 12 + 32) der"
      by (metis add.commute append_take_drop_id drop_drop)
    with i show "\<exists>pre rest. der = pre @ ed25519_spki_prefix @ k @ rest \<and> length k = 32 \<and>
        (\<forall>j < length pre. take 12 (drop j der) \<noteq> ed25519_spki_prefix)"
      by (intro exI [of _ "take i der"] exI [of _ "drop (i + 12 + 32) der"]) (simp add: slice_def)
  next
    assume "\<exists>pre rest. der = pre @ ed25519_spki_prefix @ k @ rest \<and> length k = 32 \<and>
        (\<forall>j < length pre. take 12 (drop j der) \<noteq> ed25519_spki_prefix)"
    then obtain pre rest where d: "der = pre @ ed25519_spki_prefix @ k @ rest" "length k = 32"
      "\<forall>j < length pre. take 12 (drop j der) \<noteq> ed25519_spki_prefix" by blast
    have "take 12 (drop (length pre) der) = ed25519_spki_prefix" by (simp add: d(1) l)
    moreover have "slice (length pre + 12) (length pre + 12 + 32) der = k"
      by (simp add: d(1,2) slice_def l)
    moreover have "length pre + 12 + 32 \<le> length der" by (simp add: d(1,2) l)
    ultimately show "ed25519_public_key der = Inr k"
      using d(3) pos [of "length pre"]
      by (simp add: ed25519_public_key_def l get_range_def Let_def)
  qed
qed

lemma certificate_signature_iff:
  "certificate_signature der = Inr s \<longleftrightarrow> (\<exists>pre. der = pre @ ed25519_sig_prefix @ s) \<and> length s = 64"
proof -
  have l: "length ed25519_sig_prefix = 3" by (simp add: ed25519_sig_prefix_def)
  show ?thesis
  proof
    assume "certificate_signature der = Inr s"
    then have s: "67 \<le> length der" "take 3 (drop (length der - 67) der) = ed25519_sig_prefix"
      "s = drop (length der - 67 + 3) der"
      by (auto simp: certificate_signature_def l const_defs slice_def Let_def split: if_splits)
    have "der = take (length der - 67) der @ take 3 (drop (length der - 67) der) @ drop (length der - 67 + 3) der"
      by (metis add.commute append_take_drop_id drop_drop)
    with s show "(\<exists>pre. der = pre @ ed25519_sig_prefix @ s) \<and> length s = 64" by auto
  next
    assume "(\<exists>pre. der = pre @ ed25519_sig_prefix @ s) \<and> length s = 64"
    then obtain pre where d: "der = pre @ ed25519_sig_prefix @ s" "length s = 64" by blast
    then have "length der - 67 = length pre" by (simp add: l)
    then show "certificate_signature der = Inr s"
      by (simp add: certificate_signature_def l const_defs slice_def Let_def)
        (simp add: d l)
  qed
qed

section \<open>Properties\<close>

text \<open>
  C21: A certificate is accepted exactly if it proves knowledge of the session's key: it
  contains an Ed25519 SubjectPublicKeyInfo, and ends with a 64-byte signature field that is
  the HMAC-SHA512 of the key in the first such structure under the authentication key.
  Nothing else about the certificate matters, and no certificate can make the parsing leave
  the bounds of the data.
\<close>

theorem verify_server_cert_exact:
  assumes "\<And>key m. length (cr_hmac512 cr key m) = 64"
  shows "verify_server_cert cr auth_key der = Inr () \<longleftrightarrow>
    (\<exists>pre k rest body.
       der = pre @ ed25519_spki_prefix @ k @ rest \<and> length k = 32 \<and>
       (\<forall>j < length pre. take 12 (drop j der) \<noteq> ed25519_spki_prefix) \<and>
       der = body @ [0x03, 0x41, 0x00] @ cr_hmac512 cr auth_key k)"
proof
  assume "verify_server_cert cr auth_key der = Inr ()"
  then obtain k where "ed25519_public_key der = Inr k"
    "certificate_signature der = Inr (cr_hmac512 cr auth_key k)"
    by (auto simp: verify_server_cert_def split: sum.splits if_splits)
  then show "\<exists>pre k rest body.
       der = pre @ ed25519_spki_prefix @ k @ rest \<and> length k = 32 \<and>
       (\<forall>j < length pre. take 12 (drop j der) \<noteq> ed25519_spki_prefix) \<and>
       der = body @ [0x03, 0x41, 0x00] @ cr_hmac512 cr auth_key k"
    unfolding ed25519_public_key_iff certificate_signature_iff ed25519_sig_prefix_def by blast
next
  assume "\<exists>pre k rest body.
       der = pre @ ed25519_spki_prefix @ k @ rest \<and> length k = 32 \<and>
       (\<forall>j < length pre. take 12 (drop j der) \<noteq> ed25519_spki_prefix) \<and>
       der = body @ [0x03, 0x41, 0x00] @ cr_hmac512 cr auth_key k"
  then obtain k where "ed25519_public_key der = Inr k"
    "certificate_signature der = Inr (cr_hmac512 cr auth_key k)"
    unfolding ed25519_public_key_iff certificate_signature_iff ed25519_sig_prefix_def
    using assms by blast
  then show "verify_server_cert cr auth_key der = Inr ()" by (simp add: verify_server_cert_def)
qed

theorem verify_server_cert_exact_witness:
  "verify_server_cert sample_crypto [1]
     ([9] @ ed25519_spki_prefix @ replicate 32 7 @ [0x03, 0x41, 0x00] @ replicate 64 6) = Inr ()"
proof -
  let ?der = "[9] @ ed25519_spki_prefix @ replicate 32 7 @ [0x03, 0x41, 0x00] @ replicate 64 6"
  have "length (cr_hmac512 sample_crypto key m) = 64" for key m by (simp add: sample_crypto_def)
  moreover have "\<exists>pre k rest body.
       ?der = pre @ ed25519_spki_prefix @ k @ rest \<and> length k = 32 \<and>
       (\<forall>j < length pre. take 12 (drop j ?der) \<noteq> ed25519_spki_prefix) \<and>
       ?der = body @ [0x03, 0x41, 0x00] @ cr_hmac512 sample_crypto [1] k"
    by (intro exI [of _ "[9]"] exI [of _ "replicate 32 7"]
        exI [of _ "[0x03, 0x41, 0x00] @ replicate 64 6"]
        exI [of _ "[9] @ ed25519_spki_prefix @ replicate 32 7"])
      (simp add: sample_crypto_def ed25519_spki_prefix_def)
  ultimately show ?thesis using verify_server_cert_exact [of sample_crypto "[1]" ?der] by blast
qed

text \<open>
  The ClientHello is cut out safely: a body is returned exactly if the output starts with
  one complete handshake record whose payload is that body, begins with message type 1 and
  has the 71 bytes up to the end of the session id. So the later slices of the random and of
  the session id are always within bounds.
\<close>

theorem client_hello_body_exact:
  "client_hello_body records = Inr body \<longleftrightarrow>
     (\<exists>a b rest. records = tls_record 0x16 a b body @ rest) \<and> length body < 65536 \<and>
     71 \<le> length body \<and> hd body = 1"
  by (rule client_hello_body_iff)

end
