(* ===== verification/ConfigModel.thy ===== *)
theory ConfigModel
  imports RErrors Utf8 Address
begin

text \<open>
  The configuration of \<^verbatim>\<open>src/config.rs\<close>: the typed records, the raw records serde
  fills from TOML, the parsers of the hexadecimal, UUID and base64 fields, the
  conversion of a raw configuration, and the diagnosis of a TOML error. The \<^verbatim>\<open>toml\<close>
  crate is a parameter (\<open>from_str\<close>). A \<^verbatim>\<open>[u8; n]\<close> is a byte list of length \<open>n\<close>.
\<close>

section \<open>Types\<close>

record log_cfg =
  log_level :: bytes

record inbound_cfg =
  in_listen :: ip_addr
  in_port :: u16
  max_connections :: nat

record vless_cfg =
  vl_uuid :: bytes
  vl_flow :: bytes

record reality_cfg =
  public_key :: bytes
  short_id :: bytes
  server_name :: bytes

record outbound_cfg =
  out_server :: bytes
  out_port :: u16
  out_vless :: vless_cfg
  out_reality :: reality_cfg

record timeout_cfg =
  connect_ms :: u64
  handshake_ms :: u64
  dial_retries :: u32
  idle_ms :: u64
  half_close_ms :: u64

record config =
  cfg_log :: log_cfg
  cfg_inbound :: inbound_cfg
  cfg_outbound :: outbound_cfg
  cfg_timeout :: timeout_cfg

text \<open>The raw structures, as serde has filled them.\<close>

record raw_log =
  raw_level :: bytes

record raw_inbound =
  raw_listen :: ip_addr
  raw_in_port :: u16
  raw_max_connections :: nat

record raw_vless =
  raw_uuid :: bytes
  raw_flow :: bytes

record raw_reality =
  raw_public_key :: bytes
  raw_short_id :: bytes
  raw_server_name :: bytes

record raw_outbound =
  raw_server :: bytes
  raw_out_port :: u16
  raw_vless_of :: raw_vless
  raw_reality_of :: raw_reality

record raw_timeout =
  raw_connect_ms :: u64
  raw_handshake_ms :: u64
  raw_dial_retries :: u32
  raw_idle_ms :: u64
  raw_half_close_ms :: u64

record raw_config =
  raw_log_of :: raw_log
  raw_inbound_of :: raw_inbound
  raw_outbound_of :: raw_outbound
  raw_timeout_of :: raw_timeout

definition default_max_connections :: nat where
  "default_max_connections = 1024"

definition default_timeout :: raw_timeout where
  "default_timeout =
     \<lparr>raw_connect_ms = 3000, raw_handshake_ms = 10000, raw_dial_retries = 1,
      raw_idle_ms = 300000, raw_half_close_ms = 1000\<rparr>"

section \<open>Field parsers\<close>

definition nibble :: "u8 \<Rightarrow> rerror + u8" where
  "nibble c =
     (if 48 \<le> c \<and> c \<le> 57 then Inr (c - 48)
      else if 97 \<le> c \<and> c \<le> 102 then Inr (c - 97 + 10)
      else if 65 \<le> c \<and> c \<le> 70 then Inr (c - 65 + 10)
      else Inl (Config (str ''invalid hex'')))"

definition parse_hex :: "bytes \<Rightarrow> rerror + bytes" where
  "parse_hex s =
     (if odd (length s) then Inl (Config (str ''hex length must be even''))
      else collect (map (\<lambda>(a, b).
        and_then (nibble a) (\<lambda>h. and_then (nibble b) (\<lambda>l. Inr (push_bit 4 h OR l))))
          (chunks2 s)))"

definition parse_uuid :: "bytes \<Rightarrow> rerror + bytes" where
  "parse_uuid s =
     (let hex = concat (filter (\<lambda>c. c \<noteq> [45]) (chars s)) in
      and_then (parse_hex hex) (\<lambda>bs.
        if length bs \<noteq> 16 then Inl (Config (str ''uuid must be 16 bytes'')) else Inr bs))"

definition b64_val :: "u8 \<Rightarrow> u8 option" where
  "b64_val c =
     (if 65 \<le> c \<and> c \<le> 90 then Some (c - 65)
      else if 97 \<le> c \<and> c \<le> 122 then Some (c - 97 + 26)
      else if 48 \<le> c \<and> c \<le> 57 then Some (c - 48 + 52)
      else if c = 43 \<or> c = 45 then Some 62
      else if c = 47 \<or> c = 95 then Some 63
      else None)"

text \<open>
  The decoding loop. The 32-bit accumulator keeps the bits already delivered, which the
  shift pushes out and the cast to \<^verbatim>\<open>u8\<close> cuts off.
\<close>

fun b64_loop :: "bytes \<Rightarrow> u32 \<Rightarrow> nat \<Rightarrow> bytes \<Rightarrow> rerror + bytes" where
  "b64_loop [] buf bits out = Inr out"
| "b64_loop (c # cs) buf bits out =
     (case b64_val c of
        None \<Rightarrow> Inl (Config (str ''invalid base64''))
      | Some v \<Rightarrow>
          (let buf' = push_bit 6 buf OR ucast v; bits' = bits + 6 in
           if 8 \<le> bits'
           then b64_loop cs buf' (bits' - 8) (out @ [ucast (drop_bit (bits' - 8) buf')])
           else b64_loop cs buf' bits' out))"

definition base64_decode :: "bytes \<Rightarrow> rerror + bytes" where
  "base64_decode s = b64_loop (trim_end 61 s) 0 0 []"

definition parse_pubkey_b64 :: "bytes \<Rightarrow> rerror + bytes" where
  "parse_pubkey_b64 s =
     and_then (base64_decode s) (\<lambda>raw.
       if length raw \<noteq> 32
       then Inl (Config (str ''reality public_key must decode to 32 bytes'')) else Inr raw)"

section \<open>Conversion\<close>

definition try_from_raw :: "raw_config \<Rightarrow> rerror + config" where
  "try_from_raw r =
     (let ri = raw_inbound_of r; ro = raw_outbound_of r; rt = raw_timeout_of r in
      and_then (parse_uuid (raw_uuid (raw_vless_of ro))) (\<lambda>uuid.
      and_then (parse_pubkey_b64 (raw_public_key (raw_reality_of ro))) (\<lambda>pk.
      and_then (parse_hex (raw_short_id (raw_reality_of ro))) (\<lambda>sid.
      Inr \<lparr>cfg_log = \<lparr>log_level = raw_level (raw_log_of r)\<rparr>,
           cfg_inbound = \<lparr>in_listen = raw_listen ri, in_port = raw_in_port ri,
                          max_connections = raw_max_connections ri\<rparr>,
           cfg_outbound = \<lparr>out_server = raw_server ro, out_port = raw_out_port ro,
             out_vless = \<lparr>vl_uuid = uuid, vl_flow = raw_flow (raw_vless_of ro)\<rparr>,
             out_reality = \<lparr>public_key = pk, short_id = sid,
                            server_name = raw_server_name (raw_reality_of ro)\<rparr>\<rparr>,
           cfg_timeout = \<lparr>connect_ms = raw_connect_ms rt, handshake_ms = raw_handshake_ms rt,
                          dial_retries = raw_dial_retries rt, idle_ms = raw_idle_ms rt,
                          half_close_ms = raw_half_close_ms rt\<rparr>\<rparr>))))"

section \<open>Diagnosis of TOML errors\<close>

text \<open>\<^verbatim>\<open>toml::de::Error\<close>: its \<^verbatim>\<open>message()\<close> and its \<^verbatim>\<open>span()\<close>.\<close>

record toml_error =
  te_message :: bytes
  te_span :: "(nat \<times> nat) option"

fun floor_boundary :: "bytes \<Rightarrow> nat \<Rightarrow> nat" where
  "floor_boundary t 0 = 0"
| "floor_boundary t (Suc n) =
     (if is_char_boundary t (Suc n) then Suc n else floor_boundary t n)"

fun line_col_step :: "nat \<times> nat \<Rightarrow> bytes \<Rightarrow> nat \<times> nat" where
  "line_col_step (line, col) ch = (if ch = [10] then (line + 1, 1) else (line, col + 1))"

definition line_col :: "bytes \<Rightarrow> nat \<Rightarrow> nat \<times> nat" where
  "line_col t byte_offset =
     (let offset = floor_boundary t (min byte_offset (length t)) in
      foldl line_col_step (1, 1) (chars (take offset t)))"

definition describe_toml_error :: "toml_error \<Rightarrow> bytes \<Rightarrow> rerror" where
  "describe_toml_error e t = Config
     (case te_span e of
        Some (start, _) \<Rightarrow>
          (case line_col t start of (line, col) \<Rightarrow>
             [84, 79, 77, 76, 32, 232, 167, 163, 230, 158, 144, 229, 164, 177, 232, 180, 165, 239, 188, 136, 231, 172, 172, 32]
             @ decimal line @ [32, 232, 161, 140, 231, 172, 172, 32]
             @ decimal col @ [32, 229, 136, 151, 239, 188, 137, 239, 188, 154] @ te_message e)
      | None \<Rightarrow> [84, 79, 77, 76, 32, 232, 167, 163, 230, 158, 144, 229, 164, 177, 232, 180, 165, 239, 188, 154]
             @ te_message e)"

definition parse :: "(bytes \<Rightarrow> toml_error + raw_config) \<Rightarrow> bytes \<Rightarrow> rerror + config" where
  "parse from_str t =
     (case from_str t of
        Inl e \<Rightarrow> Inl (describe_toml_error e t)
      | Inr raw \<Rightarrow> try_from_raw raw)"

text \<open>\<^verbatim>\<open>load\<close>: the result of \<^verbatim>\<open>std::fs::read_to_string\<close> is an argument.\<close>

definition load :: "(bytes \<Rightarrow> toml_error + raw_config) \<Rightarrow> io_error + bytes \<Rightarrow> rerror + config" where
  "load from_str file =
     (case file of Inl e \<Rightarrow> Inl (IO e) | Inr t \<Rightarrow> parse from_str t)"

section \<open>Hexadecimal fields\<close>

text \<open>The reference encoder: two lower-case digits per byte.\<close>

definition hex_digit :: "nat \<Rightarrow> u8" where
  "hex_digit n = (if n < 10 then of_nat (48 + n) else of_nat (87 + n))"

fun hex_encode :: "bytes \<Rightarrow> bytes" where
  "hex_encode [] = []"
| "hex_encode (b # bs) =
     hex_digit (unat b div 16) # hex_digit (unat b mod 16) # hex_encode bs"

lemma length_hex_encode [simp]: "length (hex_encode bs) = 2 * length bs"
  by (induction bs) simp_all

lemma unat_hex_digit: "k < 16 \<Longrightarrow> unat (hex_digit k) = (if k < 10 then 48 + k else 87 + k)"
  by (simp add: hex_digit_def del: of_nat_add)

lemma unat_nibble:
  "nibble c = Inr v \<longleftrightarrow>
     48 \<le> unat c \<and> unat c \<le> 57 \<and> unat v = unat c - 48
   \<or> 97 \<le> unat c \<and> unat c \<le> 102 \<and> unat v = unat c - 87
   \<or> 65 \<le> unat c \<and> unat c \<le> 70 \<and> unat v = unat c - 55"
proof -
  have "c - 48 = v \<longleftrightarrow> unat v = unat c - 48" if "48 \<le> unat c"
    using that by (auto simp: word_unat_eq_iff unat_sub word_le_nat_alt)
  moreover have "c - 97 + 10 = v \<longleftrightarrow> unat v = unat c - 87" if "97 \<le> unat c" "unat c \<le> 102"
    using that by (auto simp: word_unat_eq_iff unat_sub word_le_nat_alt unat_u8_add)
  moreover have "c - 65 + 10 = v \<longleftrightarrow> unat v = unat c - 55" if "65 \<le> unat c" "unat c \<le> 70"
    using that by (auto simp: word_unat_eq_iff unat_sub word_le_nat_alt unat_u8_add)
  ultimately show ?thesis
    by (auto simp: nibble_def word_le_nat_alt)
qed
lemma nibble_iff: "nibble c = Inr v \<longleftrightarrow> unat v < 16 \<and> ascii_lower c = hex_digit (unat v)"
proof (cases "unat v < 16")
  case True
  have low: "ascii_lower c = hex_digit (unat v) \<longleftrightarrow>
      (if 65 \<le> unat c \<and> unat c \<le> 90 then unat c + 32 else unat c)
        = (if unat v < 10 then 48 + unat v else 87 + unat v)"
    using True by (simp only: word_unat_eq_iff unat_ascii_lower unat_hex_digit)
  show ?thesis
    unfolding low unat_nibble using True by (auto split: if_splits)
qed (auto simp: unat_nibble)

lemma hex_digit_inject: "i < 16 \<Longrightarrow> j < 16 \<Longrightarrow> hex_digit i = hex_digit j \<longleftrightarrow> i = j"
  by (auto simp: word_unat_eq_iff unat_hex_digit split: if_splits)

text \<open>One pair of characters is read as a byte exactly when it is its code up to case.\<close>

lemma hex_pair_iff:
  "and_then (nibble x) (\<lambda>h. and_then (nibble y) (\<lambda>l. Inr (push_bit 4 h OR l))) = Inr b
   \<longleftrightarrow> ascii_lower x = hex_digit (unat b div 16) \<and> ascii_lower y = hex_digit (unat b mod 16)"
    (is "?l \<longleftrightarrow> ?r")
proof
  assume ?l
  then obtain h l where hl: "nibble x = Inr h" "nibble y = Inr l" and b: "b = push_bit 4 h OR l"
    by (auto simp: and_then_Inr)
  then have "unat h < 16" "unat l < 16" by (simp_all add: nibble_iff)
  then have "unat b = 16 * unat h + unat l"
    using unat_push_or [of l 4 h] by (simp add: b)
  with hl \<open>unat l < 16\<close> show ?r by (simp add: nibble_iff)
next
  assume ?r
  moreover have "unat b div 16 < 16" using unat_u8_bound [of b] by simp
  ultimately have "nibble x = Inr (of_nat (unat b div 16))" "nibble y = Inr (of_nat (unat b mod 16))"
    by (simp_all add: nibble_iff)
  moreover have "push_bit 4 (of_nat (unat b div 16)) OR of_nat (unat b mod 16) = b"
    using unat_push_or [of "of_nat (unat b mod 16) :: u8" 4 "of_nat (unat b div 16)"]
      \<open>unat b div 16 < 16\<close> unat_u8_bound [of b]
    by (simp add: word_unat_eq_iff)
  ultimately show ?l by simp
qed

lemma parse_hex_iff: "parse_hex s = Inr bs \<longleftrightarrow> to_ascii_lowercase s = hex_encode bs"
proof (induction bs arbitrary: s)
  case Nil
  show ?case
    by (cases s rule: chunks2.cases)
      (auto simp: parse_hex_def to_ascii_lowercase_def collect_Inr and_then_Inr)
next
  case (Cons b bs)
  show ?case
  proof (cases s rule: chunks2.cases)
    case (1 x y r)
    have "parse_hex r = Inr bs \<longleftrightarrow> to_ascii_lowercase r = hex_encode bs" by (rule Cons.IH)
    then show ?thesis
      using hex_pair_iff [of x y b]
      by (auto simp: 1 parse_hex_def to_ascii_lowercase_def and_then_Inr collect_Inr
          split: if_splits)
  qed (auto simp: parse_hex_def to_ascii_lowercase_def collect_Inr)
qed

lemma parse_hex_length: "parse_hex s = Inr bs \<Longrightarrow> length s = 2 * length bs"
  by (metis length_hex_encode length_to_ascii_lowercase parse_hex_iff)

section \<open>Base64 fields\<close>

text \<open>
  The decoder as a queue of bits in unbounded arithmetic: \<open>acc\<close> holds the \<open>bits\<close> bits
  not delivered yet. The 32-bit accumulator of the code refines it.
\<close>

fun b64_spec :: "nat list \<Rightarrow> nat \<Rightarrow> nat \<Rightarrow> nat list" where
  "b64_spec [] acc bits = []"
| "b64_spec (v # vs) acc bits =
     (let acc' = 64 * acc + v; bits' = bits + 6 in
      if 8 \<le> bits'
      then acc' div 2 ^ (bits' - 8) # b64_spec vs (acc' mod 2 ^ (bits' - 8)) (bits' - 8)
      else b64_spec vs acc' bits')"

lemma length_b64_spec: "bits < 8 \<Longrightarrow> length (b64_spec vs acc bits) = (bits + 6 * length vs) div 8"
proof (induction vs acc bits rule: b64_spec.induct)
  case (2 v vs acc bits)
  then show ?case by (cases "8 \<le> bits + 6") (auto simp: Let_def)
qed simp

lemma b64_shift_mod:
  fixes v :: nat
  assumes "v < 64" and "k \<le> 26"
  shows "((64 * B) mod 4294967296 + v) mod 2 ^ (k + 6) = 64 * (B mod 2 ^ k) + v"
proof -
  have "(2::nat) ^ (k + 6) dvd 2 ^ 32" using assms(2) by (intro le_imp_power_dvd) simp
  then have "((64 * B) mod 2 ^ 32 + v) mod 2 ^ (k + 6) = (64 * B + v) mod 2 ^ (k + 6)"
    by (metis mod_add_left_eq mod_mod_cancel)
  also have "\<dots> = 64 * (B mod 2 ^ k) + v"
    using assms(1) by (simp add: power_add mult.commute [of _ 64] mod_mult2_eq)
  finally show ?thesis by simp
qed

lemma b64_emit:
  "(ucast (drop_bit k (buf :: u32)) :: u8) = of_nat (unat buf mod 2 ^ (k + 8) div 2 ^ k)"
proof -
  have "unat (ucast (drop_bit k buf) :: u8) = drop_bit k (unat buf) mod 256"
    by (simp add: unsigned_ucast_eq unat_drop_bit_eq take_bit_eq_mod)
  also have "\<dots> = unat buf div 2 ^ k mod 256" by (simp add: drop_bit_eq_div)
  also have "\<dots> = unat buf mod 2 ^ (k + 8) div 2 ^ k"
    by (simp add: power_add mod_mult2_eq)
  finally show ?thesis by (metis of_nat_unat ucast_id)
qed

lemma b64_loop_refines:
  assumes "list_all2 (\<lambda>c v. b64_val c = Some (of_nat v) \<and> v < 64) cs vs"
    and "bits < 8" and "unat buf mod 2 ^ bits = acc"
  shows "b64_loop cs buf bits out = Inr (out @ map of_nat (b64_spec vs acc bits))"
  using assms
proof (induction cs buf bits out arbitrary: vs acc rule: b64_loop.induct)
  case (2 c cs buf bits out)
  obtain v ws where vs: "vs = v # ws" and v: "b64_val c = Some (of_nat v)" "v < 64"
    and ws: "list_all2 (\<lambda>c v. b64_val c = Some (of_nat v) \<and> v < 64) cs ws"
    using "2.prems"(1) by (auto simp: list_all2_Cons1)
  define buf' where "buf' = push_bit 6 buf OR ucast (of_nat v :: u8)"
  have u: "unat (ucast (of_nat v :: u8) :: u32) = v"
    using v(2) by (simp add: unsigned_ucast_eq take_bit_nat_eq_self)
  have buf': "unat buf' = (64 * unat buf) mod 4294967296 + v"
    using unat_push_or [of "ucast (of_nat v :: u8) :: u32" 6 buf] v(2) u by (simp add: buf'_def)
  have m: "unat buf' mod 2 ^ (bits + 6) = 64 * acc + v"
    using b64_shift_mod [OF v(2), of bits "unat buf"] "2.prems"(2,3) by (simp add: buf')
  show ?case
  proof (cases "8 \<le> bits + 6")
    case True
    define k where "k = bits - 2"
    with True have k: "bits = k + 2" by simp
    have next_acc: "unat buf' mod 2 ^ k = (64 * acc + v) mod 2 ^ k"
      using m by (metis k add.assoc dvd_triv_left mod_mod_cancel power_add)
    have byte: "(ucast (drop_bit k buf') :: u8) = of_nat ((64 * acc + v) div 2 ^ k)"
      using b64_emit [of k buf'] m by (simp add: k add.commute [of k])
    show ?thesis
      using "2.IH"(1) [of "of_nat v" buf' "bits + 6" ws "(64 * acc + v) mod 2 ^ k"]
        True ws next_acc byte "2.prems"(2) v(1)
      by (simp add: vs buf'_def Let_def k)
  next
    case False
    then show ?thesis
      using "2.IH"(2) [of "of_nat v" buf' "bits + 6"] ws v(1) m by (simp add: vs buf'_def Let_def)
  qed
qed simp

text \<open>The reference encoder of RFC 4648, unpadded, in both alphabets.\<close>

definition b64_char :: "bool \<Rightarrow> nat \<Rightarrow> u8" where
  "b64_char url n =
     (if n < 26 then of_nat (65 + n) else if n < 52 then of_nat (71 + n)
      else if n < 62 then of_nat (n - 4)
      else if n = 62 then (if url then 45 else 43) else (if url then 95 else 47))"

fun sextets :: "nat list \<Rightarrow> nat list" where
  "sextets (a # b # c # r) =
     a div 4 # (a mod 4 * 16 + b div 16) # (b mod 16 * 4 + c div 64) # c mod 64 # sextets r"
| "sextets [a, b] = [a div 4, a mod 4 * 16 + b div 16, b mod 16 * 4]"
| "sextets [a] = [a div 4, a mod 4 * 16]"
| "sextets [] = []"

definition b64_encode :: "bool \<Rightarrow> bytes \<Rightarrow> bytes" where
  "b64_encode url bs = map (b64_char url) (sextets (map unat bs))"

lemma unat_b64_char:
  "n < 64 \<Longrightarrow> unat (b64_char url n) =
     (if n < 26 then 65 + n else if n < 52 then 71 + n else if n < 62 then n - 4
      else if n = 62 then (if url then 45 else 43) else (if url then 95 else 47))"
  by (simp add: b64_char_def del: of_nat_add of_nat_diff)

lemma b64_val_upper: "65 \<le> unat c \<Longrightarrow> unat c \<le> 90 \<Longrightarrow> b64_val c = Some (of_nat (unat c - 65))"
  and b64_val_lower: "97 \<le> unat c \<Longrightarrow> unat c \<le> 122 \<Longrightarrow> b64_val c = Some (of_nat (unat c - 71))"
  and b64_val_digit: "48 \<le> unat c \<Longrightarrow> unat c \<le> 57 \<Longrightarrow> b64_val c = Some (of_nat (unat c + 4))"
  by (simp_all add: b64_val_def word_le_nat_alt word_unat_eq_iff unat_sub unat_u8_add
      del: of_nat_add of_nat_diff)

lemma b64_val_char:
  assumes "n < 64"
  shows "b64_val (b64_char url n) = Some (of_nat n)"
proof -
  note u = unat_b64_char [OF assms, of url]
  consider "n < 26" | "26 \<le> n" "n < 52" | "52 \<le> n" "n < 62" | "n = 62" | "n = 63"
    using assms by linarith
  then show ?thesis
  proof cases
    case 1 with u b64_val_upper [of "b64_char url n"] show ?thesis by simp
  next
    case 2 with u b64_val_lower [of "b64_char url n"] show ?thesis by simp
  next
    case 3 with u b64_val_digit [of "b64_char url n"] show ?thesis by simp
  qed (simp_all add: b64_char_def b64_val_def)
qed

lemma sextets_bound: "\<forall>x \<in> set xs. x < 256 \<Longrightarrow> \<forall>v \<in> set (sextets xs). v < 64"
  by (induction xs rule: sextets.induct) auto

lemma sextet_joins:
  "64 * (a div 4) + (a mod 4 * 16 + x) = 16 * a + (x :: nat)"
  "64 * (a div 16) + (a mod 16 * 4 + x) = 4 * a + (x :: nat)"
  "64 * (a div 4) + a mod 4 * 16 = 16 * (a :: nat)"
  "64 * (a div 16) + a mod 16 * 4 = 4 * (a :: nat)"
  "64 * (a div 64) + a mod 64 = (a :: nat)"
  using mult_div_mod_eq [of 4 a] mult_div_mod_eq [of 16 a] mult_div_mod_eq [of 64 a]
  by linarith+

lemma div_mod_join:
  "x < k \<Longrightarrow> (k * a + x) div k = (a :: nat)"
  "x < k \<Longrightarrow> (k * a + x) mod k = (x :: nat)"
  by simp_all

lemma b64_spec_sextets: "\<forall>x \<in> set xs. x < 256 \<Longrightarrow> b64_spec (sextets xs) 0 0 = xs"
proof (induction xs rule: sextets.induct)
  case (1 a b c r)
  then have "b div 16 < 16" "c div 64 < 4" by (simp_all add: less_mult_imp_div_less)
  with 1 show ?case
    by (simp add: Let_def sextet_joins div_mod_join)
next
  case (2 a b)
  then have "b div 16 < 16" by (simp add: less_mult_imp_div_less)
  then show ?case by (simp add: Let_def sextet_joins div_mod_join)
qed (simp_all add: Let_def sextet_joins)

lemma b64_char_not_pad: "n < 64 \<Longrightarrow> b64_char url n \<noteq> 61"
  using unat_b64_char [of n url] by (auto split: if_splits)

lemma trim_end_encode: "trim_end 61 (b64_encode url bs @ replicate n 61) = b64_encode url bs"
proof -
  have "\<forall>v \<in> set (sextets (map unat bs)). v < 64"
    by (rule sextets_bound) (simp add: unat_u8_bound)
  then have "\<forall>c \<in> set (b64_encode url bs). c \<noteq> 61"
    by (auto simp: b64_encode_def b64_char_not_pad)
  then show ?thesis
    by (metis last_in_set trim_end_id trim_end_replicate)
qed

lemma base64_roundtrip: "base64_decode (b64_encode url bs @ replicate n 61) = Inr bs"
proof -
  have b: "\<forall>v \<in> set (sextets (map unat bs)). v < 64"
    by (rule sextets_bound) (simp add: unat_u8_bound)
  then have "list_all2 (\<lambda>c v. b64_val c = Some (of_nat v) \<and> v < 64)
      (b64_encode url bs) (sextets (map unat bs))"
    by (simp add: b64_encode_def list_all2_map1 list_all2_same b64_val_char list.rel_refl_strong)
  then have "b64_loop (b64_encode url bs) 0 0 [] = Inr (map of_nat (b64_spec (sextets (map unat bs)) 0 0))"
    using b64_loop_refines [of _ _ 0 0 0 "[]"] by simp
  then show ?thesis
    by (simp add: base64_decode_def trim_end_encode b64_spec_sextets unat_u8_bound o_def)
qed

lemma b64_loop_length:
  "b64_loop cs buf bits out = Inr r \<Longrightarrow> bits < 8 \<Longrightarrow>
     length r = length out + (bits + 6 * length cs) div 8"
proof (induction cs buf bits out rule: b64_loop.induct)
  case (2 c cs buf bits out)
  then show ?case
    by (cases "8 \<le> bits + 6") (auto simp: Let_def split: option.splits)
qed simp

section \<open>Positions in a text\<close>

text \<open>The number of scalar values of a valid text: its bytes that start one.\<close>

definition lead_bytes :: "bytes \<Rightarrow> bytes" where
  "lead_bytes bs = filter (\<lambda>b. \<not> is_cont b) bs"

text \<open>The text after its last line feed.\<close>

definition last_line :: "bytes \<Rightarrow> bytes" where
  "last_line bs = rev (takeWhile (\<lambda>b. b \<noteq> 10) (rev bs))"

lemma char_group_lead:
  assumes "char_group g"
  shows "length (lead_bytes g) = 1" and "10 \<in> set g \<longleftrightarrow> g = [10]"
proof -
  obtain a r where g: "g = a # r" and a: "a < 128 \<and> r = [] \<or> 194 \<le> a \<and> r \<noteq> []"
    and r: "\<forall>b \<in> set r. is_cont b"
    using assms by (auto simp: char_group_def)
  have "\<not> is_cont a" using a by (auto simp: is_cont_def word_le_nat_alt word_less_nat_alt)
  then show "length (lead_bytes g) = 1"
    using r by (simp add: g lead_bytes_def filter_False)
  have "\<not> is_cont 10" by (simp add: is_cont_def)
  then show "10 \<in> set g \<longleftrightarrow> g = [10]"
    using a r by (auto simp: g)
qed

lemma last_line_append:
  "last_line (xs @ g) = (if 10 \<in> set g then last_line g else last_line xs @ g)"
  by (auto simp: last_line_def takeWhile_append)

lemma line_col_fold:
  assumes "\<forall>g \<in> set gs. char_group g"
  shows "foldl line_col_step (1, 1) gs =
    (1 + count_list (concat gs) 10, 1 + length (lead_bytes (last_line (concat gs))))"
  using assms
proof (induction gs rule: rev_induct)
  case Nil
  show ?case by (simp add: last_line_def lead_bytes_def)
next
  case (snoc g gs)
  then have "char_group g" by simp
  note lead = char_group_lead [OF this]
  show ?case
  proof (cases "g = [10]")
    case True
    then show ?thesis using snoc by (simp add: last_line_def lead_bytes_def)
  next
    case False
    then have "count_list g 10 = 0" using lead by (simp add: count_list_0_iff)
    then show ?thesis
      using False lead snoc by (simp add: last_line_append lead_bytes_def)
  qed
qed

lemma floor_boundary_le: "floor_boundary t n \<le> n"
  by (induction n) simp_all

lemma floor_boundary_boundary: "is_char_boundary t (floor_boundary t n)"
  by (induction n) (simp_all add: is_char_boundary_def)

lemma floor_boundary_greatest:
  "m \<le> n \<Longrightarrow> is_char_boundary t m \<Longrightarrow> m \<le> floor_boundary t n"
  by (induction n) (auto simp: le_Suc_eq)

lemma line_col_prefix:
  assumes "utf8_valid t" and p_def: "p = take (floor_boundary t (min off (length t))) t"
  shows "line_col t off = (1 + count_list p 10, 1 + length (lead_bytes (last_line p)))"
proof -
  let ?o = "floor_boundary t (min off (length t))"
  have "?o \<le> length t" using floor_boundary_le [of t "min off (length t)"] by simp
  then have "utf8_valid p"
    unfolding p_def using assms(1) floor_boundary_boundary by (simp add: utf8_valid_take)
  then have "concat (chars p) = p" by (simp add: utf8_valid_def)
  then show ?thesis
    using line_col_fold [of "chars p"] chars_groups by (simp add: line_col_def p_def)
qed

section \<open>Errors of the conversion\<close>

lemma parse_hex_Inl:
  assumes "parse_hex s = Inl e"
  shows "e \<in> (\<lambda>m. Config (str m)) ` {''hex length must be even'', ''invalid hex''}"
proof (cases "odd (length s)")
  case False
  with assms obtain x y where
    "and_then (nibble x) (\<lambda>h. and_then (nibble y) (\<lambda>l. Inr (push_bit 4 h OR l))) = Inl e"
    by (auto simp: parse_hex_def dest!: collect_Inl)
  then show ?thesis by (auto simp: and_then_Inl nibble_def split: if_splits)
qed (use assms in \<open>simp add: parse_hex_def\<close>)

lemma b64_loop_Inl:
  "b64_loop cs buf bits out = Inl e \<Longrightarrow> e = Config (str ''invalid base64'')"
  by (induction cs buf bits out rule: b64_loop.induct)
    (auto simp: Let_def split: option.splits if_splits)

definition conversion_errors :: "rerror set" where
  "conversion_errors = (\<lambda>m. Config (str m)) ` {''hex length must be even'', ''invalid hex'',
     ''uuid must be 16 bytes'', ''invalid base64'',
     ''reality public_key must decode to 32 bytes''}"

lemma parse_uuid_Inl: "parse_uuid s = Inl e \<Longrightarrow> e \<in> conversion_errors"
  by (auto simp: parse_uuid_def Let_def and_then_Inl conversion_errors_def
      dest!: parse_hex_Inl split: if_splits)

lemma parse_pubkey_Inl: "parse_pubkey_b64 s = Inl e \<Longrightarrow> e \<in> conversion_errors"
  by (auto simp: parse_pubkey_b64_def base64_decode_def and_then_Inl conversion_errors_def
      dest!: b64_loop_Inl split: if_splits)

lemma try_from_raw_Inl: "try_from_raw r = Inl e \<Longrightarrow> e \<in> conversion_errors"
  using parse_hex_Inl [of "raw_short_id (raw_reality_of (raw_outbound_of r))" e]
  by (auto simp: try_from_raw_def Let_def and_then_Inl conversion_errors_def
      dest!: parse_uuid_Inl parse_pubkey_Inl)

definition config_wf :: "config \<Rightarrow> bool" where
  "config_wf c \<longleftrightarrow>
     length (vl_uuid (out_vless (cfg_outbound c))) = 16 \<and>
     length (public_key (out_reality (cfg_outbound c))) = 32"

lemma try_from_raw_Inr: "try_from_raw r = Inr c \<Longrightarrow> config_wf c"
  by (auto simp: try_from_raw_def Let_def and_then_Inr config_wf_def parse_uuid_def
      parse_pubkey_b64_def split: if_splits)

section \<open>Properties\<close>

text \<open>
  \<^verbatim>\<open>parse_hex\<close> accepts exactly the texts that are, up to the case of the letters, the
  hexadecimal code of a byte string, and returns that byte string: no other text is
  accepted and no digit is misread.
\<close>

theorem parse_hex_exact: "parse_hex s = Inr bs \<longleftrightarrow> to_ascii_lowercase s = hex_encode bs"
  by (rule parse_hex_iff)

text \<open>
  C38: \<^verbatim>\<open>parse_uuid\<close> accepts exactly the texts that are the hexadecimal code of 16 bytes
  once every hyphen is dropped, wherever the hyphens stand.
\<close>

theorem parse_uuid_exact:
  assumes "utf8_valid s"
  shows "parse_uuid s = Inr bs \<longleftrightarrow>
    length bs = 16 \<and> to_ascii_lowercase (filter (\<lambda>b. b \<noteq> 45) s) = hex_encode bs"
  using chars_filter_ascii [OF assms, of 45]
  by (auto simp: parse_uuid_def and_then_Inr parse_hex_iff)

theorem parse_uuid_exact_witness:
  "parse_uuid (str ''b831381d-6324-4d53-ad4f-8CDA48b30811'') =
     Inr [0xb8, 0x31, 0x38, 0x1d, 0x63, 0x24, 0x4d, 0x53,
          0xad, 0x4f, 0x8c, 0xda, 0x48, 0xb3, 0x08, 0x11]"
proof -
  have "utf8_valid (str ''b831381d-6324-4d53-ad4f-8CDA48b30811'')"
    by (rule utf8_valid_ascii) simp
  from parse_uuid_exact [OF this] show ?thesis
    by (simp add: hex_digit_def to_ascii_lowercase_def ascii_lower_def)
qed

text \<open>
  C37: Base64 decoding undoes RFC 4648 encoding: for every byte string, in the standard and
  in the URL-safe alphabet, with any number of padding characters. The 32-bit accumulator
  of the loop never loses a bit that is still to be delivered.
\<close>

theorem base64_decode_encode: "base64_decode (b64_encode url bs @ replicate n 61) = Inr bs"
  by (rule base64_roundtrip)

text \<open>
  A REALITY public key is accepted only if it is 43 base64 characters long without its
  padding, and is then 32 bytes.
\<close>

theorem parse_pubkey_length:
  assumes "parse_pubkey_b64 s = Inr k"
  shows "length k = 32 \<and> length (trim_end 61 s) = 43"
  using assms b64_loop_length [of "trim_end 61 s" 0 0 "[]" k]
  by (auto simp: parse_pubkey_b64_def base64_decode_def and_then_Inr split: if_splits)

lemma sample_pubkey: "parse_pubkey_b64 (replicate 43 65 @ [61]) = Inr (replicate 32 0)"
  by code_simp

theorem parse_pubkey_length_witness:
  "length (replicate 32 (0 :: u8)) = 32 \<and> length (trim_end 61 (replicate 43 65 @ [61])) = 43"
  by (rule parse_pubkey_length [OF sample_pubkey])

text \<open>
  A diagnosis names the right place: for a valid UTF-8 text, the line is one more than
  the line feeds before the (boundary at or below the) offset and the column one more than
  the scalar values since the last of them.
\<close>

theorem line_col_counts:
  assumes "utf8_valid t"
  shows "line_col t off =
    (let p = take (floor_boundary t (min off (length t))) t in
     (1 + count_list p 10, 1 + length (filter (\<lambda>b. \<not> is_cont b) (last_line p))))"
  using line_col_prefix [OF assms refl, of off] by (simp add: Let_def lead_bytes_def)

theorem line_col_counts_witness: "line_col [97, 10, 98] 3 = (2, 2)"
proof -
  have "utf8_valid [97, 10, 98]" by (rule utf8_valid_ascii) simp
  from line_col_counts [OF this, of 3] show ?thesis
    by (simp add: numeral_3_eq_3 is_char_boundary_def last_line_def is_cont_def Let_def)
qed

text \<open>
  What an error of the TOML parser may say: its message, behind the position where one is known, which is
  given by two numbers.
\<close>

definition toml_diagnosis :: "(nat \<times> nat) option \<Rightarrow> bytes \<Rightarrow> bytes" where
  "toml_diagnosis place message =
     (case place of
        None \<Rightarrow> [84, 79, 77, 76, 32, 232, 167, 163, 230, 158, 144, 229, 164, 177, 232, 180, 165, 239, 188, 154] @ message
      | Some (line, col) \<Rightarrow>
          [84, 79, 77, 76, 32, 232, 167, 163, 230, 158, 144, 229, 164, 177, 232, 180, 165, 239, 188, 136, 231, 172, 172, 32]
            @ decimal line @ [32, 232, 161, 140, 231, 172, 172, 32]
            @ decimal col @ [32, 229, 136, 151, 239, 188, 137, 239, 188, 154] @ message)"

text \<open>The line and the column of a byte offset: what is in front of it, counted.\<close>

definition place_of :: "bytes \<Rightarrow> nat \<Rightarrow> nat \<times> nat" where
  "place_of t start =
     (let p = take (floor_boundary t (min start (length t))) t in
      (1 + count_list p 10, 1 + length (lead_bytes (last_line p))))"

text \<open>
  C34: Loading a configuration either yields one whose UUID has 16 bytes and whose key has
  32, or an error. An error of the conversion is one of five fixed texts; an error of the TOML
  parser is the parser's message behind a fixed text, and where it names a place, its line and its
  column, which count the line feeds in front of it and the scalar values since the last of them. So
  nothing of the text itself, in particular no credential on the offending line, is added to the message.
\<close>

theorem load_result:
  assumes "utf8_valid t"
  shows "case load from_str (Inr t) of
     Inr c \<Rightarrow> config_wf c
   | Inl e \<Rightarrow>
       e \<in> (\<lambda>m. Config (str m)) ` {''hex length must be even'', ''invalid hex'',
           ''uuid must be 16 bytes'', ''invalid base64'',
           ''reality public_key must decode to 32 bytes''}
       \<or> (\<exists>te. from_str t = Inl te \<and>
            e = Config (toml_diagnosis (map_option (\<lambda>(start, _). place_of t start) (te_span te)) (te_message te)))"
proof -
  have "describe_toml_error te t
      = Config (toml_diagnosis (map_option (\<lambda>(start, _). place_of t start) (te_span te)) (te_message te))" for te
    by (auto simp: describe_toml_error_def toml_diagnosis_def place_of_def Let_def line_col_prefix [OF assms refl]
        split: option.splits)
  then show ?thesis
    using try_from_raw_Inl try_from_raw_Inr
    by (auto simp: load_def parse_def conversion_errors_def split: sum.splits)
qed

theorem load_result_witness:
  "load (\<lambda>_. Inl \<lparr>te_message = [109], te_span = Some (3, 4)\<rparr>) (Inr [97, 10, 98]) =
     Inl (Config (toml_diagnosis (Some (2, 2)) [109]))"
proof -
  let ?e = "\<lparr>te_message = [109 :: u8], te_span = Some (3 :: nat, 4 :: nat)\<rparr>"
  have "utf8_valid [97, 10, 98]" by (rule utf8_valid_ascii) simp
  moreover have "place_of [97, 10, 98] 3 = (2, 2)" by code_simp
  moreover have "load (\<lambda>_. Inl ?e) (Inr [97, 10, 98]) = Inl (describe_toml_error ?e [97, 10, 98])"
    by (simp add: load_def parse_def)
  moreover have "\<exists>m. describe_toml_error ?e [97, 10, 98] = Config (84 # m)"
    by (simp add: describe_toml_error_def split: prod.splits)
  ultimately show ?thesis
    using load_result [of "[97, 10, 98]" "\<lambda>_. Inl ?e"] by auto
qed

end
