(* ===== verification/RealityConnect.thy ===== *)
theory RealityConnect
  imports RealityAuth ConfigModel
begin

text \<open>
  The two-pass handshake of \<^verbatim>\<open>src/outbound/reality.rs\<close>: the client configuration, the first
  pass \<^verbatim>\<open>prepare\<close> that computes the sealed session id, and \<^verbatim>\<open>connect\<close> with its second pass.
  rustls is a parameter: \<open>new_conn cc sni\<close> is the construction of a ClientHello for a
  configuration, as an interaction with the script.
\<close>

section \<open>The configuration of rustls\<close>

datatype named_group = X25519MLKEM768 | X25519

record client_cfg =
  cc_groups :: "named_group list"
  cc_versions :: "bytes list"
  cc_verifier_key :: bytes
  cc_client_auth :: bool
  cc_resumption :: bool
  cc_alpn :: "bytes list"

definition reality_provider :: "named_group list" where
  "reality_provider = [X25519MLKEM768, X25519]"

definition client_config :: "bytes \<Rightarrow> client_cfg" where
  "client_config auth_key =
     \<lparr>cc_groups = reality_provider, cc_versions = [str ''TLS13''], cc_verifier_key = auth_key,
      cc_client_auth = False, cc_resumption = False, cc_alpn = [str ''h2'', str ''http/1.1'']\<rparr>"

text \<open>The outcome of the construction: \<^verbatim>\<open>ClientConnection::new\<close>, then \<^verbatim>\<open>write_tls\<close>.\<close>

type_synonym hello_out = "tls_error + (io_error + bytes)"
type_synonym rustls = "client_cfg \<Rightarrow> bytes \<Rightarrow> hello_out hello"

section \<open>The first pass\<close>

record prepared =
  pr_seed :: bytes
  pr_kx_secret :: bytes
  pr_session_id_call :: nat
  pr_session_id :: bytes
  pr_auth_key :: bytes
  pr_call_count :: nat

text \<open>\<open>tt\<close> is the text of a rustls error.\<close>

definition hello_records :: "(tls_error \<Rightarrow> bytes) \<Rightarrow> hello_out \<Rightarrow> rerror + bytes" where
  "hello_records tt out =
     (case out of
        Inl e \<Rightarrow> Inl (Reality (str ''build ClientHello: '' @ tt e))
      | Inr (Inl e) \<Rightarrow> Inl (Reality (str ''extract ClientHello: '' @ io_text e))
      | Inr (Inr records) \<Rightarrow> Inr records)"

definition prepare ::
  "crypto \<Rightarrow> (tls_error \<Rightarrow> bytes) \<Rightarrow> (nat \<Rightarrow> unit + bytes) \<Rightarrow> rustls \<Rightarrow> reality_cfg \<Rightarrow> bytes \<Rightarrow> bytes
     \<Rightarrow> bytes \<Rightarrow> bytes \<Rightarrow> u32 \<Rightarrow> rerror + prepared" where
  "prepare cr tt fb new_conn cfg sni seed kx_secret mlkem_pub unix_secs =
     (let (out, calls) = with_script cr fb seed kx_secret (PubOnly mlkem_pub) None
            (new_conn (client_config (replicate 32 0)) sni) in
      and_then (hello_records tt out) (\<lambda>records.
      and_then (client_hello_body records) (\<lambda>hello.
      and_then (locate_session_id_call hello calls) (\<lambda>session_id_call.
      let random = slice random_offset (random_offset + random_len) hello in
      and_then (derive_auth_key cr kx_secret (public_key cfg) random) (\<lambda>auth_key.
      let nonce = drop hkdf_salt_len random in
      and_then (build_auth_plaintext (short_id cfg) unix_secs) (\<lambda>plaintext.
      and_then (seal_session_id cr auth_key nonce (aad_from_hello hello) plaintext) (\<lambda>session_id.
      Inr \<lparr>pr_seed = seed, pr_kx_secret = kx_secret, pr_session_id_call = session_id_call,
           pr_session_id = session_id, pr_auth_key = auth_key, pr_call_count = length calls\<rparr>)))))))"

section \<open>The second pass\<close>

definition second_pass ::
  "crypto \<Rightarrow> (nat \<Rightarrow> unit + bytes) \<Rightarrow> rustls \<Rightarrow> bytes \<Rightarrow> prepared \<Rightarrow> kx \<Rightarrow> hello_out \<times> bytes list" where
  "second_pass cr fb new_conn sni p mlkem =
     with_script cr fb (pr_seed p) (pr_kx_secret p) (Active mlkem)
       (Some (pr_session_id_call p, pr_session_id p)) (new_conn (client_config (pr_auth_key p)) sni)"

definition new_mlkem :: "(tls_error \<Rightarrow> bytes) \<Rightarrow> tls_error + kx \<Rightarrow> rerror + kx" where
  "new_mlkem tt started = map_sum (\<lambda>e. Reality (str ''ml-kem keygen: '' @ tt e)) id started"

text \<open>
  What \<^verbatim>\<open>connect\<close> gets from outside: the parsed server name, 64 random bytes, the Unix time
  (\<open>None\<close> before the epoch), the generated ML-KEM key, and the handshake itself, which ends
  with a stream or an I/O error or, at the time limit, not at all.
\<close>

record 's surroundings =
  su_sni :: "bytes \<Rightarrow> bytes option"
  su_seed :: bytes
  su_kx_secret :: bytes
  su_now :: "nat option"
  su_mlkem :: "tls_error + kx"
  su_handshake :: "(bytes \<Rightarrow> tls_error + unit) \<Rightarrow> u64 \<Rightarrow> hello_out \<Rightarrow> (io_error + 's) option"

definition connect ::
  "crypto \<Rightarrow> (tls_error \<Rightarrow> bytes) \<Rightarrow> (nat \<Rightarrow> unit + bytes) \<Rightarrow> rustls \<Rightarrow> 's surroundings \<Rightarrow> reality_cfg
     \<Rightarrow> u64 \<Rightarrow> rerror + 's" where
  "connect cr tt fb new_conn su cfg hs_ms =
     (case su_sni su (server_name cfg) of
        None \<Rightarrow> Inl (Reality (str ''bad server_name''))
      | Some sni \<Rightarrow>
     (case su_now su of
        None \<Rightarrow> Inl (Reality (str ''system clock before unix epoch''))
      | Some secs \<Rightarrow>
     and_then (new_mlkem tt (su_mlkem su)) (\<lambda>mlkem.
     and_then (prepare cr tt fb new_conn cfg sni (su_seed su) (su_kx_secret su) (kx_pub mlkem)
       (of_nat secs)) (\<lambda>p.
     let (fut, calls) = second_pass cr fb new_conn sni p mlkem in
     if length calls \<noteq> pr_call_count p
     then Inl (Reality (str ''ClientHello was not built under the RNG script ('' @ decimal (length calls)
            @ str '' vs '' @ decimal (pr_call_count p) @ str '' draws)''))
     else if calls ! pr_session_id_call p \<noteq> pr_session_id p
     then Inl (Reality (str ''session_id draw was not replaced''))
     else
       case su_handshake su (verify_server_cert cr (pr_auth_key p)) hs_ms fut of
         None \<Rightarrow> Inl (Reality (str ''handshake timeout''))
       | Some (Inl e) \<Rightarrow> Inl (Reality (io_text e))
       | Some (Inr s) \<Rightarrow> Inr s))))"

section \<open>The server\<close>

text \<open>
  What a REALITY server computes from a ClientHello body and the x25519 share in it, with its
  private key: the authentication key and the opened session id.
\<close>

definition server_key :: "crypto \<Rightarrow> bytes \<Rightarrow> bytes \<Rightarrow> bytes \<Rightarrow> bytes option" where
  "server_key cr secret client_share body =
     cr_hkdf cr (take 20 (slice 6 38 body)) (cr_x25519 cr secret client_share) (str ''REALITY'')"

definition server_opens ::
  "crypto \<Rightarrow> (bytes \<Rightarrow> bytes \<Rightarrow> bytes \<Rightarrow> bytes \<Rightarrow> bytes option) \<Rightarrow> bytes \<Rightarrow> bytes \<Rightarrow> bytes \<Rightarrow> bytes option" where
  "server_opens cr gcm_open secret client_share body =
     Option.bind (server_key cr secret client_share body) (\<lambda>key.
       gcm_open key (drop 20 (slice 6 38 body))
         (take 39 body @ replicate 32 0 @ drop 71 body) (slice 39 71 body))"

text \<open>
  What the two passes rely on in rustls: the ClientHello does not depend on the certificate
  check, and the session id is one of the draws, of 32 bytes, which is copied into the
  ClientHello and used nowhere else in it.
\<close>

definition auth_blind :: "rustls \<Rightarrow> bool" where
  "auth_blind new_conn \<longleftrightarrow> (\<forall>a b sni. new_conn (client_config a) sni = new_conn (client_config b) sni)"

definition copies_session_id :: "hello_out hello \<Rightarrow> nat \<Rightarrow> bool" where
  "copies_session_id h k \<longleftrightarrow>
     (\<forall>r ds records body. play h r ds = Some (Inr (Inr records)) \<and> client_hello_body records = Inr body \<longrightarrow>
        k < length ds \<and> length (ds ! k) = 32 \<and> slice 39 71 body = ds ! k \<and>
        (\<forall>s. length s = 32 \<longrightarrow> (\<exists>records'.
           play h r (ds[k := s]) = Some (Inr (Inr records')) \<and>
           client_hello_body records' = Inr (take 39 body @ s @ drop 71 body))))"

section \<open>The passes as replays\<close>

abbreviation new_script :: "bytes \<Rightarrow> bytes \<Rightarrow> mlkem_share \<Rightarrow> (nat \<times> bytes) option \<Rightarrow> script" where
  "new_script seed kx_secret mlkem replace \<equiv>
     \<lparr>sc_stream = seed_stream_new seed, sc_calls = [], sc_replace = replace,
      sc_kx_secret = kx_secret, sc_mlkem = Some mlkem\<rparr>"

lemma with_script_play:
  assumes "with_script cr fb seed sec m rep h = (x, calls)"
  obtains ns where "calls = served cr ns (new_script seed sec m rep)" "map length calls = ns"
    "play h (share_of cr (new_script seed sec m rep)) calls = Some x"
proof -
  obtain slot where "run_hello cr fb h (Some (new_script seed sec m rep)) = (x, slot)"
    "calls = (case slot of Some sc \<Rightarrow> sc_calls sc | None \<Rightarrow> [])"
    using assms by (auto simp: with_script_def split: prod.splits)
  with run_hello_play [OF this(1)] that show thesis by auto
qed

lemma play_with_script:
  assumes "play h (share_of cr (new_script seed sec m rep)) (served cr ns (new_script seed sec m rep)) = Some x"
    and "map length (served cr ns (new_script seed sec m rep)) = ns"
  shows "with_script cr fb seed sec m rep h = (x, served cr ns (new_script seed sec m rep))"
  using play_run_hello [OF assms, of fb] by (auto simp: with_script_def)

lemma share_of_new_script:
  "share_of cr (new_script seed sec (Active kx) rep) = share_of cr (new_script seed sec (PubOnly (kx_pub kx)) rep')"
  by (simp add: share_of_def start_hybrid_def shown_def hybrid_component_def Let_def)

lemma second_pass_replaces:
  assumes "with_script cr fb seed sec (PubOnly (kx_pub kx)) None h = (Inr (Inr records), calls)"
    and "client_hello_body records = Inr body"
    and "copies_session_id h k" and "length sid = 32"
  obtains records' where
    "with_script cr fb seed sec (Active kx) (Some (k, sid)) h = (Inr (Inr records'), calls[k := sid])"
    "client_hello_body records' = Inr (take 39 body @ sid @ drop 71 body)"
    "k < length calls" "calls ! k = slice 39 71 body"
proof -
  let ?a = "new_script seed sec (PubOnly (kx_pub kx)) None"
  let ?b = "new_script seed sec (Active kx) (Some (k, sid))"
  obtain ns where ns: "calls = served cr ns ?a" "map length calls = ns"
    "play h (share_of cr ?a) calls = Some (Inr (Inr records))"
    using with_script_play [OF assms(1)] by blast
  from assms(2-4) ns(3) obtain records' where k: "k < length calls" "length (calls ! k) = 32"
      "slice 39 71 body = calls ! k"
    and r: "play h (share_of cr ?a) (calls[k := sid]) = Some (Inr (Inr records'))"
      "client_hello_body records' = Inr (take 39 body @ sid @ drop 71 body)"
    unfolding copies_session_id_def by blast
  have "k < length ns" "ns ! k = length sid" using k(1,2) ns(2) assms(4) by auto
  then have sv: "served cr ns ?b = calls[k := sid]"
    using served_replace [of ?b ?a k sid cr ns] ns(1) by simp
  have "map length (calls[k := sid]) = ns"
    using ns(2) k(1,2) assms(4) by (metis list_update_id map_update)
  then have "with_script cr fb seed sec (Active kx) (Some (k, sid)) h = (Inr (Inr records'), calls[k := sid])"
    using play_with_script [where h = h and cr = cr and seed = seed and sec = sec and m = "Active kx"
        and rep = "Some (k, sid)" and ns = ns and x = "Inr (Inr records')" and fb = fb] r(1)
    by (simp add: sv share_of_new_script [where rep' = None])
  with r(2) k that show thesis by simp
qed

lemma server_reads:
  assumes "71 \<le> length body" and "length sid = 32"
  shows "slice 6 38 (take 39 body @ sid @ drop 71 body) = slice 6 38 body"
    and "take 39 (take 39 body @ sid @ drop 71 body) @ replicate 32 0 @ drop 71 (take 39 body @ sid @ drop 71 body)
      = aad_from_hello body"
    and "slice 39 71 (take 39 body @ sid @ drop 71 body) = sid"
  using assms by (simp_all add: slice_def aad_from_hello_def const_defs drop_take min_absorb2)

lemma prepare_Inr:
  assumes "prepare cr tt fb new_conn cfg sni seed kx_secret pub secs = Inr p"
  obtains records calls body plaintext where
    "with_script cr fb seed kx_secret (PubOnly pub) None (new_conn (client_config (replicate 32 0)) sni)
       = (Inr (Inr records), calls)"
    "client_hello_body records = Inr body" "locate_session_id_call body calls = Inr (pr_session_id_call p)"
    "derive_auth_key cr kx_secret (public_key cfg) (slice 6 38 body) = Inr (pr_auth_key p)"
    "build_auth_plaintext (short_id cfg) secs = Inr plaintext"
    "cr_seal cr (pr_auth_key p) (drop 20 (slice 6 38 body)) (aad_from_hello body) plaintext = Some (pr_session_id p)"
    "length (pr_session_id p) = 32"
    "pr_seed p = seed" "pr_kx_secret p = kx_secret" "pr_call_count p = length calls"
proof -
  obtain out calls where w: "with_script cr fb seed kx_secret (PubOnly pub) None
      (new_conn (client_config (replicate 32 0)) sni) = (out, calls)" by fastforce
  with assms obtain records where "hello_records tt out = Inr records"
    by (auto simp: prepare_def and_then_Inr)
  then have "out = Inr (Inr records)" by (auto simp: hello_records_def split: sum.splits)
  with assms w that [of records calls] show thesis
    by (auto simp: prepare_def hello_records_def and_then_Inr seal_session_id_def const_defs Let_def
        split: option.splits if_splits)
qed

section \<open>Properties\<close>

text \<open>
  C6: The two-pass construction works: if rustls copies one draw into the session id and
  depends on nothing else of it, the draws of the first pass are different, and the two sides
  of the key exchange and of the cipher fit, then after a successful first pass the second
  builds a ClientHello whose draws pass both self-checks, and the server that holds the private
  key computes the client's authentication key from it and opens its session id to the
  version, the time and the zero-padded short id. The bytes the first pass used as additional
  data, with the session id blanked, are the ones the server sees.
\<close>

theorem server_authenticates:
  assumes prep: "prepare cr tt fb new_conn cfg sni seed kx_secret (kx_pub mlkem) secs = Inr p"
    and blind: "auth_blind new_conn"
    and copies: "copies_session_id (new_conn (client_config (replicate 32 0)) sni) k"
    and fresh: "distinct (snd (with_script cr fb seed kx_secret (PubOnly (kx_pub mlkem)) None
       (new_conn (client_config (replicate 32 0)) sni)))"
    and dh: "cr_x25519 cr srv (cr_x25519 cr kx_secret (cr_base cr)) = cr_x25519 cr kx_secret (public_key cfg)"
    and gcm: "\<And>key nonce aad m c. cr_seal cr key nonce aad m = Some c \<Longrightarrow> gcm_open key nonce aad c = Some m"
  shows "\<exists>records calls body.
    second_pass cr fb new_conn sni p mlkem = (Inr (Inr records), calls) \<and>
    client_hello_body records = Inr body \<and>
    length calls = pr_call_count p \<and> calls ! pr_session_id_call p = pr_session_id p \<and>
    server_key cr srv (cr_x25519 cr kx_secret (cr_base cr)) body = Some (pr_auth_key p) \<and>
    server_opens cr gcm_open srv (cr_x25519 cr kx_secret (cr_base cr)) body
      = Some ([26, 7, 28, 0] @ u32_be secs @ short_id cfg @ replicate (8 - length (short_id cfg)) 0)"
proof -
  obtain records calls body plaintext where a:
    "with_script cr fb seed kx_secret (PubOnly (kx_pub mlkem)) None (new_conn (client_config (replicate 32 0)) sni)
       = (Inr (Inr records), calls)"
    "client_hello_body records = Inr body" "locate_session_id_call body calls = Inr (pr_session_id_call p)"
    "derive_auth_key cr kx_secret (public_key cfg) (slice 6 38 body) = Inr (pr_auth_key p)"
    "build_auth_plaintext (short_id cfg) secs = Inr plaintext"
    "cr_seal cr (pr_auth_key p) (drop 20 (slice 6 38 body)) (aad_from_hello body) plaintext = Some (pr_session_id p)"
    "length (pr_session_id p) = 32"
    "pr_seed p = seed" "pr_kx_secret p = kx_secret" "pr_call_count p = length calls"
    using prepare_Inr [OF prep] by blast
  obtain records' where b:
    "with_script cr fb seed kx_secret (Active mlkem) (Some (k, pr_session_id p))
       (new_conn (client_config (replicate 32 0)) sni) = (Inr (Inr records'), calls[k := pr_session_id p])"
    "client_hello_body records' = Inr (take 39 body @ pr_session_id p @ drop 71 body)"
    "k < length calls" "calls ! k = slice 39 71 body"
    using second_pass_replaces [OF a(1,2) copies a(7)] by blast
  have len: "71 \<le> length body" using a(2) by (auto simp: client_hello_body_iff)
  have "pr_session_id_call p < length calls" "calls ! pr_session_id_call p = calls ! k"
    using a(3) b(4) by (auto simp: locate_session_id_call_def const_defs position_Some split: option.splits)
  with fresh a(1) b(3) have k: "pr_session_id_call p = k" by (simp add: nth_eq_iff_index_eq)
  have key: "server_key cr srv (cr_x25519 cr kx_secret (cr_base cr))
      (take 39 body @ pr_session_id p @ drop 71 body) = Some (pr_auth_key p)"
    using a(4) by (auto simp: server_key_def server_reads [OF len a(7)] dh derive_auth_key_def
        const_defs hkdf_info_def Let_def split: if_splits option.splits)
  have pt: "plaintext = [26, 7, 28, 0] @ u32_be secs @ short_id cfg @ replicate (8 - length (short_id cfg)) 0"
    using a(5) by (auto simp: build_auth_plaintext_def const_defs split: if_splits)
  have "second_pass cr fb new_conn sni p mlkem = (Inr (Inr records'), calls[k := pr_session_id p])"
    using b(1) blind unfolding second_pass_def auth_blind_def a(8,9) k by metis
  moreover have "server_opens cr gcm_open srv (cr_x25519 cr kx_secret (cr_base cr))
      (take 39 body @ pr_session_id p @ drop 71 body) = Some plaintext"
    unfolding server_opens_def key server_reads [OF len a(7)] by (simp add: gcm [OF a(6)])
  moreover have "length (calls[k := pr_session_id p]) = pr_call_count p"
    "calls[k := pr_session_id p] ! pr_session_id_call p = pr_session_id p"
    using a(10) b(3) k by simp_all
  ultimately show ?thesis using key b(2) pt by blast
qed

lemma prepare_call_in_log:
  "prepare cr tt fb new_conn cfg sni seed kx_secret pub secs = Inr p \<Longrightarrow> pr_session_id_call p < pr_call_count p"
  by (erule prepare_Inr) (auto simp: locate_session_id_call_def Let_def position_Some split: option.splits)

text \<open>
  C33: No unchecked handshake: a stream is returned only if the server name and the clock were
  good, the second pass drew as often as the first and served the sealed session id at the
  located draw, whose index is within the log, and the handshake ended in time with a verifier
  that holds the key of the first pass.
\<close>

theorem connect_checked:
  assumes "connect cr tt fb new_conn su cfg hs_ms = Inr s"
  shows "\<exists>sni secs mlkem p fut calls.
    su_sni su (server_name cfg) = Some sni \<and> su_now su = Some secs \<and> su_mlkem su = Inr mlkem \<and>
    prepare cr tt fb new_conn cfg sni (su_seed su) (su_kx_secret su) (kx_pub mlkem) (of_nat secs) = Inr p \<and>
    second_pass cr fb new_conn sni p mlkem = (fut, calls) \<and>
    length calls = pr_call_count p \<and> pr_session_id_call p < length calls \<and>
    calls ! pr_session_id_call p = pr_session_id p \<and>
    su_handshake su (verify_server_cert cr (pr_auth_key p)) hs_ms fut = Some (Inr s)"
proof -
  obtain sni secs mlkem where a: "su_sni su (server_name cfg) = Some sni" "su_now su = Some secs"
    "su_mlkem su = Inr mlkem"
    using assms by (cases "su_sni su (server_name cfg)"; cases "su_now su"; cases "su_mlkem su")
      (auto simp: connect_def new_mlkem_def)
  then obtain p where p: "prepare cr tt fb new_conn cfg sni (su_seed su) (su_kx_secret su) (kx_pub mlkem)
      (of_nat secs) = Inr p"
    using assms by (auto simp: connect_def new_mlkem_def and_then_Inr)
  obtain fut calls where "second_pass cr fb new_conn sni p mlkem = (fut, calls)" by fastforce
  with assms a p prepare_call_in_log [OF p] show ?thesis
    by (simp add: connect_def new_mlkem_def split: if_splits option.splits sum.splits)
qed

section \<open>Sample instances\<close>

definition sample_rustls :: rustls where
  "sample_rustls cc sni =
     Share (\<lambda>r. case r of Inl e \<Rightarrow> Emit (Inl e) | Inr _ \<Rightarrow>
       Fill 32 (\<lambda>r. case r of Inl _ \<Rightarrow> Emit (Inl (General [])) | Inr random \<Rightarrow>
         Fill 32 (\<lambda>r. case r of Inl _ \<Rightarrow> Emit (Inl (General [])) | Inr sid \<Rightarrow>
           Emit (Inr (Inr (tls_record 0x16 3 1 ([1, 0, 0, 67, 3, 3] @ random @ [32] @ sid)))))))"

definition sum_crypto :: crypto where
  "sum_crypto = sample_crypto\<lparr>cr_sha256 := (\<lambda>x. replicate 32 (sum_list x)),
     cr_x25519 := (\<lambda>a b. map2 (+) a b), cr_base := replicate 32 0\<rparr>"

lemma client_hello_body_sample:
  "length a = 32 \<Longrightarrow> length b = 32 \<Longrightarrow>
     client_hello_body (tls_record 0x16 3 1 (1 # 0 # 0 # 67 # 3 # 3 # a @ 32 # b))
       = Inr (1 # 0 # 0 # 67 # 3 # 3 # a @ 32 # b)"
  by (simp add: client_hello_body_iff) (metis append_Nil2)

lemma sample_copies: "copies_session_id (sample_rustls cc sni) 1"
proof -
  { fix r ds records
    assume "play (sample_rustls cc sni) r ds = Some (Inr (Inr records))"
    then have "\<exists>x a b. r = Inr x \<and> ds = [a, b] \<and> length a = 32 \<and> length b = 32"
      by (auto simp: sample_rustls_def split: sum.splits list.splits if_splits) }
  note shape = this
  show ?thesis
    unfolding copies_session_id_def
  proof (intro allI impI)
    fix r ds records body
    assume *: "play (sample_rustls cc sni) r ds = Some (Inr (Inr records)) \<and> client_hello_body records = Inr body"
    with shape obtain x a b where s: "r = Inr x" "ds = [a, b]" "length a = 32" "length b = 32" by blast
    with * have "body = 1 # 0 # 0 # 67 # 3 # 3 # a @ 32 # b"
      by (auto simp: sample_rustls_def client_hello_body_sample)
    with s show "1 < length ds \<and> length (ds ! 1) = 32 \<and> slice 39 71 body = ds ! 1 \<and>
        (\<forall>s. length s = 32 \<longrightarrow> (\<exists>records'.
           play (sample_rustls cc sni) r (ds[1 := s]) = Some (Inr (Inr records')) \<and>
           client_hello_body records' = Inr (take 39 body @ s @ drop 71 body)))"
      by (simp add: sample_rustls_def client_hello_body_sample slice_def)
  qed
qed

lemma seed_fill_32:
  "ss_buf st = [] \<Longrightarrow> seed_fill sha 32 st =
     (digest32 sha (ss_seed st @ u64_le (ss_counter st)), st\<lparr>ss_counter := ss_counter st + 1\<rparr>)"
  by (subst seed_fill.simps) (simp add: refill_def Let_def)

lemma sample_pass:
  assumes "length pub = 1184"
  shows "with_script sum_crypto fb [] (replicate 32 2) (PubOnly pub) None (sample_rustls cc sni)
    = (Inr (Inr (tls_record 0x16 3 1 (1 # 0 # 0 # 67 # 3 # 3 # replicate 32 0 @ 32 # replicate 32 1))),
       [replicate 32 0, replicate 32 1])"
  using assms
  by (simp add: with_script_def sample_rustls_def start_hybrid_def shown_def random_fill_def Let_def
      seed_stream_new_def seed_fill_32 digest32_def sum_crypto_def u64_le_def const_defs upt_rec)

definition sample_open :: "bytes \<Rightarrow> bytes \<Rightarrow> bytes \<Rightarrow> bytes \<Rightarrow> bytes option" where
  "sample_open key nonce aad c = Some (take (length c - 16) c)"

definition sample_reality :: reality_cfg where
  "sample_reality = \<lparr>public_key = replicate 32 5, short_id = [9], server_name = str ''a''\<rparr>"

definition sample_prepared :: prepared where
  "sample_prepared = \<lparr>pr_seed = [], pr_kx_secret = replicate 32 2, pr_session_id_call = 1,
     pr_session_id = [26, 7, 28, 0] @ u32_be 5 @ [9] @ replicate 7 0 @ replicate 16 4,
     pr_auth_key = replicate 32 3, pr_call_count = 2\<rparr>"

definition sample_mlkem :: kx where
  "sample_mlkem = \<lparr>kx_pub = replicate 1184 6, kx_complete = Inr\<rparr>"

lemma sample_mlkem_pub [simp]: "length (kx_pub sample_mlkem) = 1184"
  by (simp add: sample_mlkem_def)

lemma sample_prepare:
  "prepare sum_crypto tt fb sample_rustls sample_reality sni [] (replicate 32 2) (kx_pub sample_mlkem) 5
     = Inr sample_prepared"
  by (simp add: prepare_def sample_pass hello_records_def client_hello_body_sample
      locate_session_id_call_def slice_def derive_auth_key_def build_auth_plaintext_def seal_session_id_def
      sample_reality_def const_defs Let_def sample_prepared_def)
    (simp add: sum_crypto_def sample_crypto_def session_id_len_def)

lemma sample_second_pass:
  "\<exists>records. second_pass sum_crypto fb sample_rustls sni sample_prepared sample_mlkem
     = (Inr (Inr records), [replicate 32 0, pr_session_id sample_prepared])"
proof -
  have p: "pr_seed sample_prepared = []" "pr_kx_secret sample_prepared = replicate 32 2"
    "pr_session_id_call sample_prepared = 1" "length (pr_session_id sample_prepared) = 32"
    by (simp_all add: sample_prepared_def)
  obtain records where "with_script sum_crypto fb [] (replicate 32 2) (Active sample_mlkem)
      (Some (1, pr_session_id sample_prepared)) (sample_rustls (client_config (pr_auth_key sample_prepared)) sni)
      = (Inr (Inr records), [replicate 32 0, replicate 32 1][1 := pr_session_id sample_prepared])"
  proof (rule second_pass_replaces [where kx = sample_mlkem,
        OF sample_pass client_hello_body_sample sample_copies p(4)])
    show "length (kx_pub sample_mlkem) = 1184" "length (replicate 32 (0 :: 8 word)) = 32"
      "length (replicate 32 (1 :: 8 word)) = 32" by simp_all
  qed
  then show ?thesis unfolding second_pass_def p by simp
qed

theorem server_authenticates_witness:
  "\<exists>p records calls body.
     prepare sum_crypto (\<lambda>_. []) (\<lambda>_. Inl ()) sample_rustls sample_reality [] [] (replicate 32 2)
       (kx_pub sample_mlkem) 5 = Inr p \<and>
     second_pass sum_crypto (\<lambda>_. Inl ()) sample_rustls [] p sample_mlkem = (Inr (Inr records), calls) \<and>
     client_hello_body records = Inr body \<and>
     server_opens sum_crypto sample_open (replicate 32 5) (replicate 32 2) body
       = Some ([26, 7, 28, 0] @ u32_be 5 @ [9] @ replicate 7 0)"
proof -
  have blind: "auth_blind sample_rustls" by (simp add: auth_blind_def sample_rustls_def)
  have fresh: "distinct (snd (with_script sum_crypto (\<lambda>_. Inl ()) [] (replicate 32 2)
       (PubOnly (kx_pub sample_mlkem)) None (sample_rustls (client_config (replicate 32 0)) [])))"
    by (simp add: sample_pass)
  have base: "cr_x25519 sum_crypto (replicate 32 2) (cr_base sum_crypto) = replicate 32 2"
    and dh: "cr_x25519 sum_crypto (replicate 32 5) (cr_x25519 sum_crypto (replicate 32 2) (cr_base sum_crypto))
      = cr_x25519 sum_crypto (replicate 32 2) (public_key sample_reality)"
    by (simp_all add: sum_crypto_def sample_reality_def)
  have gcm: "cr_seal sum_crypto key nonce aad m = Some c \<Longrightarrow> sample_open key nonce aad c = Some m"
    for key nonce aad m c by (auto simp: sum_crypto_def sample_crypto_def sample_open_def)
  have sid: "short_id sample_reality = [9]" "8 - length [9 :: 8 word] = 7" by (simp_all add: sample_reality_def)
  show ?thesis
    using server_authenticates [where gcm_open = sample_open,
        OF sample_prepare blind sample_copies fresh dh, unfolded sid base, OF gcm, simplified]
      sample_prepare by (simp del: One_nat_def) blast
qed

theorem connect_checked_witness:
  "connect sum_crypto (\<lambda>_. []) (\<lambda>_. Inl ()) sample_rustls
     \<lparr>su_sni = Some, su_seed = [], su_kx_secret = replicate 32 2, su_now = Some 5,
      su_mlkem = Inr sample_mlkem, su_handshake = (\<lambda>v ms fut. Some (Inr True))\<rparr> sample_reality 1 = Inr True \<and>
   (\<exists>fut calls. second_pass sum_crypto (\<lambda>_. Inl ()) sample_rustls (str ''a'') sample_prepared sample_mlkem
      = (fut, calls) \<and> length calls = 2)"
proof -
  let ?su = "\<lparr>su_sni = Some, su_seed = [], su_kx_secret = replicate 32 2, su_now = Some 5,
      su_mlkem = Inr sample_mlkem, su_handshake = (\<lambda>v ms fut. Some (Inr True))\<rparr> :: bool surroundings"
  have "pr_call_count sample_prepared = 2" "pr_session_id_call sample_prepared = 1"
    by (simp_all add: sample_prepared_def)
  then have c: "connect sum_crypto (\<lambda>_. []) (\<lambda>_. Inl ()) sample_rustls ?su sample_reality 1 = Inr True"
    using sample_second_pass [of "\<lambda>_. Inl ()" "server_name sample_reality"]
    by (auto simp: connect_def new_mlkem_def sample_prepare)
  have "server_name sample_reality = str ''a''" by (simp add: sample_reality_def)
  with connect_checked [OF c] c show ?thesis
    by (auto simp: sample_prepare sample_prepared_def)
qed

end
