(* ===== verification/IpText.thy ===== *)
theory IpText
  imports Address RErrors
begin

text \<open>
  \<^verbatim>\<open>host.parse::<IpAddr>()\<close> of the Rust standard library, as \<^verbatim>\<open>resolve\<close> of
  \<^verbatim>\<open>src/net.rs\<close> uses it: dotted decimal without leading zeros, or groups of up to four
  hexadecimal digits with one \<^verbatim>\<open>::\<close> and possibly a dotted tail; the whole text must be used.
  A reader returns what it read and the rest, or \<open>None\<close> with nothing consumed.
\<close>

definition digit :: "nat \<Rightarrow> u8 \<Rightarrow> nat option" where
  "digit radix b =
     (let n = unat b;
          v = (if 48 \<le> n \<and> n \<le> 57 then n - 48
               else if 97 \<le> n \<and> n \<le> 102 then n - 87
               else if 65 \<le> n \<and> n \<le> 70 then n - 55 else 36)
      in if v < radix then Some v else None)"

fun read_digits :: "nat \<Rightarrow> bytes \<Rightarrow> nat list \<times> bytes" where
  "read_digits radix [] = ([], [])"
| "read_digits radix (b # bs) =
     (case digit radix b of
        Some v \<Rightarrow> (case read_digits radix bs of (vs, r) \<Rightarrow> (v # vs, r))
      | None \<Rightarrow> ([], b # bs))"

definition read_number :: "nat \<Rightarrow> nat \<Rightarrow> bool \<Rightarrow> nat \<Rightarrow> bytes \<Rightarrow> (nat \<times> bytes) option" where
  "read_number radix max_digits zero_prefix max_value bs =
     (case read_digits radix bs of (vs, r) \<Rightarrow>
        let v = foldl (\<lambda>a d. a * radix + d) 0 vs in
        if vs = [] \<or> max_digits < length vs \<or> (\<not> zero_prefix \<and> hd vs = 0 \<and> 1 < length vs) \<or> max_value < v
        then None else Some (v, r))"

definition read_separator :: "u8 \<Rightarrow> nat \<Rightarrow> (bytes \<Rightarrow> 'a option) \<Rightarrow> bytes \<Rightarrow> 'a option" where
  "read_separator sep i inner bs =
     (if i = 0 then inner bs
      else case bs of [] \<Rightarrow> None | b # r \<Rightarrow> if b = sep then inner r else None)"

fun v4_groups :: "nat \<Rightarrow> nat \<Rightarrow> bytes \<Rightarrow> (bytes \<times> bytes) option" where
  "v4_groups 0 i bs = Some ([], bs)"
| "v4_groups (Suc n) i bs =
     Option.bind (read_separator 46 i (read_number 10 3 False 255) bs) (\<lambda>(v, r).
     map_option (\<lambda>(vs, r). (of_nat v # vs, r)) (v4_groups n (Suc i) r))"

text \<open>\<open>v6_groups n i\<close>: up to \<open>n\<close> groups, the first of which has number \<open>i\<close>; whether they end dotted.\<close>

fun v6_groups :: "nat \<Rightarrow> nat \<Rightarrow> bytes \<Rightarrow> bytes \<times> bool \<times> bytes" where
  "v6_groups 0 i bs = ([], False, bs)"
| "v6_groups (Suc n) i bs =
     (case (if 0 < n then read_separator 58 i (v4_groups 4 0) bs else None) of
        Some (os, r) \<Rightarrow> (os, True, r)
      | None \<Rightarrow>
          (case read_separator 58 i (read_number 16 4 True 65535) bs of
             Some (g, r) \<Rightarrow>
               (case v6_groups n (Suc i) r of (gs, dotted, r) \<Rightarrow> (u16_be (of_nat g) @ gs, dotted, r))
           | None \<Rightarrow> ([], False, bs)))"

definition read_v6 :: "bytes \<Rightarrow> (bytes \<times> bytes) option" where
  "read_v6 bs =
     (case v6_groups 8 0 bs of (head, dotted, r) \<Rightarrow>
        if length head = 16 then Some (head, r)
        else if dotted then None
        else
          (case r of
             b1 # b2 # r \<Rightarrow>
               if b1 = 58 \<and> b2 = 58 then
                 (case v6_groups (8 - (length head div 2 + 1)) 0 r of (tail, _, r) \<Rightarrow>
                    Some (head @ replicate (16 - length head - length tail) 0 @ tail, r))
               else None
           | _ \<Rightarrow> None))"

definition parse_ip :: "bytes \<Rightarrow> ip_addr option" where
  "parse_ip bs =
     (case v4_groups 4 0 bs of
        Some (os, r) \<Rightarrow> if r = [] then Some (v4_from os) else None
      | None \<Rightarrow>
          (case read_v6 bs of
             Some (os, r) \<Rightarrow> if r = [] then Some (v6_from os) else None
           | None \<Rightarrow> None))"

lemmas groups_numeral =
  v4_groups.simps(2) [of "pred_numeral k" for k, folded numeral_eq_Suc]
  v6_groups.simps(2) [of "pred_numeral k" for k, folded numeral_eq_Suc]

lemma parse_ip_samples:
  "parse_ip (str ''10.0.0.255'') = Some (v4_from [10, 0, 0, 255])"
  "parse_ip (str ''10.0.0.256'') = None"
  "parse_ip (str ''10.0.0.01'') = None"
  "parse_ip (str ''::1'') = Some (v6_from (replicate 14 0 @ [0, 1]))"
  "parse_ip (str ''a.b'') = None"
  by (simp_all add: parse_ip_def read_number_def read_separator_def digit_def read_v6_def
      groups_numeral u16_be_def Let_def)

end
