(* ===== verification/NetModel.thy ===== *)
theory NetModel
  imports IpText "HOL-Library.Multiset" "HOL-Library.Sublist"
begin

text \<open>
  \<^verbatim>\<open>src/net.rs\<close>: the order of the addresses (\<^verbatim>\<open>interleave\<close>), the DNS cache, the race of
  connection attempts (\<^verbatim>\<open>connect_any\<close>) and \<^verbatim>\<open>dial\<close> with its retries. The resolver, the clock
  and what becomes of an attempt are arguments: the answer of a lookup with the state the other
  tasks left the cache in, and the events of a race in the order in which they happen.
\<close>

type_synonym sock_addr = "ip_addr \<times> u16"

section \<open>The order of the addresses\<close>

text \<open>The loop of \<^verbatim>\<open>interleave\<close>: pop one of each queue until both are empty.\<close>

function alternate :: "'a list \<Rightarrow> 'a list \<Rightarrow> 'a list" where
  "alternate primary secondary =
     (if primary \<noteq> [] \<or> secondary \<noteq> []
      then take 1 primary @ take 1 secondary @ alternate (drop 1 primary) (drop 1 secondary)
      else [])"
  by pat_completeness auto
termination
proof (relation "measure (\<lambda>(p, s). length p + length s)")
  fix p s :: "'a list"
  assume "p \<noteq> [] \<or> s \<noteq> []"
  then show "((drop 1 p, drop 1 s), p, s) \<in> measure (\<lambda>(p, s). length p + length s)"
    by (cases p; cases s) auto
qed simp

declare alternate.simps [simp del]

definition interleave :: "sock_addr list \<Rightarrow> sock_addr list" where
  "interleave addrs =
     (case addrs of
        [] \<Rightarrow> addrs
      | a # _ \<Rightarrow>
          let first_v6 = is_ipv6 (fst a);
              (primary, secondary) = partition (\<lambda>a. is_ipv6 (fst a) = first_v6) addrs
          in alternate primary secondary)"

section \<open>The DNS cache\<close>

text \<open>Times are nanoseconds of a monotonic clock.\<close>

type_synonym dns_entries = "bytes \<times> u16 \<rightharpoonup> nat \<times> sock_addr list"

definition dns_ttl :: nat where "dns_ttl = 60 * 10 ^ 9"

text \<open>
  What a lookup answers, with the cache and the time when the task goes on: other connections
  may have used the cache meanwhile. \<open>None\<close>: the lookup does not come back.
\<close>

type_synonym lookup = "dns_entries \<Rightarrow> ((io_error + sock_addr list) option \<times> dns_entries \<times> nat)"

definition resolve_with ::
  "dns_entries \<Rightarrow> bytes \<Rightarrow> u16 \<Rightarrow> nat \<Rightarrow> nat \<Rightarrow> lookup \<Rightarrow> (io_error + sock_addr list) option \<times> dns_entries" where
  "resolve_with entries host port ttl now look =
     (case (case entries (host, port) of
              Some (at, addrs) \<Rightarrow> if now - at < ttl then Some addrs else None
            | None \<Rightarrow> None) of
        Some addrs \<Rightarrow> (Some (Inr addrs), entries)
      | None \<Rightarrow>
          (case look entries of
             (None, entries, _) \<Rightarrow> (None, entries)
           | (Some (Inl e), entries, _) \<Rightarrow> (Some (Inl e), entries)
           | (Some (Inr addrs), entries, at) \<Rightarrow>
               if addrs = []
               then (Some (Inl (IoError NotFound (str ''dns: no address for '' @ host))), entries)
               else (Some (Inr addrs), entries((host, port) \<mapsto> (at, addrs)))))"

definition invalidate :: "bytes \<Rightarrow> u16 \<Rightarrow> dns_entries \<Rightarrow> dns_entries" where
  "invalidate host port entries = entries((host, port) := None)"

definition resolve ::
  "dns_entries \<Rightarrow> bytes \<Rightarrow> u16 \<Rightarrow> nat \<Rightarrow> lookup \<Rightarrow> (io_error + sock_addr list) option \<times> dns_entries" where
  "resolve entries host port now look =
     (case parse_ip host of
        Some ip \<Rightarrow> (Some (Inr [(ip, port)]), entries)
      | None \<Rightarrow> resolve_with entries host port dns_ttl now look)"

section \<open>The race\<close>

text \<open>
  An attempt of the \<^verbatim>\<open>JoinSet\<close> ends with a connection, an error, or a panic (its text as an
  I/O error). \<open>Elapsed\<close>: the delay has passed; it counts only while an address is left.
  \<open>Joined i r\<close>: the \<open>i\<close>-th of the attempts in flight ends with \<open>r\<close>.
\<close>

datatype 'c attempt_end = Conn 'c | Failed io_error | Panicked io_error

datatype 'c race_event = Elapsed | Joined nat "'c attempt_end"

record 'c race =
  rc_pending :: "sock_addr list"
  rc_flight :: "sock_addr list"
  rc_last :: io_error
  rc_started :: "sock_addr list"
  rc_failed :: "(sock_addr \<times> io_error) list"
  rc_result :: "(io_error + sock_addr \<times> 'c) option"

text \<open>The top of the loop: start the next address, give up if nothing is in flight.\<close>

definition race_top :: "'c race \<Rightarrow> 'c race" where
  "race_top st =
     (let st = (case rc_pending st of
                  a # rest \<Rightarrow> st\<lparr>rc_pending := rest, rc_flight := rc_flight st @ [a],
                                rc_started := rc_started st @ [a]\<rparr>
                | [] \<Rightarrow> st)
      in if rc_flight st = [] then st\<lparr>rc_result := Some (Inl (rc_last st))\<rparr> else st)"

definition race_start :: "sock_addr list \<Rightarrow> 'c race" where
  "race_start addrs =
     race_top \<lparr>rc_pending = addrs, rc_flight = [],
       rc_last = IoError NotFound (str ''no address to connect''), rc_started = [], rc_failed = [],
       rc_result = None\<rparr>"

definition drop_nth :: "nat \<Rightarrow> 'a list \<Rightarrow> 'a list" where
  "drop_nth i xs = take i xs @ drop (Suc i) xs"

definition race_event :: "'c race \<Rightarrow> 'c race_event \<Rightarrow> 'c race" where
  "race_event st ev =
     (if rc_result st \<noteq> None then st
      else
        case ev of
          Elapsed \<Rightarrow> if rc_pending st \<noteq> [] then race_top st else st
        | Joined i r \<Rightarrow>
            if length (rc_flight st) \<le> i then st
            else
              let a = rc_flight st ! i; st = st\<lparr>rc_flight := drop_nth i (rc_flight st)\<rparr> in
              (case r of
                 Conn c \<Rightarrow> st\<lparr>rc_result := Some (Inr (a, c))\<rparr>
               | Failed e \<Rightarrow> race_top (st\<lparr>rc_last := e, rc_failed := rc_failed st @ [(a, e)]\<rparr>)
               | Panicked e \<Rightarrow> race_top (st\<lparr>rc_last := e, rc_failed := rc_failed st @ [(a, e)]\<rparr>)))"

definition connect_any :: "sock_addr list \<Rightarrow> 'c race_event list \<Rightarrow> (io_error + sock_addr \<times> 'c) option" where
  "connect_any addrs evs = rc_result (run race_event (race_start addrs) evs)"

section \<open>Dialling\<close>

text \<open>
  The surroundings of one attempt: what other connections do to the cache before it and while
  it connects, the time, the lookup, the events of the race up to the time limit, and the
  results of setting the two socket options.
\<close>

record 'c dial_env =
  de_before :: "dns_entries \<Rightarrow> dns_entries"
  de_during :: "dns_entries \<Rightarrow> dns_entries"
  de_now :: nat
  de_lookup :: lookup
  de_events :: "'c race_event list"
  de_nodelay :: "io_error + unit"
  de_keepalive :: "io_error + unit"

datatype 'c attempt = Connected 'c | AttemptFailed io_error | AttemptTimeout

datatype 'c dial_act = Tried "'c attempt" | Invalidated | Slept nat | NodelaySet | KeepaliveSet nat

definition keepalive :: nat where "keepalive = 15"

definition dial_attempt ::
  "bytes \<Rightarrow> u16 \<Rightarrow> 'c dial_env \<Rightarrow> dns_entries \<Rightarrow> 'c attempt \<times> dns_entries" where
  "dial_attempt server port env entries =
     (case resolve (de_before env entries) server port (de_now env) (de_lookup env) of
        (None, entries) \<Rightarrow> (AttemptTimeout, de_during env entries)
      | (Some (Inl e), entries) \<Rightarrow> (AttemptFailed e, de_during env entries)
      | (Some (Inr addrs), entries) \<Rightarrow>
          (case connect_any (interleave addrs) (de_events env) of
             None \<Rightarrow> AttemptTimeout
           | Some (Inl e) \<Rightarrow> AttemptFailed e
           | Some (Inr (_, c)) \<Rightarrow> Connected c,
           de_during env entries))"

fun attempt_error :: "'c attempt \<Rightarrow> rerror" where
  "attempt_error (AttemptFailed e) = IO e"
| "attempt_error _ = Protocol (str ''connect timeout'')"

text \<open>The loop from attempt \<open>k\<close> on, with what it does in order.\<close>

function dial_from ::
  "bytes \<Rightarrow> u16 \<Rightarrow> nat \<Rightarrow> (nat \<Rightarrow> 'c dial_env) \<Rightarrow> nat \<Rightarrow> dns_entries
     \<Rightarrow> (rerror + 'c) \<times> dns_entries \<times> 'c dial_act list" where
  "dial_from server port retries envs k entries =
     (case dial_attempt server port (envs k) entries of
        (Connected c, entries) \<Rightarrow>
          (case de_nodelay (envs k) of
             Inl e \<Rightarrow> (Inl (IO e), entries, [Tried (Connected c)])
           | Inr _ \<Rightarrow>
               (case de_keepalive (envs k) of
                  Inl e \<Rightarrow> (Inl (IO e), entries, [Tried (Connected c), NodelaySet])
                | Inr _ \<Rightarrow> (Inr c, entries, [Tried (Connected c), NodelaySet, KeepaliveSet keepalive])))
      | (r, entries) \<Rightarrow>
          let entries = invalidate server port entries in
          if k < retries then
            (case dial_from server port retries envs (Suc k) entries of (res, entries, acts) \<Rightarrow>
               (res, entries, [Tried r, Invalidated, Slept (200 * (k + 1))] @ acts))
          else (Inl (attempt_error r), entries, [Tried r, Invalidated]))"
  by pat_completeness auto
termination
  by (relation "measure (\<lambda>(server, port, retries, envs, k, entries). retries - k)") auto

declare dial_from.simps [simp del]

definition dial ::
  "bytes \<Rightarrow> u16 \<Rightarrow> u64 \<Rightarrow> u32 \<Rightarrow> (u64 \<Rightarrow> nat \<Rightarrow> 'c dial_env) \<Rightarrow> dns_entries
     \<Rightarrow> (rerror + 'c) \<times> dns_entries \<times> 'c dial_act list" where
  "dial server port connect_ms retries envs entries =
     dial_from server port (unat retries) (envs connect_ms) 0 entries"

section \<open>Facts about the order\<close>

lemma alternate_Nil [simp]: "alternate [] [] = []"
  by (simp add: alternate.simps)

lemma alternate_Nil2 [simp]: "alternate p [] = p"
  by (induction p) (simp_all add: alternate.simps [of "_ # _"])

lemma alternate_Nil1 [simp]: "alternate [] s = s"
  by (induction s) (simp_all add: alternate.simps [of "[]" "_ # _"])

lemma alternate_Cons [simp]: "alternate (a # p) (b # s) = a # b # alternate p s"
  by (subst alternate.simps) simp

lemma mset_alternate: "mset (alternate p s) = mset p + mset s"
  by (induction p s rule: list_induct2') simp_all

lemma filter_alternate:
  assumes "\<forall>a \<in> set p. P a" and "\<forall>b \<in> set s. \<not> P b"
  shows "filter P (alternate p s) = p" and "filter (\<lambda>a. \<not> P a) (alternate p s) = s"
  using assms by (induction p s rule: list_induct2') (auto simp: filter_empty_conv)

lemma alternate_nth:
  "i < 2 * min (length p) (length s) \<Longrightarrow>
     alternate p s ! i = (if even i then p ! (i div 2) else s ! (i div 2))"
proof (induction p s arbitrary: i rule: list_induct2')
  case (4 a p b s)
  consider "i = 0" | "i = 1" | j where "i = Suc (Suc j)"
    by (metis One_nat_def not0_implies_Suc)
  then show ?case using 4 by cases auto
qed simp_all

text \<open>
  The addresses are only reordered: each address family keeps the resolver's order, the
  first address stays first, and as long as both families last they alternate.
\<close>

theorem interleave_correct:
  "mset (interleave addrs) = mset addrs \<and>
   (\<forall>b. filter (\<lambda>a. is_ipv6 (fst a) = b) (interleave addrs) = filter (\<lambda>a. is_ipv6 (fst a) = b) addrs) \<and>
   take 1 (interleave addrs) = take 1 addrs \<and>
   (\<forall>i < 2 * min (length (filter (\<lambda>a. is_ipv6 (fst a)) addrs)) (length (filter (\<lambda>a. \<not> is_ipv6 (fst a)) addrs)).
      (is_ipv6 (fst (interleave addrs ! i)) = is_ipv6 (fst (hd addrs))) = even i)"
proof (cases addrs)
  case (Cons a rest)
  define P where "P x \<longleftrightarrow> is_ipv6 (fst x) = is_ipv6 (fst a)" for x :: sock_addr
  let ?p = "filter P addrs" and ?s = "filter (\<lambda>x. \<not> P x) addrs"
  have i: "interleave addrs = alternate ?p ?s"
    by (simp add: interleave_def Cons P_def [abs_def] partition_filter_conv o_def Let_def)
  have f: "filter P (alternate ?p ?s) = ?p" "filter (\<lambda>x. \<not> P x) (alternate ?p ?s) = ?s"
    by (rule filter_alternate; simp)+
  have b: "(\<lambda>x. is_ipv6 (fst x) = b) = (if b = is_ipv6 (fst a) then P else (\<lambda>x. \<not> P x))" for b
    by (auto simp: P_def)
  have hd: "?p \<noteq> [] \<and> hd ?p = a" by (simp add: Cons P_def)
  have "mset (interleave addrs) = mset addrs"
    by (simp add: i mset_alternate)
  moreover have "filter (\<lambda>x. is_ipv6 (fst x) = b) (interleave addrs) = filter (\<lambda>x. is_ipv6 (fst x) = b) addrs" for b
    using f by (simp add: b i)
  moreover have "take 1 (interleave addrs) = take 1 addrs"
  proof -
    have "take 1 (alternate ?p ?s) = [a]"
      using hd by (cases ?p; cases ?s) (auto simp: alternate.simps [of "_ # _"])
    moreover have "take 1 addrs = [a]" by (simp add: Cons)
    ultimately show ?thesis by (simp only: i)
  qed
  moreover have "(is_ipv6 (fst (interleave addrs ! j)) = is_ipv6 (fst (hd addrs))) = even j"
    if "j < 2 * min (length (filter (\<lambda>x. is_ipv6 (fst x)) addrs)) (length (filter (\<lambda>x. \<not> is_ipv6 (fst x)) addrs))" for j
  proof -
    have "min (length (filter (\<lambda>x. is_ipv6 (fst x)) addrs)) (length (filter (\<lambda>x. \<not> is_ipv6 (fst x)) addrs))
      = min (length ?p) (length ?s)"
      using b [of True] b [of False] by (cases "is_ipv6 (fst a)") (simp_all add: min.commute)
    with that have j: "j < 2 * min (length ?p) (length ?s)" by simp
    then have "j div 2 < length ?p" "j div 2 < length ?s" by auto
    then have "P (?p ! (j div 2))" "\<not> P (?s ! (j div 2))"
      using nth_mem [of "j div 2" ?p] nth_mem [of "j div 2" ?s] by auto
    then have "P (interleave addrs ! j) = even j"
      unfolding i alternate_nth [OF j] by simp
    moreover have "hd addrs = a" by (simp add: Cons)
    ultimately show ?thesis by (simp only: P_def)
  qed
  ultimately show ?thesis by blast
qed (simp add: interleave_def)

theorem interleave_correct_witness:
  "interleave [(V6 1, 80), (V6 2, 80), (V4 3, 80)] = [(V6 1, 80), (V4 3, 80), (V6 2, 80)]"
proof -
  let ?a = "[(V6 1, 80), (V6 2, 80), (V4 3, 80)] :: sock_addr list"
  have c: "interleave ?a = [(V6 1, 80), (V4 3, 80), (V6 2, 80)]"
    by (simp add: interleave_def alternate.simps [of "_ # _"])
  have "\<not> is_ipv6 (fst (interleave ?a ! 1))"
    using interleave_correct [of ?a] by (auto simp: c)
  with c show ?thesis by simp
qed

section \<open>Facts about the cache\<close>

type_synonym dns_op = "(bytes \<times> u16, nat \<times> sock_addr list) store_op"

fun dns_op_ok :: "dns_op \<Rightarrow> bool" where
  "dns_op_ok (Put k (at, addrs)) = (addrs \<noteq> [])"
| "dns_op_ok (Del k) = True"

text \<open>The cache after the results that were stored in it and the invalidations, in order.\<close>

definition dns_store :: "bytes \<times> u16 \<Rightarrow> nat \<times> sock_addr list \<Rightarrow> dns_entries \<Rightarrow> dns_entries" where
  "dns_store k v m = m(k \<mapsto> v)"

definition dns_drop :: "bytes \<times> u16 \<Rightarrow> dns_entries \<Rightarrow> dns_entries" where
  "dns_drop k m = invalidate (fst k) (snd k) m"

lemmas dns_ops = dns_store_def dns_drop_def invalidate_def

interpretation dns: keyed_store "\<lambda>m k. m k" dns_store dns_drop "Map.empty"
  by unfold_locales (auto simp: dns_ops)

definition cache_after :: "dns_op list \<Rightarrow> dns_entries" where
  "cache_after h = run (apply_op dns_store dns_drop) Map.empty h"

text \<open>
  C32: An answer of the cache is never empty and never stale: it is the last result stored for
  this host and port, younger than the time to live and not dropped since, or what this call's
  lookup returned, which is then stored; and the cache stays one that lookups and
  invalidations explain, whatever other connections do while the lookup is out.
\<close>

theorem dns_answers:
  assumes "\<forall>op \<in> set h. dns_op_ok op"
    and "look (cache_after h) = (answer, cache_after (h @ others), t)" and "\<forall>op \<in> set others. dns_op_ok op"
    and "resolve_with (cache_after h) host port ttl now look = (Some (Inr addrs), entries)"
  shows "addrs \<noteq> [] \<and>
    ((\<exists>h1 at h2. h = h1 @ Put (host, port) (at, addrs) # h2 \<and> now - at < ttl \<and>
        (\<forall>op \<in> set h2. op_key op \<noteq> (host, port)) \<and> entries = cache_after h) \<or>
     (answer = Some (Inr addrs) \<and> entries = cache_after (h @ others @ [Put (host, port) (t, addrs)])))"
proof (cases "\<exists>at as. cache_after h (host, port) = Some (at, as) \<and> now - at < ttl")
  case True
  then obtain at as where c: "cache_after h (host, port) = Some (at, as)" "now - at < ttl" by blast
  with assms(4) have r: "addrs = as" "entries = cache_after h" by (simp_all add: resolve_with_def)
  obtain h1 h2 where h: "h = h1 @ Put (host, port) (at, as) # h2"
    "\<forall>op \<in> set h2. op_key op \<noteq> (host, port)"
    using dns.last_put c(1) unfolding cache_after_def by blast
  with assms(1) have "as \<noteq> []" by auto
  with h r c(2) show ?thesis by blast
next
  case False
  then have "(case cache_after h (host, port) of Some (at, addrs) \<Rightarrow> if now - at < ttl then Some addrs else None
            | None \<Rightarrow> None) = None"
    by (auto split: option.splits)
  with assms(2,4) show ?thesis
    by (auto simp: resolve_with_def cache_after_def dns_store_def run_append split: option.splits sum.splits if_splits)
qed

theorem dns_answers_witness:
  "resolve_with (cache_after [Put ([97], 443) (5, [(V4 1, 443)]), Del ([98], 443)]) [97] 443 10 14
      (\<lambda>m. (None, m, 20)) = (Some (Inr [(V4 1, 443)]), cache_after [Put ([97], 443) (5, [(V4 1, 443)]), Del ([98], 443)])"
proof -
  let ?h = "[Put ([97], 443) (5, [(V4 1, 443)]), Del ([98], 443)]"
  have r: "resolve_with (cache_after ?h) [97] 443 10 14 (\<lambda>m. (None, m, 20)) = (Some (Inr [(V4 1, 443)]), cache_after ?h)"
    by (simp add: resolve_with_def cache_after_def dns_ops)
  have "[(V4 1, 443 :: u16)] \<noteq> []"
    using dns_answers [of ?h "\<lambda>m. (None, m, 20)" None "[]" 20, OF _ _ _ r] by simp
  with r show ?thesis by simp
qed

section \<open>Facts about the race\<close>

lemma mset_drop_nth: "i < length xs \<Longrightarrow> mset (drop_nth i xs) = mset xs - {#xs ! i#}"
  by (metis drop_nth_def id_take_nth_drop add_mset_remove_trivial mset.simps(2) mset_append
      union_mset_add_mset_right)

lemma length_drop_nth: "i < length xs \<Longrightarrow> Suc (length (drop_nth i xs)) = length xs"
  by (simp add: drop_nth_def)

definition race_inv :: "sock_addr list \<Rightarrow> 'c race \<Rightarrow> bool" where
  "race_inv addrs st \<longleftrightarrow>
     rc_started st @ rc_pending st = addrs \<and>
     (case rc_result st of
        Some (Inr (a, c)) \<Rightarrow> a \<in> set (rc_started st)
      | _ \<Rightarrow> mset (rc_flight st) + mset (map fst (rc_failed st)) = mset (rc_started st)) \<and>
     rc_last st = last (IoError NotFound (str ''no address to connect'') # map snd (rc_failed st)) \<and>
     (rc_result st = None \<longrightarrow> rc_flight st \<noteq> []) \<and>
     (\<forall>e. rc_result st = Some (Inl e) \<longrightarrow> e = rc_last st \<and> rc_flight st = [] \<and> rc_pending st = [])"

lemma race_top_inv:
  assumes "rc_started st @ rc_pending st = addrs" and "rc_result st = None"
    and "mset (rc_flight st) + mset (map fst (rc_failed st)) = mset (rc_started st)"
    and "rc_last st = last (IoError NotFound (str ''no address to connect'') # map snd (rc_failed st))"
  shows "race_inv addrs (race_top st)"
  using assms by (auto simp: race_top_def race_inv_def Let_def split: list.splits)

lemma race_start_inv: "race_inv addrs (race_start addrs)"
  unfolding race_start_def by (rule race_top_inv) simp_all

lemma race_event_inv:
  assumes "race_inv addrs st"
  shows "race_inv addrs (race_event st ev)"
proof (cases "rc_result st = None")
  case True
  then have st: "rc_started st @ rc_pending st = addrs"
    "mset (rc_flight st) + mset (map fst (rc_failed st)) = mset (rc_started st)"
    "rc_last st = last (IoError NotFound (str ''no address to connect'') # map snd (rc_failed st))"
    using assms by (auto simp: race_inv_def)
  show ?thesis
  proof (cases ev)
    case Elapsed
    with True assms st show ?thesis by (simp add: race_event_def race_top_inv)
  next
    case (Joined i r)
    show ?thesis
    proof (cases "i < length (rc_flight st)")
      case i: True
      let ?a = "rc_flight st ! i"
      have a: "?a \<in># mset (rc_flight st)" using i by simp
      have m: "mset (drop_nth i (rc_flight st)) + add_mset ?a (mset (map fst (rc_failed st)))
          = mset (rc_started st)"
        unfolding union_mset_add_mset_right mset_drop_nth [OF i] union_mset_add_mset_left [symmetric]
          insert_DiffM [OF a] by (rule st(2))
      have "?a \<in> set (rc_started st)" using st(2) a by (metis set_mset_mset union_iff)
      note facts = this True Joined i st m
      have lost: "race_inv addrs (race_top (st\<lparr>rc_flight := drop_nth i (rc_flight st), rc_last := e,
          rc_failed := rc_failed st @ [(?a, e)]\<rparr>))" for e
        using facts by (intro race_top_inv) simp_all
      show ?thesis
      proof (cases r)
        case (Conn c)
        with facts show ?thesis by (simp add: race_event_def race_inv_def)
      qed (use facts lost in \<open>simp_all add: race_event_def Let_def\<close>)
    qed (use True Joined assms in \<open>simp add: race_event_def\<close>)
  qed
qed (use assms in \<open>simp add: race_event_def\<close>)

interpretation race: invariant_machine race_event "race_inv addrs" for addrs
  by unfold_locales (rule race_event_inv)

lemmas race_run_inv = race.run_inv [OF race_start_inv]

text \<open>A result other than the last error is the connection of an attempt that ended with it.\<close>

lemma race_top_result: "rc_result (race_top st) = Some (Inr ac) \<Longrightarrow> rc_result st = Some (Inr ac)"
  by (auto simp: race_top_def Let_def split: list.splits if_splits)

lemma race_event_conn:
  "rc_result (race_event st ev) = Some (Inr (a, c)) \<Longrightarrow>
     rc_result st = Some (Inr (a, c)) \<or> (\<exists>i. ev = Joined i (Conn c))"
  by (auto simp: race_event_def Let_def dest!: race_top_result
      split: race_event.splits attempt_end.splits if_splits)

lemma race_run_conn:
  "rc_result (run race_event st evs) = Some (Inr (a, c)) \<Longrightarrow>
     rc_result st = Some (Inr (a, c)) \<or> (\<exists>i. Joined i (Conn c) \<in> set evs)"
proof (induction evs arbitrary: st)
  case (Cons ev evs)
  then show ?case using race_event_conn [of st ev a c] by fastforce
qed simp

text \<open>
  The race of connection attempts is honest: a connection is the one an attempt to one of
  the addresses ended with, and an error is reported only after every address has been tried
  and has failed, and is the last of these failures.
\<close>

theorem race_outcome:
  "case connect_any addrs evs of
     None \<Rightarrow> True
   | Some (Inr (a, c)) \<Rightarrow> a \<in> set addrs \<and> (\<exists>i. Joined i (Conn c) \<in> set evs)
   | Some (Inl e) \<Rightarrow>
       \<exists>failures. mset (map fst failures) = mset addrs \<and>
         e = last (IoError NotFound (str ''no address to connect'') # map snd failures)"
proof -
  let ?st = "run race_event (race_start addrs) evs :: 'a race"
  have inv: "race_inv addrs ?st" by (rule race_run_inv)
  have start: "rc_result (race_start addrs :: 'a race) \<noteq> Some (Inr ac)" for ac
    using race_top_result by (fastforce simp: race_start_def)
  show ?thesis
  proof (cases "rc_result ?st")
    case (Some r)
    show ?thesis
    proof (cases r)
      case (Inl e)
      with inv Some show ?thesis
        by (auto simp: connect_any_def race_inv_def intro!: exI [of _ "rc_failed ?st"])
    next
      case (Inr ac)
      then obtain a c where "ac = (a, c)" by fastforce
      have "set (rc_started ?st) \<subseteq> set addrs" using inv by (metis race_inv_def set_append sup_ge1)
      with \<open>ac = (a, c)\<close> Inr Some inv start race_run_conn [of "race_start addrs" evs a c] show ?thesis
        by (auto simp: connect_any_def race_inv_def)
    qed
  qed (simp add: connect_any_def)
qed

definition race_left :: "'c race \<Rightarrow> nat" where
  "race_left st = length (rc_pending st) + length (rc_flight st)"

lemma race_top_left: "race_left (race_top st) = race_left st"
  by (auto simp: race_left_def race_top_def Let_def split: list.splits)

lemma race_event_left:
  assumes "race_inv addrs st" and "rc_result (race_event st ev) = None"
  shows "race_left (race_event st ev) \<le> race_left st"
    and "ev = Joined 0 r \<Longrightarrow> race_left (race_event st ev) < race_left st"
proof -
  have none: "rc_result st = None" using assms(2) by (auto simp: race_event_def split: if_splits)
  with assms(1) have ne: "0 < length (rc_flight st)" by (simp add: race_inv_def)
  have lost: "race_left (race_event st (Joined i r)) < race_left st"
    if i: "i < length (rc_flight st)" and "rc_result (race_event st (Joined i r)) = None" for i r
    using that none length_drop_nth [OF i]
    by (cases r) (simp_all add: race_event_def Let_def race_top_left, simp_all add: race_left_def)
  show "race_left (race_event st ev) \<le> race_left st"
  proof (cases ev)
    case (Joined i r)
    then show ?thesis
      using lost [of i r] assms(2) none by (cases "i < length (rc_flight st)") (auto simp: race_event_def)
  qed (simp add: race_event_def race_top_left)
  show "ev = Joined 0 r \<Longrightarrow> race_left (race_event st ev) < race_left st"
    using lost [of 0 r] ne assms(2) by simp
qed

lemma race_run_left:
  assumes "race_inv addrs st" and "rc_result (run race_event st evs) = None"
  shows "length (filter (\<lambda>ev. \<exists>r. ev = Joined 0 r) evs) + race_left (run race_event st evs) \<le> race_left st"
  using assms
proof (induction evs arbitrary: st)
  case (Cons ev evs)
  have stuck: "rc_result st \<noteq> None \<Longrightarrow> rc_result (run race_event st es) \<noteq> None" for st :: "'a race" and es
    by (induction es) (simp_all add: race_event_def)
  have "rc_result (race_event st ev) = None"
    using stuck [of "race_event st ev" evs] Cons.prems(2) by (cases "rc_result (race_event st ev)") auto
  note step = Cons.IH [OF race_event_inv [OF Cons.prems(1)]] race_event_left [OF Cons.prems(1) this]
  show ?case
  proof (cases "\<exists>r. ev = Joined 0 r")
    case True
    then obtain r where "ev = Joined 0 r" ..
    with step(1) [of ev] step(3) [of r] Cons.prems(2) show ?thesis by simp
  next
    case False
    with step(1) [of ev] step(2) Cons.prems(2) show ?thesis by simp
  qed
qed simp

text \<open>
  C31: The race ends: once the first attempt in flight has ended as often as there are
  addresses, it has returned, however the delays and the other attempts fall. It never waits
  with nothing in flight.
\<close>

theorem race_returns:
  assumes "length addrs \<le> length (filter (\<lambda>ev. \<exists>r. ev = Joined 0 r) evs)"
  shows "connect_any addrs evs \<noteq> None"
proof
  let ?st = "run race_event (race_start addrs) evs"
  assume "connect_any addrs evs = None"
  then have none: "rc_result ?st = None" by (simp add: connect_any_def)
  have "race_left (race_start addrs :: 'a race) = length addrs"
    by (simp add: race_start_def race_top_left) (simp add: race_left_def)
  with race_run_left [OF race_start_inv none] assms have "race_left ?st = 0" by simp
  with race_run_inv [of addrs evs] none show False by (simp add: race_left_def race_inv_def)
qed

theorem race_returns_witness:
  "connect_any [(V4 1, 80), (V4 2, 80)]
     [Elapsed, Joined 0 (Failed (IoError TimedOut [])), Joined 0 (Conn True)] = Some (Inr ((V4 2, 80), True))"
proof -
  let ?evs = "[Elapsed, Joined 0 (Failed (IoError TimedOut [])), Joined 0 (Conn True)]"
  have "connect_any [(V4 1, 80), (V4 2, 80)] ?evs \<noteq> None"
    by (rule race_returns) simp
  then show ?thesis
    by (simp add: connect_any_def race_start_def race_top_def race_event_def drop_nth_def Let_def)
qed

section \<open>Facts about dialling\<close>

fun connected :: "'c attempt \<Rightarrow> bool" where
  "connected (Connected c) = True"
| "connected _ = False"

definition failed_round :: "nat \<Rightarrow> nat \<Rightarrow> 'c attempt \<Rightarrow> 'c dial_act list" where
  "failed_round retries k r =
     [Tried r, Invalidated] @ (if k < retries then [Slept (200 * (k + 1))] else [])"

text \<open>The rounds before attempt number \<open>k + length os\<close>, all of them failed.\<close>

definition failed_rounds :: "nat \<Rightarrow> nat \<Rightarrow> 'c attempt list \<Rightarrow> 'c dial_act list" where
  "failed_rounds retries k os = concat (map (\<lambda>(i, r). failed_round retries i r) (zip [k ..< k + length os] os))"

lemma failed_rounds_simps [simp]:
  "failed_rounds retries k [] = []"
  "failed_rounds retries k (r # os) = failed_round retries k r @ failed_rounds retries (Suc k) os"
  by (simp_all add: failed_rounds_def upt_conv_Cons del: upt_Suc)

definition dial_ends ::
  "bytes \<Rightarrow> u16 \<Rightarrow> nat \<Rightarrow> 'c attempt list \<Rightarrow> 'c attempt \<Rightarrow> nat \<Rightarrow> (rerror + 'c) \<Rightarrow> dns_entries \<Rightarrow> 'c dial_act list \<Rightarrow> bool"
where
  "dial_ends server port retries os r k res entries acts \<longleftrightarrow>
     (case r of
        Connected c \<Rightarrow> (\<exists>opts. acts = failed_rounds retries k os @ [Tried r] @ opts \<and>
          (res = Inr c \<and> opts = [NodelaySet, KeepaliveSet 15] \<or> (\<exists>e. res = Inl (IO e) \<and> opts \<in> {[], [NodelaySet]})))
      | _ \<Rightarrow> k + length os = retries \<and> acts = failed_rounds retries k (os @ [r]) \<and>
             res = Inl (attempt_error r) \<and> entries (server, port) = None)"

lemma dial_from_ends:
  assumes "dial_from server port retries envs k entries = (res, entries', acts)" and "k \<le> retries"
  shows "\<exists>os r. k + length os \<le> retries \<and> (\<forall>x \<in> set os. \<not> connected x) \<and>
    dial_ends server port retries os r k res entries' acts"
  using assms
proof (induction server port retries envs k entries arbitrary: res entries' acts rule: dial_from.induct)
  case (1 server port retries envs k entries)
  obtain r e1 where a: "dial_attempt server port (envs k) entries = (r, e1)" by fastforce
  note d1 = 1(3) [unfolded dial_from.simps [of server port retries envs k entries] a]
  show ?case
  proof (cases "connected r")
    case True
    then obtain c where r: "r = Connected c" by (cases r) auto
    with d1 1(4) show ?thesis
      by (intro exI [of _ "[]"] exI [of _ r])
        (auto simp: dial_ends_def keepalive_def split: sum.splits)
  next
    case False
    show ?thesis
    proof (cases "k < retries")
      case True
      obtain res2 e2 acts2 where d: "dial_from server port retries envs (Suc k) (invalidate server port e1)
          = (res2, e2, acts2)" using prod_cases3 by blast
      have eq: "res = res2" "entries' = e2" "acts = failed_round retries k r @ acts2"
        using d1 False True d
        by (cases r; auto simp: failed_round_def Let_def)+
      have "\<exists>os r'. Suc k + length os \<le> retries \<and> (\<forall>x \<in> set os. \<not> connected x) \<and>
          dial_ends server port retries os r' (Suc k) res2 e2 acts2"
      proof (cases r)
        case (AttemptFailed x)
        show ?thesis by (rule 1(1-2)) (use a AttemptFailed True d in auto)
      qed (use a True d False 1(1-2) in auto)
      then obtain os r' where o: "Suc k + length os \<le> retries" "\<forall>x \<in> set os. \<not> connected x"
        "dial_ends server port retries os r' (Suc k) res2 e2 acts2" by blast
      then have "dial_ends server port retries (r # os) r' k res entries' acts"
        by (auto simp: dial_ends_def eq split: attempt.splits)
      with o False show ?thesis by (intro exI [of _ "r # os"] exI [of _ r']) auto
    next
      case last: False
      with 1(4) have "k = retries" by simp
      with last d1 False show ?thesis
        by (intro exI [of _ "[]"] exI [of _ r])
          (cases r; auto simp: dial_ends_def failed_round_def invalidate_def Let_def)
    qed
  qed
qed

text \<open>
  C24: Dialling makes at most one more attempt than the retries allow; every failed attempt
  drops the cached addresses and is followed, but for the last, by a pause of 200 ms times its
  number; the first connection ends the loop and gets both socket options, or the error of
  setting them; when all attempts fail the error is that of the last, and the host has no
  entry in the cache.
\<close>

theorem dial_exact:
  assumes "dial server port connect_ms retries envs entries = (res, entries', acts)"
  shows "\<exists>os r. length os \<le> unat retries \<and> (\<forall>x \<in> set os. \<not> connected x) \<and>
    (case r of
       Connected c \<Rightarrow> (\<exists>opts. acts = failed_rounds (unat retries) 0 os @ [Tried r] @ opts \<and>
         (res = Inr c \<and> opts = [NodelaySet, KeepaliveSet 15] \<or> (\<exists>e. res = Inl (IO e) \<and> opts \<in> {[], [NodelaySet]})))
     | _ \<Rightarrow> length os = unat retries \<and> acts = failed_rounds (unat retries) 0 (os @ [r]) \<and>
            res = Inl (attempt_error r) \<and> entries' (server, port) = None)"
  using dial_from_ends [OF assms [unfolded dial_def] le0] unfolding dial_ends_def add_0 .

theorem dial_exact_witness:
  "\<exists>entries'. dial (str ''10.0.0.1'') 443 100 1
     (\<lambda>ms k. \<lparr>de_before = id, de_during = id, de_now = 0, de_lookup = (\<lambda>m. (None, m, 0)),
        de_events = (if k = 0 then [] else [Joined 0 (Conn True)]), de_nodelay = Inr (), de_keepalive = Inr ()\<rparr>)
     Map.empty = (Inr True, entries',
       [Tried AttemptTimeout, Invalidated, Slept 200, Tried (Connected True), NodelaySet, KeepaliveSet 15])"
proof -
  let ?envs = "\<lambda>(ms :: u64) k. \<lparr>de_before = id, de_during = id, de_now = 0, de_lookup = (\<lambda>m. (None, m, 0)),
      de_events = (if k = 0 then [] else [Joined 0 (Conn True)]), de_nodelay = Inr (), de_keepalive = Inr ()\<rparr>
      :: bool dial_env"
  have "parse_ip (str ''10.0.0.1'') = Some (v4_from [10, 0, 0, 1])"
    by (simp add: parse_ip_def read_number_def read_separator_def digit_def groups_numeral Let_def)
  then have a: "dial_attempt (str ''10.0.0.1'') 443 (?envs 100 k) m =
      (if k = 0 then AttemptTimeout else Connected True, m)" for k m
    by (simp add: dial_attempt_def resolve_def interleave_def connect_any_def race_start_def race_top_def
        race_event_def alternate.simps [of "_ # _"] Let_def v4_from_def)
  have d: "dial (str ''10.0.0.1'') 443 100 1 ?envs Map.empty =
      (Inr True, invalidate (str ''10.0.0.1'') 443 Map.empty,
       [Tried AttemptTimeout, Invalidated, Slept 200, Tried (Connected True), NodelaySet, KeepaliveSet 15])"
    unfolding dial_def
    by (subst dial_from.simps, subst (2) dial_from.simps) (simp only: a, simp add: Let_def keepalive_def)
  then show ?thesis using dial_exact [OF d] by blast
qed

end
