(* ===== verification/OutboundModel.thy ===== *)
theory OutboundModel
  imports StackSession RealityConnect NetModel
begin

text \<open>
  \<^verbatim>\<open>src/outbound/mod.rs\<close>: opening an outbound connection, composed of the dialling, the
  Reality handshake, the first payload of the client, the VLESS header and the Vision stream
  of the other theories.
\<close>

section \<open>The code\<close>

definition required_flow :: bytes where "required_flow = str ''xtls-rprx-vision''"

text \<open>Milliseconds.\<close>

definition first_payload_wait :: nat where "first_payload_wait = 500"

text \<open>
  \<^verbatim>\<open>read_first_payload\<close>: what the client's socket gives within the time, \<open>None\<close> for nothing.
  A read fills at most the buffer.
\<close>

definition read_first_payload :: "(nat \<Rightarrow> (io_error + bytes) option) \<Rightarrow> nat \<Rightarrow> rerror + bytes" where
  "read_first_payload client wait =
     (case client wait of
        Some (Inl e) \<Rightarrow> Inl (IO e)
      | Some (Inr d) \<Rightarrow> Inr (take max_frame_content d)
      | None \<Rightarrow> Inr [])"

text \<open>
  The surroundings of \<^verbatim>\<open>open\<close>: the cache and the network for dialling, what the handshake on
  a dialled connection gets from outside, the client's socket, and the random generator.
\<close>

record ('c, 't, 'r) open_env =
  oe_dns :: dns_entries
  oe_dial :: "u64 \<Rightarrow> nat \<Rightarrow> 'c dial_env"
  oe_reality :: "'c \<Rightarrow> 't tls_stream surroundings"
  oe_client :: "nat \<Rightarrow> (io_error + bytes) option"
  oe_rng :: 'r

text \<open>What \<^verbatim>\<open>open\<close> does, in order.\<close>

datatype open_act = Dialled | Handshaken | GatingStarted | PayloadRead bytes | FirstWrite

text \<open>\<open>L\<close> is the TLS library. The result is \<open>None\<close> if the first write never completes.\<close>

definition open_outbound ::
  "'t tls_lib \<Rightarrow> crypto \<Rightarrow> (tls_error \<Rightarrow> bytes) \<Rightarrow> (nat \<Rightarrow> unit + bytes) \<Rightarrow> rustls \<Rightarrow> 'r rng
     \<Rightarrow> ('c, 't, 'r) open_env \<Rightarrow> outbound_cfg \<Rightarrow> timeout_cfg \<Rightarrow> target
     \<Rightarrow> (rerror + ('t tls_stream, 'r) vision_over) option \<times> open_act list" where
  "open_outbound L cr tt fb new_conn rr env out to tg =
     (if vl_flow (out_vless out) \<noteq> required_flow
      then (Some (Inl (Config (str ''only flow \"'' @ required_flow @ str ''\" is supported, got \"''
              @ vl_flow (out_vless out) @ str ''\"''))), [])
      else
        case dial (out_server out) (out_port out) (connect_ms to) (dial_retries to) (oe_dial env) (oe_dns env) of
          (Inl e, _, _) \<Rightarrow> (Some (Inl e), [])
        | (Inr tcp, _, _) \<Rightarrow>
            (case connect cr tt fb new_conn (oe_reality env tcp) (out_reality out) (handshake_ms to) of
               Inl e \<Rightarrow> (Some (Inl e), [Dialled])
             | Inr tls \<Rightarrow>
                 let tls = start_gated tls in
                 (case read_first_payload (oe_client env) first_payload_wait of
                    Inl e \<Rightarrow> (Some (Inl e), [Dialled, Handshaken, GatingStarted])
                  | Inr payload \<Rightarrow>
                      let header = encode_request_header (vl_uuid (out_vless out)) (vl_flow (out_vless out)) tg;
                          vs = vision_client tls (vl_uuid (out_vless out)) (oe_rng env);
                          acts = [Dialled, Handshaken, GatingStarted, PayloadRead payload, FirstWrite]
                      in (case write_first_on (tls_ops L) rr header payload vs of
                            Some (Inr _, vs) \<Rightarrow> (Some (Inr vs), acts)
                          | Some (Inl e, _) \<Rightarrow> (Some (Inl (IO e)), acts)
                          | None \<Rightarrow> (None, acts)))))"

section \<open>Facts\<close>

lemma open_Inr:
  assumes "open_outbound L cr tt fb new_conn rr env out to tg = (Some (Inr vs), acts)"
  obtains tcp dns log tls payload where "vl_flow (out_vless out) = required_flow"
    "dial (out_server out) (out_port out) (connect_ms to) (dial_retries to) (oe_dial env) (oe_dns env)
       = (Inr tcp, dns, log)"
    "connect cr tt fb new_conn (oe_reality env tcp) (out_reality out) (handshake_ms to) = Inr tls"
    "read_first_payload (oe_client env) first_payload_wait = Inr payload"
    "write_first_on (tls_ops L) rr (encode_request_header (vl_uuid (out_vless out)) required_flow tg) payload
       (vision_client (start_gated tls) (vl_uuid (out_vless out)) (oe_rng env)) = Some (Inr (), vs)"
    "acts = [Dialled, Handshaken, GatingStarted, PayloadRead payload, FirstWrite]"
  using assms by (auto simp: open_outbound_def Let_def
      split: if_splits prod.splits sum.splits poll.splits option.splits)

text \<open>A completed flush has left nothing in TLS, so the first write is on the wire.\<close>

lemma flushed_all:
  assumes "flush_all_on S i = Some z"
  shows "S = tls_ops L \<and> fst z = Inr () \<and> tls_laws L V \<longrightarrow> tv_unsent V (ts_conn (snd z)) = []"
proof (induction S i z rule: flush_all_on.raw_induct)
  case 2
  show ?case by (rule assms)
next
  case (1 rec S i z)
  show ?case
  proof
    assume a: "S = tls_ops L \<and> fst z = Inr () \<and> tls_laws L V"
    obtain p j where p: "so_flush S i = (p, j)" by fastforce
    show "tv_unsent V (ts_conn (snd z)) = []"
    proof (cases p)
      case Pending
      with 1(2) p have "rec S j = Some z" by simp
      with 1(1) a show ?thesis by blast
    next
      case (Ready x)
      with 1(2) p have "z = (x, j)" by simp
      with a p Ready have "tl_flush L (ts_conn i) (ts_io i) = (Ready (Inr ()), ts_conn (snd z), ts_io (snd z))"
        by (auto simp: through_tls_iff)
      from write_lawsD(3) [OF _ this] a show ?thesis by blast
    qed
  qed
qed

lemma write_first_flushed:
  assumes "write_first_on (tls_ops L) rr header payload v = Some (Inr (), v')" and "tls_laws L V"
  shows "tv_unsent V (ts_conn (vs_inner v')) = [] \<and> vs_uplink_raw v' = vs_uplink_raw v \<and>
    vs_write_pending v' = vs_write_pending v"
proof -
  obtain frame p ts g where fr: "first_frame rr payload v = (frame, p, ts, g)" by (metis prod_cases4)
  from assms(1) obtain i j where "flush_all_on (tls_ops L) i = Some (Inr (), j)"
    "v' = v\<lparr>vs_padder := p, vs_traffic := ts, vs_rng := g, vs_inner := j\<rparr>"
    by (auto simp: write_first_on_eq [OF fr] split: option.splits sum.splits)
  with flushed_all [OF this(1), of L V] assms(2) show ?thesis by simp
qed

text \<open>What the server decrypts from the socket after the first write.\<close>

lemma first_write_decodes:
  assumes "write_first_on (tls_ops L) rr (encode_request_header uuid required_flow tg) payload
      (vision_client (start_gated s) uuid r) = Some (Inr (), vs)"
    and "tls_laws L V" and "fresh_stream V s" and "length uuid = 16" and "target_ok tg"
  shows "\<exists>frames u. decode_request (tv_peer V (wh_sent (gs_out (ts_io (vs_inner vs)))))
      = Some (uuid, required_flow, tg, frames) \<and>
    unpad unpadder_new frames [] = (Inr (), u, [], payload)"
proof -
  note f = write_first_flushed [OF assms(1,2)]
  have "session_on (tls_ops L) rr (vs, payload, [], True) [] = Some (vs, payload, [], True)" by simp
  from uplink_on_wire [OF assms(2,3,4,1) this] f obtain frames u where
    "tv_peer V (wh_sent (gs_out (ts_io (vs_inner vs)))) = encode_request_header uuid required_flow tg @ frames"
    "unpad unpadder_new frames [] = (Inr (), u, [], payload)"
    by (auto simp: Let_def vision_client_def vision_new_def)
  moreover have "length required_flow < 128" by (simp add: required_flow_def)
  ultimately show ?thesis using assms(4,5) by (auto simp: decode_encode_request)
qed

section \<open>Properties\<close>

text \<open>
  C11: An opened connection has said what it is for: \<^verbatim>\<open>open\<close> succeeds only after dialling, handshake,
  start of the gating, reading the first payload and the first write, in this order, and then
  the server decrypts from the bytes on the wire the VLESS request with the configured user and
  the target asked for, followed by frames that deframe to the first payload.
\<close>

theorem open_reaches_server:
  assumes "open_outbound L cr tt fb new_conn rr env out to tg = (Some (Inr vs), acts)"
    and "tls_laws L V" and "length (vl_uuid (out_vless out)) = 16" and "target_ok tg"
    and "\<And>tcp tls. connect cr tt fb new_conn (oe_reality env tcp) (out_reality out) (handshake_ms to) = Inr tls
           \<Longrightarrow> fresh_stream V tls"
  shows "\<exists>payload frames u.
    acts = [Dialled, Handshaken, GatingStarted, PayloadRead payload, FirstWrite] \<and>
    decode_request (tv_peer V (wh_sent (gs_out (ts_io (vs_inner vs)))))
      = Some (vl_uuid (out_vless out), required_flow, tg, frames) \<and>
    unpad unpadder_new frames [] = (Inr (), u, [], payload) \<and> length payload \<le> max_frame_content"
proof (rule open_Inr [OF assms(1)])
  fix tcp tls payload
  assume o: "connect cr tt fb new_conn (oe_reality env tcp) (out_reality out) (handshake_ms to) = Inr tls"
    "read_first_payload (oe_client env) first_payload_wait = Inr payload"
    "write_first_on (tls_ops L) rr (encode_request_header (vl_uuid (out_vless out)) required_flow tg) payload
       (vision_client (start_gated tls) (vl_uuid (out_vless out)) (oe_rng env)) = Some (Inr (), vs)"
    "acts = [Dialled, Handshaken, GatingStarted, PayloadRead payload, FirstWrite]"
  have "length payload \<le> max_frame_content"
    using o(2) by (auto simp: read_first_payload_def split: option.splits sum.splits)
  with first_write_decodes [OF o(3) assms(2) assms(5) [OF o(1)] assms(3,4)] o(4) show ?thesis by blast
qed

definition sample_env :: "(bool, clear_state, unit) open_env" where
  "sample_env =
     \<lparr>oe_dns = Map.empty,
      oe_dial = (\<lambda>m k. \<lparr>de_before = id, de_during = id, de_now = 0, de_lookup = (\<lambda>m. (None, m, 0)),
        de_events = [Joined 0 (Conn True)], de_nodelay = Inr (), de_keepalive = Inr ()\<rparr>),
      oe_reality = (\<lambda>_. \<lparr>su_sni = Some, su_seed = [], su_kx_secret = replicate 32 2, su_now = Some 5,
        su_mlkem = Inr sample_mlkem, su_handshake = (\<lambda>v m fut. Some (Inr stack_start))\<rparr>),
      oe_client = (\<lambda>wait. Some (Inr [5])), oe_rng = ()\<rparr>"

definition sample_outbound :: outbound_cfg where
  "sample_outbound = \<lparr>out_server = str ''10.0.0.1'', out_port = 443,
     out_vless = \<lparr>vl_uuid = sample_uuid, vl_flow = required_flow\<rparr>, out_reality = sample_reality\<rparr>"

definition sample_timeout :: timeout_cfg where
  "sample_timeout = \<lparr>connect_ms = 1, handshake_ms = 1, dial_retries = 0, idle_ms = 1, half_close_ms = 1\<rparr>"

lemma sample_dial:
  "dial (str ''10.0.0.1'') 443 1 0 (oe_dial sample_env) Map.empty
     = (Inr True, Map.empty, [Tried (Connected True), NodelaySet, KeepaliveSet 15])"
proof -
  have p: "parse_ip (str ''10.0.0.1'') = Some (v4_from [10, 0, 0, 1])"
    by (simp add: parse_ip_def read_number_def read_separator_def digit_def groups_numeral Let_def)
  show ?thesis
    unfolding dial_def
    by (subst dial_from.simps) (simp add: dial_attempt_def resolve_def p [simplified] interleave_def
        connect_any_def race_start_def race_top_def race_event_def drop_nth_def alternate.simps [of "_ # _"]
        sample_env_def keepalive_def v4_from_def Let_def)
qed

lemma sample_connect:
  "connect sum_crypto (\<lambda>_. []) (\<lambda>_. Inl ()) sample_rustls (oe_reality sample_env tcp) sample_reality 1
     = Inr stack_start"
proof -
  have "pr_call_count sample_prepared = 2" "pr_session_id_call sample_prepared = 1"
    by (simp_all add: sample_prepared_def)
  then show ?thesis
    using sample_second_pass [of "\<lambda>_. Inl ()" "server_name sample_reality"]
    by (auto simp: connect_def new_mlkem_def sample_prepare sample_env_def)
qed

definition sample_open :: "((io_error + unit) \<times> (clear_state tls_stream, unit) vision_over) option" where
  "sample_open = write_first_on (tls_ops clear_tls) sample_rng
     (encode_request_header sample_uuid required_flow \<lparr>tg_addr = Domain [97], tg_port = 80\<rparr>) [5]
     (vision_client (start_gated stack_start) sample_uuid ())"

lemma sample_open_ok: "map_option fst sample_open = Some (Inr ())"
  by code_simp

lemma sample_opened:
  obtains vs where "sample_open = Some (Inr (), vs)"
    "open_outbound clear_tls sum_crypto (\<lambda>_. []) (\<lambda>_. Inl ()) sample_rustls sample_rng sample_env
       sample_outbound sample_timeout \<lparr>tg_addr = Domain [97], tg_port = 80\<rparr>
     = (Some (Inr vs), [Dialled, Handshaken, GatingStarted, PayloadRead [5], FirstWrite])"
proof -
  obtain vs where vs: "sample_open = Some (Inr (), vs)" using sample_open_ok by auto
  have cfg: "out_server sample_outbound = str ''10.0.0.1''" "out_port sample_outbound = 443"
    "connect_ms sample_timeout = 1" "dial_retries sample_timeout = 0" "handshake_ms sample_timeout = 1"
    "out_reality sample_outbound = sample_reality"
    "out_vless sample_outbound = \<lparr>vl_uuid = sample_uuid, vl_flow = required_flow\<rparr>"
    by (simp_all add: sample_outbound_def sample_timeout_def)
  have env: "oe_dns sample_env = Map.empty" "oe_rng sample_env = ()"
    "read_first_payload (oe_client sample_env) t = Inr [5]" for t
    by (simp_all add: sample_env_def read_first_payload_def max_frame_content_def buf_size_def
        header_len_def uuid_len_def)
  have "open_outbound clear_tls sum_crypto (\<lambda>_. []) (\<lambda>_. Inl ()) sample_rustls sample_rng sample_env
      sample_outbound sample_timeout \<lparr>tg_addr = Domain [97], tg_port = 80\<rparr>
      = (Some (Inr vs), [Dialled, Handshaken, GatingStarted, PayloadRead [5], FirstWrite])"
    unfolding open_outbound_def cfg env sample_dial vless_cfg.simps
    by (simp only: sample_connect vs [unfolded sample_open_def] Let_def sum.case prod.case option.case
        not_True_eq_False if_False HOL.simp_thms)
  with vs show thesis by (rule that)
qed

theorem open_reaches_server_witness:
  "\<exists>vs frames. sample_open = Some (Inr (), vs) \<and>
    decode_request (wh_sent (gs_out (ts_io (vs_inner vs))))
      = Some (sample_uuid, required_flow, \<lparr>tg_addr = Domain [97], tg_port = 80\<rparr>, frames)"
proof (rule sample_opened)
  fix vs
  assume o: "sample_open = Some (Inr (), vs)"
    "open_outbound clear_tls sum_crypto (\<lambda>_. []) (\<lambda>_. Inl ()) sample_rustls sample_rng sample_env
       sample_outbound sample_timeout \<lparr>tg_addr = Domain [97], tg_port = 80\<rparr>
     = (Some (Inr vs), [Dialled, Handshaken, GatingStarted, PayloadRead [5], FirstWrite])"
  have s: "length (vl_uuid (out_vless sample_outbound)) = 16" "target_ok \<lparr>tg_addr = Domain [97], tg_port = 80\<rparr>"
    by (simp_all add: sample_outbound_def sample_uuid_def target_ok_def utf8_valid_ascii)
  have fresh: "connect sum_crypto (\<lambda>_. []) (\<lambda>_. Inl ()) sample_rustls (oe_reality sample_env tcp)
      (out_reality sample_outbound) (handshake_ms sample_timeout) = Inr tls \<Longrightarrow> fresh_stream clear_view tls" for tcp tls
    using stack_fresh by (simp add: sample_outbound_def sample_timeout_def sample_connect)
  have "\<exists>payload frames u.
    [Dialled, Handshaken, GatingStarted, PayloadRead [5], FirstWrite]
      = [Dialled, Handshaken, GatingStarted, PayloadRead payload, FirstWrite] \<and>
    decode_request (tv_peer clear_view (wh_sent (gs_out (ts_io (vs_inner vs)))))
      = Some (vl_uuid (out_vless sample_outbound), required_flow, \<lparr>tg_addr = Domain [97], tg_port = 80\<rparr>, frames) \<and>
    unpad unpadder_new frames [] = (Inr (), u, [], payload) \<and> length payload \<le> max_frame_content"
    by (rule open_reaches_server [OF o(2) clear_laws s]) (rule fresh)
  with o(1) show ?thesis by (auto simp: clear_view_def sample_outbound_def)
qed

end
