(* ===== verification/Socks5.thy ===== *)
theory Socks5
  imports RErrors Utf8 Address "HOL-Library.Sublist"
begin

text \<open>
  The SOCKS5 inbound of \<^verbatim>\<open>src/inbound/socks5.rs\<close>: the handshake (no-auth negotiation and
  the CONNECT request) and the reply, over a connection used with \<^verbatim>\<open>read_exact\<close> and
  \<^verbatim>\<open>write_all\<close>. Each \<^verbatim>\<open>?\<close> of the source is a branch that returns its error.
\<close>

section \<open>The code\<close>

definition read_address :: "u8 \<Rightarrow> conn \<Rightarrow> (rerror + address) \<times> conn" where
  "read_address atyp c =
     (if atyp = 1 then
        (case read_exact 4 c of
           (Inl e, c) \<Rightarrow> (Inl (IO e), c)
         | (Inr b, c) \<Rightarrow> (Inr (Ip (v4_from b)), c))
      else if atyp = 4 then
        (case read_exact 16 c of
           (Inl e, c) \<Rightarrow> (Inl (IO e), c)
         | (Inr b, c) \<Rightarrow> (Inr (Ip (v6_from b)), c))
      else if atyp = 3 then
        (case read_exact 1 c of
           (Inl e, c) \<Rightarrow> (Inl (IO e), c)
         | (Inr l, c) \<Rightarrow>
             (case read_exact (unat (l ! 0)) c of
                (Inl e, c) \<Rightarrow> (Inl (IO e), c)
              | (Inr d, c) \<Rightarrow>
                  if utf8_valid d then (Inr (Domain d), c)
                  else (Inl (Socks5 (str ''bad domain'')), c)))
      else (Inl (Socks5 (str ''bad ATYP'')), c))"

definition read_request :: "conn \<Rightarrow> (rerror + target) \<times> conn" where
  "read_request c =
     (case read_exact 4 c of
        (Inl e, c) \<Rightarrow> (Inl (IO e), c)
      | (Inr req, c) \<Rightarrow>
          if req ! 0 \<noteq> 5 then (Inl (Socks5 (str ''bad request version'')), c)
          else if req ! 1 \<noteq> 1 then (Inl (Socks5 (str ''only CONNECT supported'')), c)
          else (case read_address (req ! 3) c of
            (Inl e, c) \<Rightarrow> (Inl e, c)
          | (Inr a, c) \<Rightarrow>
              (case read_exact 2 c of
                 (Inl e, c) \<Rightarrow> (Inl (IO e), c)
               | (Inr p, c) \<Rightarrow> (Inr \<lparr>tg_addr = a, tg_port = be_u16 (p ! 0) (p ! 1)\<rparr>, c))))"

definition handshake :: "conn \<Rightarrow> (rerror + target) \<times> conn" where
  "handshake c =
     (case read_exact 2 c of
        (Inl e, c) \<Rightarrow> (Inl (IO e), c)
      | (Inr head, c) \<Rightarrow>
          if head ! 0 \<noteq> 5 then (Inl (Socks5 (str ''unsupported version'')), c)
          else (case read_exact (unat (head ! 1)) c of
            (Inl e, c) \<Rightarrow> (Inl (IO e), c)
          | (Inr methods, c) \<Rightarrow>
              if 0 \<notin> set methods then
                (case write_all [5, 255] c of
                   (Inl e, c) \<Rightarrow> (Inl (IO e), c)
                 | (Inr _, c) \<Rightarrow> (Inl (Socks5 (str ''no acceptable auth method'')), c))
              else
                (case write_all [5, 0] c of
                   (Inl e, c) \<Rightarrow> (Inl (IO e), c)
                 | (Inr _, c) \<Rightarrow> read_request c)))"

definition reply :: "bool \<Rightarrow> conn \<Rightarrow> (rerror + unit) \<times> conn" where
  "reply ok c =
     (case write_all [5, if ok then 0 else 1, 0, 1, 0, 0, 0, 0, 0, 0] c of
        (Inl e, c) \<Rightarrow> (Inl (IO e), c)
      | (Inr _, c) \<Rightarrow> (Inr (), c))"

section \<open>The client's side\<close>

text \<open>What a client sends (RFC 1928): a greeting with its methods, a CONNECT request.\<close>

definition greeting :: "bytes \<Rightarrow> bytes" where
  "greeting methods = 5 # of_nat (length methods) # methods"

fun encode_address :: "address \<Rightarrow> bytes" where
  "encode_address (Ip (V4 w)) = 1 # octets (V4 w)"
| "encode_address (Ip (V6 w)) = 4 # octets (V6 w)"
| "encode_address (Domain d) = 3 # of_nat (length d) # d"

definition request :: "u8 \<Rightarrow> target \<Rightarrow> bytes" where
  "request rsv t = [5, 1, rsv] @ encode_address (tg_addr t) @ u16_be (tg_port t)"

section \<open>Facts\<close>

definition address_ok :: "address \<Rightarrow> bool" where
  "address_ok a \<longleftrightarrow> (case a of Domain d \<Rightarrow> length d < 256 \<and> utf8_valid d | Ip _ \<Rightarrow> True)"

lemma target_ok_address: "target_ok t = address_ok (tg_addr t)"
  by (simp add: target_ok_def address_ok_def)

text \<open>Nothing but the input changes while reading.\<close>

lemma encode_v4_from: "length bs = 4 \<Longrightarrow> encode_address (Ip (v4_from bs)) = 1 # bs"
  using octets_v4_from [of bs] by (simp add: v4_from_def)

lemma encode_v6_from: "length bs = 16 \<Longrightarrow> encode_address (Ip (v6_from bs)) = 4 # bs"
  using octets_v6_from [of bs] by (simp add: v6_from_def)

lemma read_address_sound:
  assumes "read_address atyp c = (Inr a, c')"
  shows "\<exists>r. atyp # c_in c = encode_address a @ r \<and> address_ok a \<and> c' = c\<lparr>c_in := r\<rparr>"
proof -
  consider "atyp = 1" | "atyp = 4" | "atyp = 3"
    using assms by (auto simp: read_address_def split: if_splits)
  then show ?thesis
  proof cases
    case 1
    with assms show ?thesis
      by (auto simp: read_address_def conn_ops address_ok_def encode_v4_from
          split: sum.splits prod.splits)
  next
    case 2
    with assms show ?thesis
      by (auto simp: read_address_def conn_ops address_ok_def encode_v6_from
          split: sum.splits prod.splits)
  next
    case 3
    with assms obtain l d r where "c_in c = [l] @ d @ r" "length d = unat l" "utf8_valid d"
      "a = Domain d" "c' = c\<lparr>c_in := r\<rparr>"
      by (auto simp: read_address_def conn_ops length_1_iff split: sum.splits prod.splits if_splits)
    with 3 show ?thesis using unat_u8_bound [of l] by (simp add: address_ok_def)
  qed
qed

lemma read_address_complete:
  assumes "address_ok a" and "atyp # c_in c = encode_address a @ r"
  shows "read_address atyp c = (Inr a, c\<lparr>c_in := r\<rparr>)"
proof (cases a rule: encode_address.cases)
  case (1 w)
  have "read_exact 4 c = (Inr (octets (V4 w)), c\<lparr>c_in := r\<rparr>)"
    using assms(2) 1 by (simp add: conn_ops)
  with assms(2) 1 show ?thesis by (simp add: read_address_def)
next
  case (2 w)
  have "read_exact 16 c = (Inr (octets (V6 w)), c\<lparr>c_in := r\<rparr>)"
    using assms(2) 2 by (simp add: conn_ops)
  with assms(2) 2 show ?thesis by (simp add: read_address_def)
next
  case (3 d)
  have "read_exact 1 c = (Inr [of_nat (length d)], c\<lparr>c_in := d @ r\<rparr>)"
    "read_exact (length d) (c\<lparr>c_in := d @ r\<rparr>) = (Inr d, c\<lparr>c_in := r\<rparr>)"
    using assms(2) 3 by (simp_all add: conn_ops)
  with assms 3 show ?thesis by (simp add: read_address_def address_ok_def)
qed

lemma read_request_iff:
  "read_request c = (Inr t, c') \<longleftrightarrow>
     (\<exists>rsv r. c_in c = request rsv t @ r \<and> target_ok t \<and> c' = c\<lparr>c_in := r\<rparr>)"
    (is "?l \<longleftrightarrow> ?r")
proof
  assume ?l
  then obtain req c1 a c2 p where 1: "read_exact 4 c = (Inr req, c1)" "req ! 0 = 5" "req ! 1 = 1"
    and 2: "read_address (req ! 3) c1 = (Inr a, c2)" and 3: "read_exact 2 c2 = (Inr p, c')"
    and t: "t = \<lparr>tg_addr = a, tg_port = be_u16 (p ! 0) (p ! 1)\<rparr>"
    by (auto simp: read_request_def split: sum.splits prod.splits if_splits)
  from 1 obtain rsv at r1 where "req = [5, 1, rsv, at]" "c_in c = req @ r1" "c1 = c\<lparr>c_in := r1\<rparr>"
    by (auto simp: conn_ops length_4_iff)
  moreover from this 2 obtain r2 where "at # r1 = encode_address a @ r2" "address_ok a"
    "c2 = c\<lparr>c_in := r2\<rparr>"
    by (auto dest!: read_address_sound)
  moreover from this 3 obtain x y r where "p = [x, y]" "r2 = p @ r" "c' = c\<lparr>c_in := r\<rparr>"
    by (auto simp: conn_ops length_2_iff)
  ultimately show ?r
    by (auto simp: t request_def target_ok_address intro!: exI [of _ rsv])
next
  assume ?r
  then obtain rsv r where c: "c_in c = request rsv t @ r" and ok: "address_ok (tg_addr t)"
    and c': "c' = c\<lparr>c_in := r\<rparr>"
    by (auto simp: target_ok_address)
  obtain at tail where enc: "encode_address (tg_addr t) = at # tail"
    by (cases "tg_addr t" rule: encode_address.cases) auto
  let ?c1 = "c\<lparr>c_in := tail @ u16_be (tg_port t) @ r\<rparr>"
  have "read_exact 4 c = (Inr [5, 1, rsv, at], ?c1)"
    using c enc by (simp add: conn_ops request_def)
  moreover have "read_address at ?c1 = (Inr (tg_addr t), c\<lparr>c_in := u16_be (tg_port t) @ r\<rparr>)"
    using read_address_complete [OF ok, of at ?c1 "u16_be (tg_port t) @ r"] enc by simp
  moreover have "read_exact 2 (c\<lparr>c_in := u16_be (tg_port t) @ r\<rparr>) = (Inr (u16_be (tg_port t)), c')"
    using c' by (simp add: conn_ops)
  ultimately show ?l
    by (simp add: read_request_def u16_be_def)
qed

lemma read_request_frame: "c_out (snd (read_request c)) = c_out c"
  by (auto simp: read_request_def read_address_def read_exact_def
      split: sum.splits prod.splits if_splits)

lemma greeting_read:
  assumes "read_exact 2 c = (Inr h, c1)" and "h ! 0 = 5" and "read_exact (unat (h ! 1)) c1 = (Inr ms, c2)"
  shows "\<exists>r. c_in c = greeting ms @ r \<and> length ms < 256 \<and> c2 = c\<lparr>c_in := r\<rparr>"
proof -
  from assms(1) obtain v n r1 where "h = [v, n]" "c_in c = h @ r1" "c1 = c\<lparr>c_in := r1\<rparr>"
    by (auto simp: conn_ops length_2_iff)
  moreover from this assms(3) obtain r where "length ms = unat n" "r1 = ms @ r" "c2 = c\<lparr>c_in := r\<rparr>"
    by (auto simp: conn_ops)
  ultimately show ?thesis
    using assms(2) unat_u8_bound [of n] by (auto simp: greeting_def)
qed

section \<open>Properties\<close>

lemma handshake_iff:
  assumes "c_wres c = []"
  shows "handshake c = (Inr t, c') \<longleftrightarrow>
    (\<exists>methods rsv rest. c_in c = greeting methods @ request rsv t @ rest
       \<and> length methods < 256 \<and> 0 \<in> set methods \<and> target_ok t
       \<and> c' = c\<lparr>c_in := rest, c_out := c_out c @ [5, 0]\<rparr>)"
    (is "?l \<longleftrightarrow> ?r")
proof
  assume ?l
  then obtain h c1 ms c2 c3 where 1: "read_exact 2 c = (Inr h, c1)" "h ! 0 = 5"
    and 2: "read_exact (unat (h ! 1)) c1 = (Inr ms, c2)" "0 \<in> set ms"
    and 3: "write_all [5, 0] c2 = (Inr (), c3)" "read_request c3 = (Inr t, c')"
    by (auto simp: handshake_def split: sum.splits prod.splits if_splits)
  from greeting_read [OF 1 2(1)] obtain r where
    "c_in c = greeting ms @ r" "length ms < 256" "c2 = c\<lparr>c_in := r\<rparr>" by blast
  moreover from this 3 assms obtain rsv rest where "r = request rsv t @ rest" "target_ok t"
    "c' = c\<lparr>c_in := rest, c_out := c_out c @ [5, 0]\<rparr>"
    by (cases c) (auto simp: conn_ops read_request_iff)
  ultimately show ?r using 2(2) by blast
next
  assume ?r
  then obtain ms rsv rest where c: "c_in c = greeting ms @ request rsv t @ rest"
    and ms: "length ms < 256" "0 \<in> set ms" and t: "target_ok t"
    and c': "c' = c\<lparr>c_in := rest, c_out := c_out c @ [5, 0]\<rparr>"
    by blast
  let ?c1 = "c\<lparr>c_in := ms @ request rsv t @ rest\<rparr>"
  let ?c2 = "c\<lparr>c_in := request rsv t @ rest\<rparr>"
  have "read_exact 2 c = (Inr [5, of_nat (length ms)], ?c1)"
    using c by (simp add: conn_ops greeting_def)
  moreover have "read_exact (length ms) ?c1 = (Inr ms, ?c2)"
    by (simp add: conn_ops)
  moreover have "write_all [5, 0] ?c2 = (Inr (), ?c2\<lparr>c_out := c_out c @ [5, 0]\<rparr>)"
    using assms by (simp add: write_all_def)
  moreover have "read_request (?c2\<lparr>c_out := c_out c @ [5, 0]\<rparr>) = (Inr t, c')"
    using t c' by (cases c) (auto simp: read_request_iff)
  ultimately show ?l
    using ms by (simp add: handshake_def)
qed

text \<open>
  C18: The handshake is a parser for exactly the RFC 1928 exchange. With a writable client
  it returns a target if and only if the input is a greeting that offers method 0 followed
  by the CONNECT request of that target (with any reserved byte); it then has written the
  two bytes 5, 0 and left everything behind the request, such as payload the client sent
  ahead, unread.
\<close>

theorem handshake_exact:
  assumes "c_wres c = []"
  shows "handshake c = (Inr t, c') \<longleftrightarrow>
    (\<exists>methods rsv rest. c_in c = greeting methods @ request rsv t @ rest
       \<and> length methods < 256 \<and> 0 \<in> set methods \<and> target_ok t
       \<and> c' = c\<lparr>c_in := rest, c_out := c_out c @ [5, 0]\<rparr>)"
  by (rule handshake_iff [OF assms])

theorem handshake_exact_witness:
  "handshake \<lparr>c_in = [5, 1, 0, 5, 1, 0, 1, 10, 0, 0, 1, 0, 80, 71],
      c_end = IoError UnexpectedEof [], c_out = [], c_wres = []\<rparr> =
    (Inr \<lparr>tg_addr = Ip (V4 167772161), tg_port = 80\<rparr>,
     \<lparr>c_in = [71], c_end = IoError UnexpectedEof [], c_out = [5, 0], c_wres = []\<rparr>)"
    (is "handshake ?c = (Inr ?t, ?c')")
proof -
  have w: "c_wres ?c = []" by simp
  have "to_be 4 167772161 = [10, 0, 0, 1]" by (simp add: byte_simps)
  then have "c_in ?c = greeting [0] @ request 0 ?t @ [71]"
    by (simp add: greeting_def request_def u16_be_def)
  moreover have "target_ok ?t" by (simp add: target_ok_def)
  ultimately have "\<exists>methods rsv rest. c_in ?c = greeting methods @ request rsv ?t @ rest
       \<and> length methods < 256 \<and> 0 \<in> set methods \<and> target_ok ?t
       \<and> ?c' = ?c\<lparr>c_in := rest, c_out := c_out ?c @ [5, 0]\<rparr>"
    by (intro exI [of _ "[0]"] exI [of _ 0] exI [of _ "[71]"]) simp
  then show ?thesis by (rule iffD2 [OF handshake_exact [OF w]])
qed

text \<open>
  Whatever the client sends and whenever its connection fails, the bytes the handshake
  writes are a prefix of one of the two method replies; the refusal 5, 255 is written only
  in a handshake that then fails.
\<close>

theorem handshake_output:
  "\<exists>out. c_out (snd (handshake c)) = c_out c @ out \<and>
     (prefix out [5, 0] \<or> prefix out [5, 255] \<and> (\<exists>e. fst (handshake c) = Inl e))"
proof -
  have w: "\<exists>out. c_out (snd (write_all bs d)) = c_out d @ out \<and> prefix out bs" for bs d
    by (auto simp: write_all_def take_is_prefix split: list.splits option.splits)
  have r: "c_out (snd (read_exact n d)) = c_out d" for n d
    by (simp add: read_exact_def)
  obtain h c1 where 1: "read_exact 2 c = (h, c1)" by fastforce
  have c1: "c_out c1 = c_out c" using r [of 2 c] 1 by simp
  show ?thesis
  proof (cases h)
    case (Inr h)
    obtain ms c2 where 2: "read_exact (unat (h ! 1)) c1 = (ms, c2)" by fastforce
    have c2: "c_out c2 = c_out c" using r [of "unat (h ! 1)" c1] 2 c1 by simp
    obtain w0 c3 where 3: "write_all [5, 0] c2 = (w0, c3)" by fastforce
    obtain w1 c4 where 4: "write_all [5, 255] c2 = (w1, c4)" by fastforce
    obtain o0 where o0: "c_out c3 = c_out c @ o0" "prefix o0 [5, 0]"
      using w [of "[5, 0]" c2] 3 c2 by auto
    obtain o1 where o1: "c_out c4 = c_out c @ o1" "prefix o1 [5, 255]"
      using w [of "[5, 255]" c2] 4 c2 by auto
    show ?thesis
    proof (cases "h ! 0 = 5 \<and> (\<exists>m. ms = Inr m)")
      case True
      then obtain m where m: "h ! 0 = 5" "ms = Inr m" by blast
      show ?thesis
      proof (cases "0 \<in> set m")
        case True
        with 1 2 3 Inr m o0 show ?thesis
          by (cases w0) (simp_all add: handshake_def read_request_frame)
      next
        case False
        with 1 2 4 Inr m o1 show ?thesis
          by (cases w1) (auto simp: handshake_def)
      qed
    qed (use 1 2 Inr c1 c2 in \<open>auto simp: handshake_def split: sum.splits\<close>)
  qed (use c1 1 in \<open>simp add: handshake_def\<close>)
qed

end
