(* ===== verification/RelayModel.thy ===== *)
theory RelayModel
  imports RErrors "HOL-Library.Sublist"
begin

text \<open>
  The two-way relay of \<^verbatim>\<open>src/relay.rs\<close>: one pump per direction, the activity record they
  share, and the watchdog. The task is woken by events: an I/O call of a pump completes, the
  watchdog's timer fires, or its notification is delivered. Times are nanoseconds since the
  relay started; the activity record keeps whole milliseconds in 64 bits, as the code does.
\<close>

section \<open>Activity\<close>

definition relay_buf :: nat where "relay_buf = 64 * 1024"

record timeouts =
  tm_idle :: nat
  tm_half_close :: nat

text \<open>\<open>ac_permit\<close>: a notification is waiting.\<close>

record activity =
  ac_last_ms :: u64
  ac_half_closed :: bool
  ac_permit :: bool

definition ms :: nat where "ms = 10 ^ 6"

definition activity_new :: activity where
  "activity_new = \<lparr>ac_last_ms = 0, ac_half_closed = False, ac_permit = False\<rparr>"

definition touch :: "nat \<Rightarrow> activity \<Rightarrow> activity" where
  "touch now a = a\<lparr>ac_last_ms := of_nat (now div ms)\<rparr>"

definition half_close :: "nat \<Rightarrow> activity \<Rightarrow> activity" where
  "half_close now a = (touch now (a\<lparr>ac_half_closed := True\<rparr>))\<lparr>ac_permit := True\<rparr>"

definition deadline :: "timeouts \<Rightarrow> activity \<Rightarrow> nat" where
  "deadline t a = unat (ac_last_ms a) * ms + (if ac_half_closed a then tm_half_close t else tm_idle t)"

section \<open>The pumps\<close>

text \<open>
  What a pump is waiting for: its read, the \<^verbatim>\<open>write_all\<close> of the bytes still to be written,
  the flush, the shutdown; or it has returned.
\<close>

datatype pump = Reading | Writing bytes | Flushing | Closing | Returned

datatype io_event =
    Got "io_error + bytes"
  | Took "io_error + nat"
  | Flushed "io_error + unit"
  | Shut "io_error + unit"

text \<open>
  A completed call and what the pump does until its next call. A read fills at most the
  buffer; \<^verbatim>\<open>write_all\<close> goes on until all is written. An event the pump does not wait for
  does not occur and leaves it as it is. An error ends the pump.
\<close>

fun pump_step :: "nat \<Rightarrow> io_event \<Rightarrow> pump \<Rightarrow> activity \<Rightarrow> (io_error + pump) \<times> activity" where
  "pump_step now (Got (Inl e)) Reading a = (Inl e, a)"
| "pump_step now (Got (Inr d)) Reading a =
     (if d = [] then (Inr Closing, half_close now a)
      else (Inr (Writing (take relay_buf d)), touch now a))"
| "pump_step now (Took (Inl e)) (Writing d) a = (Inl e, a)"
| "pump_step now (Took (Inr n)) (Writing d) a =
     (if n = 0 then (Inl (IoError WriteZero (str ''write zero'')), a)
      else (Inr (if drop n d = [] then Flushing else Writing (drop n d)), a))"
| "pump_step now (Flushed (Inl e)) Flushing a = (Inl e, a)"
| "pump_step now (Flushed (Inr _)) Flushing a = (Inr Reading, a)"
| "pump_step now (Shut (Inl e)) Closing a = (Inl e, a)"
| "pump_step now (Shut (Inr _)) Closing a = (Inr Returned, a)"
| "pump_step now _ p a = (Inr p, a)"

text \<open>What such a call read, and what it wrote.\<close>

fun io_read :: "io_event \<Rightarrow> pump \<Rightarrow> bytes" where
  "io_read (Got (Inr d)) Reading = take relay_buf d"
| "io_read _ _ = []"

fun io_written :: "io_event \<Rightarrow> pump \<Rightarrow> bytes" where
  "io_written (Took (Inr n)) (Writing d) = take n d"
| "io_written _ _ = []"

fun io_active :: "io_event \<Rightarrow> pump \<Rightarrow> bool" where
  "io_active (Got (Inr d)) Reading = True"
| "io_active _ _ = False"

section \<open>The relay\<close>

datatype dir = Up | Down

datatype relay_event = Io dir io_event | TimerFired | Notified

text \<open>
  Besides the state of the code: the clock, the bytes read and written in each direction, the
  time of the last read, and whether the watchdog ended the relay.
\<close>

record relay =
  rl_pump :: "dir \<Rightarrow> pump"
  rl_activity :: activity
  rl_sleep :: nat
  rl_result :: "(rerror + unit) option"
  rl_now :: nat
  rl_read :: "dir \<Rightarrow> bytes"
  rl_written :: "dir \<Rightarrow> bytes"
  rl_last :: nat
  rl_timed_out :: bool

text \<open>One round of the watchdog: return, or sleep until the deadline.\<close>

definition watchdog :: "timeouts \<Rightarrow> relay \<Rightarrow> relay" where
  "watchdog t r =
     (let d = deadline t (rl_activity r) in
      if d \<le> rl_now r then r\<lparr>rl_result := Some (Inr ()), rl_timed_out := True\<rparr>
      else r\<lparr>rl_sleep := d\<rparr>)"

definition relay_start :: "timeouts \<Rightarrow> relay" where
  "relay_start t =
     watchdog t \<lparr>rl_pump = (\<lambda>_. Reading), rl_activity = activity_new, rl_sleep = 0, rl_result = None,
       rl_now = 0, rl_read = (\<lambda>_. []), rl_written = (\<lambda>_. []), rl_last = 0, rl_timed_out = False\<rparr>"

definition relay_io :: "dir \<Rightarrow> io_event \<Rightarrow> relay \<Rightarrow> relay" where
  "relay_io d ev r =
     (let p = rl_pump r d;
          (res, a) = pump_step (rl_now r) ev p (rl_activity r);
          r = r\<lparr>rl_activity := a,
                rl_read := (rl_read r)(d := rl_read r d @ io_read ev p),
                rl_written := (rl_written r)(d := rl_written r d @ io_written ev p),
                rl_last := if io_active ev p then rl_now r else rl_last r\<rparr>
      in case res of
           Inl e \<Rightarrow> r\<lparr>rl_result := Some (Inl (IO e))\<rparr>
         | Inr p \<Rightarrow>
             let r = r\<lparr>rl_pump := (rl_pump r)(d := p)\<rparr> in
             if rl_pump r Up = Returned \<and> rl_pump r Down = Returned
             then r\<lparr>rl_result := Some (Inr ())\<rparr> else r)"

text \<open>An event at a time; the clock never goes back, and nothing happens after the end.\<close>

definition relay_step :: "timeouts \<Rightarrow> relay \<Rightarrow> nat \<times> relay_event \<Rightarrow> relay" where
  "relay_step t r e =
     (if rl_result r \<noteq> None then r
      else
        let r = r\<lparr>rl_now := max (rl_now r) (fst e)\<rparr> in
        case snd e of
          Io d ev \<Rightarrow> relay_io d ev r
        | TimerFired \<Rightarrow> if rl_sleep r \<le> rl_now r then watchdog t r else r
        | Notified \<Rightarrow>
            if ac_permit (rl_activity r)
            then watchdog t (r\<lparr>rl_activity := (rl_activity r)\<lparr>ac_permit := False\<rparr>\<rparr>) else r)"

section \<open>The data\<close>

fun in_hand :: "pump \<Rightarrow> bytes" where
  "in_hand (Writing d) = d"
| "in_hand _ = []"

fun past_eof :: "pump \<Rightarrow> bool" where
  "past_eof Closing = True"
| "past_eof Returned = True"
| "past_eof _ = False"

definition data_inv :: "relay \<Rightarrow> bool" where
  "data_inv r \<longleftrightarrow>
     (\<forall>d. rl_written r d @ in_hand (rl_pump r d) = rl_read r d) \<and>
     (\<forall>d. length (in_hand (rl_pump r d)) \<le> relay_buf) \<and>
     (rl_result r = Some (Inr ()) \<and> \<not> rl_timed_out r \<longrightarrow> (\<forall>d. rl_pump r d = Returned)) \<and>
     (rl_timed_out r \<longrightarrow> rl_result r = Some (Inr ()))"

lemma pump_step_data:
  "pump_step now ev p a = (Inr q, a') \<Longrightarrow>
     io_written ev p @ in_hand q = in_hand p @ io_read ev p \<and>
     (length (in_hand p) \<le> relay_buf \<longrightarrow> length (in_hand q) \<le> relay_buf)"
  "pump_step now ev p a = (Inl e, a') \<Longrightarrow> io_written ev p = [] \<and> io_read ev p = []"
  by (induction now ev p a rule: pump_step.induct) (auto split: if_splits)

lemma all_dirs: "(\<forall>d. P d) \<longleftrightarrow> P Up \<and> P Down"
  and ex_dirs: "(\<exists>d. P d) \<longleftrightarrow> P Up \<or> P Down"
  by (metis dir.exhaust)+

text \<open>The state after an I/O event, field by field.\<close>

lemma relay_io_fields:
  assumes "pump_step (rl_now r) ev (rl_pump r d) (rl_activity r) = (res, a)"
  shows "rl_activity (relay_io d ev r) = a" "rl_now (relay_io d ev r) = rl_now r"
    "rl_sleep (relay_io d ev r) = rl_sleep r" "rl_timed_out (relay_io d ev r) = rl_timed_out r"
    "rl_last (relay_io d ev r) = (if io_active ev (rl_pump r d) then rl_now r else rl_last r)"
    "rl_pump (relay_io d ev r) = (case res of Inl _ \<Rightarrow> rl_pump r | Inr q \<Rightarrow> (rl_pump r)(d := q))"
  using assms by (simp_all add: relay_io_def Let_def split: sum.splits)

lemma watchdog_data: "data_inv r \<Longrightarrow> rl_result r = None \<Longrightarrow> data_inv (watchdog t r)"
  by (simp add: watchdog_def data_inv_def Let_def)

lemma relay_io_data:
  assumes "data_inv r" and "rl_result r = None"
  shows "data_inv (relay_io d ev r)"
proof -
  obtain res a where p: "pump_step (rl_now r) ev (rl_pump r d) (rl_activity r) = (res, a)" by fastforce
  have inv: "rl_written r x @ in_hand (rl_pump r x) = rl_read r x"
    "length (in_hand (rl_pump r x)) \<le> relay_buf" "\<not> rl_timed_out r" for x
    using assms by (auto simp: data_inv_def)
  show ?thesis
  proof (cases res)
    case (Inl e)
    with inv pump_step_data(2) [of _ ev _ _ e] p show ?thesis
      by (simp add: relay_io_def data_inv_def Let_def)
  next
    case (Inr q)
    note q = pump_step_data(1) [OF p [unfolded Inr]]
    then have w: "rl_written r d @ io_written ev (rl_pump r d) @ in_hand q = rl_read r d @ io_read ev (rl_pump r d)"
      using inv(1) [of d] by (metis append.assoc)
    have l: "length (in_hand q) \<le> relay_buf" using q inv(2) by simp
    show ?thesis
      using w l p inv(3) inv(1,2) [of Up] inv(1,2) [of Down]
      by (cases d) (auto simp: relay_io_def data_inv_def Let_def Inr assms(2) all_dirs)
  qed
qed

lemma relay_step_data: "data_inv r \<Longrightarrow> data_inv (relay_step t r e)"
proof -
  assume r: "data_inv r"
  have now: "data_inv (r\<lparr>rl_now := n\<rparr>)" "data_inv (r\<lparr>rl_now := n, rl_activity := a\<rparr>)" for n a
    using r by (simp_all add: data_inv_def)
  show ?thesis
    using r now
    by (auto simp: relay_step_def Let_def intro!: relay_io_data watchdog_data split: relay_event.splits)
qed

interpretation relay_data: invariant_machine "relay_step t" data_inv for t
  by unfold_locales (rule relay_step_data)

lemma relay_start_data: "data_inv (relay_start t)"
  unfolding relay_start_def by (rule watchdog_data) (simp_all add: data_inv_def)

section \<open>The time\<close>

definition time_limit :: nat where "time_limit = 2 ^ 64 * ms"

text \<open>What holds of the times as long as the milliseconds fit 64 bits.\<close>

definition time_facts :: "timeouts \<Rightarrow> relay \<Rightarrow> bool" where
  "time_facts t r \<longleftrightarrow>
     unat (ac_last_ms (rl_activity r)) = rl_last r div ms \<and> rl_last r \<le> rl_now r \<and>
     (ac_half_closed (rl_activity r) \<longleftrightarrow> (\<exists>d. past_eof (rl_pump r d))) \<and>
     (rl_result r = None \<longrightarrow> rl_sleep r \<le> deadline t (rl_activity r) \<or> ac_permit (rl_activity r)) \<and>
     (rl_timed_out r \<longrightarrow> deadline t (rl_activity r) \<le> rl_now r)"

definition time_inv :: "timeouts \<Rightarrow> relay \<Rightarrow> bool" where
  "time_inv t r \<longleftrightarrow> (rl_now r < time_limit \<longrightarrow> time_facts t r)"

lemma ms_pos: "0 < ms"
  by (simp add: ms_def)

lemma last_ms:
  "now < time_limit \<Longrightarrow> unat (of_nat (now div ms) :: u64) = now div ms"
  using ms_pos by (simp add: time_limit_def unat_of_nat take_bit_nat_eq_self div_less_iff_less_mult)

lemma pump_step_time:
  "pump_step now ev p a = (res, a') \<Longrightarrow>
     (if io_active ev p
      then ac_last_ms a' = of_nat (now div ms) \<and>
        (\<exists>q. res = Inr q \<and> \<not> past_eof p \<and>
          (if past_eof q then ac_half_closed a' \<and> ac_permit a'
           else ac_half_closed a' = ac_half_closed a \<and> ac_permit a' = ac_permit a))
      else a' = a \<and> (\<forall>q. res = Inr q \<longrightarrow> past_eof q = past_eof p))"
  by (induction now ev p a rule: pump_step.induct) (auto simp: touch_def half_close_def split: if_splits)

lemma watchdog_time: "time_facts t r \<Longrightarrow> rl_result r = None \<Longrightarrow> \<not> rl_timed_out r \<Longrightarrow> time_facts t (watchdog t r)"
  by (simp add: watchdog_def time_facts_def Let_def)

lemma relay_io_time:
  assumes "time_facts t r" and "rl_result r = None" and "\<not> rl_timed_out r" and "rl_now r < time_limit"
  shows "time_facts t (relay_io d ev r)"
proof -
  obtain res a where p: "pump_step (rl_now r) ev (rl_pump r d) (rl_activity r) = (res, a)" by fastforce
  note step = pump_step_time [OF p] and fields = relay_io_fields [OF p]
  have f: "unat (ac_last_ms (rl_activity r)) = rl_last r div ms" "rl_last r \<le> rl_now r"
    "ac_half_closed (rl_activity r) \<longleftrightarrow> past_eof (rl_pump r Up) \<or> past_eof (rl_pump r Down)"
    "rl_sleep r \<le> deadline t (rl_activity r) \<or> ac_permit (rl_activity r)"
    using assms(1,2) by (simp_all add: time_facts_def ex_dirs)
  show ?thesis
  proof (cases "io_active ev (rl_pump r d)")
    case False
    with step have a: "a = rl_activity r" "\<forall>q. res = Inr q \<longrightarrow> past_eof q = past_eof (rl_pump r d)"
      by auto
    define ps where "ps = (case res of Inl _ \<Rightarrow> rl_pump r | Inr q \<Rightarrow> (rl_pump r)(d := q))"
    have "past_eof (ps Up) \<or> past_eof (ps Down) \<longleftrightarrow> past_eof (rl_pump r Up) \<or> past_eof (rl_pump r Down)"
    proof (cases res)
      case (Inr q)
      with a(2) have "past_eof q = past_eof (rl_pump r d)" by blast
      then show ?thesis by (cases d) (simp_all add: ps_def Inr)
    qed (simp add: ps_def)
    with f a(1) assms(3) False show ?thesis
      unfolding time_facts_def fields ex_dirs ps_def [symmetric] by simp
  next
    case True
    with step obtain q where q: "res = Inr q" "\<not> past_eof (rl_pump r d)" "ac_last_ms a = of_nat (rl_now r div ms)"
      "if past_eof q then ac_half_closed a \<and> ac_permit a
       else ac_half_closed a = ac_half_closed (rl_activity r) \<and> ac_permit a = ac_permit (rl_activity r)" by auto
    have l: "unat (ac_last_ms a) = rl_now r div ms" using last_ms [OF assms(4)] q(3) by simp
    have "unat (ac_last_ms (rl_activity r)) \<le> unat (ac_last_ms a)"
      using f(1,2) l by (simp add: div_le_mono)
    then have "ac_half_closed a = ac_half_closed (rl_activity r) \<Longrightarrow>
        deadline t (rl_activity r) \<le> deadline t a"
      by (simp add: deadline_def)
    then have "rl_sleep r \<le> deadline t a \<or> ac_permit a"
      using f(4) q(4) by (auto split: if_splits)
    with f q l True assms(3) show ?thesis
      unfolding time_facts_def fields ex_dirs by (cases d; cases "past_eof q") simp_all
  qed
qed

lemma relay_step_time:
  assumes "time_inv t r \<and> data_inv r"
  shows "time_inv t (relay_step t r e) \<and> data_inv (relay_step t r e)"
proof (cases "rl_result r = None")
  case True
  define n where "n = max (rl_now r) (fst e)"
  let ?r = "r\<lparr>rl_now := n\<rparr>"
  have keep: "rl_now (watchdog t x) = rl_now x" "rl_now (relay_io d ev x) = rl_now x" for x d ev
    by (auto simp: watchdog_def relay_io_def Let_def split: prod.splits sum.splits)
  have now: "rl_now (relay_step t r e) = n"
    using True by (auto simp: relay_step_def keep Let_def n_def split: relay_event.splits)
  have to: "\<not> rl_timed_out r" using assms True by (auto simp: data_inv_def)
  have "time_facts t (relay_step t r e)" if lim: "n < time_limit"
  proof -
    have "time_facts t r" using assms lim by (simp add: time_inv_def n_def)
    then have r: "time_facts t ?r" using to by (auto simp: time_facts_def n_def)
    show ?thesis
    proof (cases "snd e")
      case (Io d ev)
      with True lim to relay_io_time [OF r, of d ev] show ?thesis
        by (simp add: relay_step_def Let_def flip: n_def)
    next
      case TimerFired
      with True to r watchdog_time [OF r] show ?thesis
        by (simp add: relay_step_def Let_def flip: n_def)
    next
      case Notified
      let ?x = "?r\<lparr>rl_activity := (rl_activity r)\<lparr>ac_permit := False\<rparr>\<rparr>"
      have "deadline t (rl_activity ?x) = deadline t (rl_activity r)" by (simp add: deadline_def)
      then have "time_facts t (watchdog t ?x)" 
        using r True to by (auto simp: time_facts_def watchdog_def Let_def)
      with Notified True r show ?thesis by (simp add: relay_step_def Let_def flip: n_def)
    qed
  qed
  with now relay_step_data assms show ?thesis by (auto simp: time_inv_def)
qed (use assms in \<open>auto simp: relay_step_def\<close>)

interpretation relay_time: invariant_machine "relay_step t" "\<lambda>r. time_inv t r \<and> data_inv r" for t
  by unfold_locales (rule relay_step_time)

lemma relay_start_time: "time_inv t (relay_start t)"
  unfolding relay_start_def time_inv_def
  by (intro impI, simp add: watchdog_def Let_def time_facts_def activity_new_def deadline_def)

lemma relay_data_run: "data_inv (run (relay_step t) (relay_start t) evs)"
  by (rule relay_data.run_inv [OF relay_start_data])

lemma relay_time_run: "time_inv t (run (relay_step t) (relay_start t) evs)"
  by (rule relay_time.run_inv [OF conjI [OF relay_start_time relay_start_data], THEN conjunct1])

lemmas relay_run_simps =
  relay_start_def watchdog_def relay_step_def relay_io_def activity_new_def deadline_def
  touch_def half_close_def ms_def relay_buf_def Let_def

section \<open>Properties\<close>

text \<open>
  C16: The relay moves the bytes: in each direction what was written is a prefix of what was
  read, at most one buffer behind, for any order of events and any partial writes; a write
  side is shut only when everything is written; and when the relay ends well without the
  watchdog, both directions have delivered all they read.
\<close>

theorem relay_delivers:
  "let r = run (relay_step t) (relay_start t) evs in
   (\<forall>d. \<exists>rest. rl_read r d = rl_written r d @ rest \<and> length rest \<le> 65536 \<and>
      (past_eof (rl_pump r d) \<longrightarrow> rest = [])) \<and>
   (rl_result r = Some (Inr ()) \<and> \<not> rl_timed_out r \<longrightarrow> (\<forall>d. rl_written r d = rl_read r d))"
proof -
  let ?r = "run (relay_step t) (relay_start t) evs"
  have i: "rl_written ?r d @ in_hand (rl_pump ?r d) = rl_read ?r d" "length (in_hand (rl_pump ?r d)) \<le> 65536"
    "rl_result ?r = Some (Inr ()) \<Longrightarrow> \<not> rl_timed_out ?r \<Longrightarrow> rl_pump ?r d = Returned" for d
    using relay_data_run [of t evs] by (auto simp: data_inv_def relay_buf_def)
  have p: "past_eof p \<Longrightarrow> in_hand p = []" for p by (cases p) auto
  have "\<exists>rest. rl_read ?r d = rl_written ?r d @ rest \<and> length rest \<le> 65536 \<and>
      (past_eof (rl_pump ?r d) \<longrightarrow> rest = [])" for d
    using i(1) [of d, symmetric] i(2) [of d] p by blast
  moreover have "rl_written ?r d = rl_read ?r d"
    if "rl_result ?r = Some (Inr ())" "\<not> rl_timed_out ?r" for d
    using i(1) [of d] i(3) [OF that, of d] by simp
  ultimately show ?thesis by (simp add: Let_def)
qed

theorem relay_delivers_witness:
  "let r = run (relay_step \<lparr>tm_idle = 10, tm_half_close = 10\<rparr>) (relay_start \<lparr>tm_idle = 10, tm_half_close = 10\<rparr>)
     [(1, Io Up (Got (Inr [7, 8]))), (2, Io Up (Took (Inr 1))), (2, Io Up (Took (Inr 5))),
      (3, Io Up (Flushed (Inr ()))), (4, Io Up (Got (Inr []))), (4, Io Up (Shut (Inr ()))),
      (5, Io Down (Got (Inr []))), (5, Io Down (Shut (Inr ())))] in
   rl_result r = Some (Inr ()) \<and> \<not> rl_timed_out r \<and> rl_written r Up = rl_read r Up \<and> rl_read r Up = [7, 8]"
proof -
  let ?t = "\<lparr>tm_idle = 10, tm_half_close = 10\<rparr>"
  let ?evs = "[(1, Io Up (Got (Inr [7, 8]))), (2, Io Up (Took (Inr 1))), (2, Io Up (Took (Inr 5))),
      (3, Io Up (Flushed (Inr ()))), (4, Io Up (Got (Inr []))), (4, Io Up (Shut (Inr ()))),
      (5, Io Down (Got (Inr []))), (5, Io Down (Shut (Inr ())))]"
  have "rl_result (run (relay_step ?t) (relay_start ?t) ?evs) = Some (Inr ()) \<and>
      \<not> rl_timed_out (run (relay_step ?t) (relay_start ?t) ?evs) \<and>
      rl_read (run (relay_step ?t) (relay_start ?t) ?evs) Up = [7, 8]"
    by (simp add: relay_run_simps)
  with relay_delivers [of ?t ?evs] show ?thesis by (simp add: Let_def del: run_Cons)
qed

text \<open>
  C22: The watchdog never cuts an active connection: it ends the relay only when no direction
  has read anything, or its end, for the idle limit, or for the half-close limit once a
  direction is past its end, up to the millisecond to which the time of the last read is
  rounded down.
\<close>

theorem timeout_when_idle:
  assumes "rl_timed_out r" and "r = run (relay_step t) (relay_start t) evs"
    and "rl_now r < 2 ^ 64 * 10 ^ 6"
  shows "rl_result r = Some (Inr ()) \<and>
    rl_last r + (if \<exists>d. past_eof (rl_pump r d) then tm_half_close t else tm_idle t) < rl_now r + 10 ^ 6"
proof -
  have f: "time_facts t r"
    using relay_time_run [of t evs] assms(2,3) by (simp add: time_inv_def time_limit_def ms_def)
  have "rl_last r < rl_last r div ms * ms + ms"
    using ms_pos div_mult_mod_eq [of "rl_last r" ms] mod_less_divisor [of ms "rl_last r"] by linarith
  moreover have "deadline t (rl_activity r) \<le> rl_now r"
    "unat (ac_last_ms (rl_activity r)) = rl_last r div ms"
    "ac_half_closed (rl_activity r) \<longleftrightarrow> (\<exists>d. past_eof (rl_pump r d))"
    using f assms(1) by (simp_all add: time_facts_def)
  ultimately have "rl_last r + (if \<exists>d. past_eof (rl_pump r d) then tm_half_close t else tm_idle t) < rl_now r + ms"
    by (cases "\<exists>d. past_eof (rl_pump r d)") (simp_all add: deadline_def)
  with relay_data_run [of t evs] assms(1,2) show ?thesis by (simp add: data_inv_def ms_def)
qed

theorem timeout_when_idle_witness:
  "\<exists>r. r = run (relay_step \<lparr>tm_idle = 5, tm_half_close = 9\<rparr>) (relay_start \<lparr>tm_idle = 5, tm_half_close = 9\<rparr>)
      [(7, TimerFired)] \<and> rl_timed_out r \<and> rl_result r = Some (Inr ()) \<and> rl_last r + 5 < rl_now r + 10 ^ 6"
proof -
  let ?t = "\<lparr>tm_idle = 5, tm_half_close = 9\<rparr>"
  let ?r = "run (relay_step ?t) (relay_start ?t) [(7, TimerFired)]"
  have "rl_timed_out ?r" "rl_now ?r < 2 ^ 64 * 10 ^ 6" "\<not> (\<exists>d. past_eof (rl_pump ?r d))"
    by (simp_all add: relay_run_simps)
  then have "rl_result ?r = Some (Inr ()) \<and> rl_last ?r + 5 < rl_now ?r + 10 ^ 6"
    using timeout_when_idle [OF _ refl, of ?t "[(7, TimerFired)]"] by (simp del: run_Cons)
  with \<open>rl_timed_out ?r\<close> show ?thesis by blast
qed

text \<open>
  C23: The watchdog never oversleeps: at any moment at or past the deadline, a relay that is
  still running ends as soon as the notification, if one waits, or else the timer is delivered,
  also when a half-close brought the deadline forward while it slept.
\<close>

theorem watchdog_fires:
  assumes "r = run (relay_step t) (relay_start t) evs" and "rl_now r \<le> now"
    and "deadline t (rl_activity r) \<le> now" and "now < 2 ^ 64 * 10 ^ 6"
  shows "rl_result (run (relay_step t) r [(now, Notified), (now, TimerFired)]) \<noteq> None"
proof (cases "rl_result r = None")
  case True
  have "rl_sleep r \<le> deadline t (rl_activity r) \<or> ac_permit (rl_activity r)"
    using relay_time_run [of t evs] assms True
    by (simp add: time_inv_def time_limit_def time_facts_def ms_def)
  moreover have "deadline t (a\<lparr>ac_permit := b\<rparr>) = deadline t a" for a b by (simp add: deadline_def)
  ultimately show ?thesis
    using True assms(2,3) by (auto simp: relay_step_def watchdog_def Let_def)
qed (simp add: relay_step_def)

theorem watchdog_fires_witness:
  "rl_result (run (relay_step \<lparr>tm_idle = 50, tm_half_close = 9\<rparr>)
     (run (relay_step \<lparr>tm_idle = 50, tm_half_close = 9\<rparr>) (relay_start \<lparr>tm_idle = 50, tm_half_close = 9\<rparr>)
       [(1, Io Up (Got (Inr [])))]) [(20, Notified), (20, TimerFired)]) \<noteq> None"
  by (rule watchdog_fires [OF refl]) (simp_all add: relay_run_simps)

end
