(* ===== verification/ConnRelay.thy ===== *)
theory ConnRelay
  imports RelayModel StackSession
begin

text \<open>
  The relay of \<^verbatim>\<open>src/relay.rs\<close> with \<^verbatim>\<open>VisionStream\<close> as its upstream: the calls the pumps make on the
  upstream are polls of the stream. Every run is at once a run of the relay and a session of
  the stream, which agree on the bytes; and what the pump has flushed has left the stream.
\<close>

section \<open>The calls of the pumps\<close>

text \<open>
  An event of a connection in service: a call of a pump on the client's socket completes, the
  pump of a direction polls its call on the upstream, or the watchdog is woken.
\<close>

datatype conn_event = Client dir io_event | Upstream dir | Timer | Notify

text \<open>The calls the pumps make on the client's socket.\<close>

fun on_client :: "dir \<Rightarrow> io_event \<Rightarrow> bool" where
  "on_client Up (Got _) = True"
| "on_client Up _ = False"
| "on_client Down (Got _) = False"
| "on_client Down _ = True"

fun completes :: "('a \<Rightarrow> io_event) \<Rightarrow> 'a poll \<Rightarrow> io_event option" where
  "completes f (Ready x) = Some (f x)"
| "completes f Pending = None"

text \<open>
  A poll of what the pump awaits on the upstream: \<^verbatim>\<open>write_all\<close>, \<^verbatim>\<open>flush\<close> and \<^verbatim>\<open>shutdown\<close> of the
  uplink, the read of the downlink. The outer \<open>None\<close> is a poll that does not return.
\<close>

fun upstream_poll ::
  "'i stream_ops \<Rightarrow> 'r rng \<Rightarrow> dir \<Rightarrow> pump \<Rightarrow> ('i, 'r) vision_over
     \<Rightarrow> (io_event option \<times> ('i, 'r) vision_over) option" where
  "upstream_poll S rr Up (Writing d) v = Some (case write_on S rr d v of (q, v) \<Rightarrow> (completes Took q, v))"
| "upstream_poll S rr Up Flushing v = Some (case flush_on S v of (q, v) \<Rightarrow> (completes Flushed q, v))"
| "upstream_poll S rr Up Closing v = Some (case shutdown_on S v of (q, v) \<Rightarrow> (completes Shut q, v))"
| "upstream_poll S rr Down Reading v =
     map_option (\<lambda>(q, v). (completes Got q, v)) (read_on S relay_buf v)"
| "upstream_poll S rr d p v = Some (None, v)"

fun conn_step ::
  "timeouts \<Rightarrow> 'i stream_ops \<Rightarrow> 'r rng \<Rightarrow> relay \<times> ('i, 'r) vision_over \<Rightarrow> nat \<times> conn_event
     \<Rightarrow> (relay \<times> ('i, 'r) vision_over) option" where
  "conn_step t S rr (r, v) (now, Client d ev) =
     Some (if on_client d ev then relay_step t r (now, Io d ev) else r, v)"
| "conn_step t S rr (r, v) (now, Upstream d) =
     (if rl_result r \<noteq> None then Some (r, v)
      else map_option (\<lambda>(a, v). (case a of None \<Rightarrow> r | Some ev \<Rightarrow> relay_step t r (now, Io d ev), v))
        (upstream_poll S rr d (rl_pump r d) v))"
| "conn_step t S rr (r, v) (now, Timer) = Some (relay_step t r (now, TimerFired), v)"
| "conn_step t S rr (r, v) (now, Notify) = Some (relay_step t r (now, Notified), v)"

fun conn_run ::
  "timeouts \<Rightarrow> 'i stream_ops \<Rightarrow> 'r rng \<Rightarrow> relay \<times> ('i, 'r) vision_over \<Rightarrow> (nat \<times> conn_event) list
     \<Rightarrow> (relay \<times> ('i, 'r) vision_over) option" where
  "conn_run t S rr s [] = Some s"
| "conn_run t S rr s (e # es) = Option.bind (conn_step t S rr s e) (\<lambda>s. conn_run t S rr s es)"

section \<open>A relay and a session of the stream\<close>

lemma read_on_cap:
  assumes "read_on S cap v = Some z"
  shows "io_contract S \<longrightarrow> length (got (fst z)) \<le> cap"
proof (induction S cap v z rule: read_on.raw_induct)
  case 2
  show ?case by (rule assms)
next
  case (1 rec S cap v z)
  show ?case
  proof
    assume c: "io_contract S"
    consider (out) "vs_read_out v \<noteq> []" | (dir) "vs_read_out v = []" "is_direct (vs_unpadder v)"
      | (plain) "vs_read_out v = []" "\<not> is_direct (vs_unpadder v)" "is_done (vs_unpadder v) \<and> vs_read_raw v = []"
      | (pad) "vs_read_out v = []" "\<not> is_direct (vs_unpadder v)" "\<not> (is_done (vs_unpadder v) \<and> vs_read_raw v = [])"
      by blast
    then show "length (got (fst z)) \<le> cap"
    proof cases
      case out
      then show ?thesis using 1(2) by (auto simp: Let_def)
    next
      case dir
      obtain q i where q: "so_read_direct S cap (vs_inner v) = (q, i)" by fastforce
      then have "length (got q) \<le> cap" using c unfolding io_contract_def by (metis fst_conv)
      then show ?thesis using 1(2) dir q by auto
    next
      case plain
      obtain q i where q: "so_read S cap (vs_inner v) = (q, i)" by fastforce
      then have "length (got q) \<le> cap" using c unfolding io_contract_def by (metis fst_conv)
      then show ?thesis using 1(2) plain q by (auto split: poll.splits sum.splits)
    next
      case pad
      obtain q i where q: "so_read S read_chunk (so_open S (vs_inner v)) = (q, i)" by fastforce
      show ?thesis
      proof (cases "\<exists>d u. q = Ready (Inr d) \<and> d \<noteq> [] \<and> absorb_on S d (v\<lparr>vs_inner := i\<rparr>) = (None, u)")
        case True
        then obtain u where "rec S cap u = Some z" using 1(2) pad q by auto
        from 1(1) [OF this] c show ?thesis by simp
      next
        case False
        then show ?thesis using 1(2) pad q
          by (auto split: prod.splits poll.splits sum.splits if_splits option.splits)
      qed
    qed
  qed
qed

lemma relay_io_all:
  assumes "pump_step (rl_now r) ev (rl_pump r d) (rl_activity r) = (res, a)"
  shows "rl_read (relay_io d ev r) = (rl_read r)(d := rl_read r d @ io_read ev (rl_pump r d))"
    "rl_written (relay_io d ev r) = (rl_written r)(d := rl_written r d @ io_written ev (rl_pump r d))"
    "res = Inl e \<Longrightarrow> rl_result (relay_io d ev r) = Some (Inl (IO e))"
  using assms by (simp_all add: relay_io_def Let_def split: sum.splits)

text \<open>
  How the two states agree: \<open>p\<close> was written before the relay; what the relay wrote and read
  upstream is what the stream took and gave; and the stream has not failed unless the relay
  has ended with an error.
\<close>

definition linked :: "bytes \<Rightarrow> relay \<Rightarrow> bytes \<Rightarrow> bytes \<Rightarrow> bool \<Rightarrow> bool" where
  "linked p r sent out ok \<longleftrightarrow>
     p @ rl_written r Up = sent \<and> rl_read r Down = out \<and> (ok \<or> (\<exists>e. rl_result r = Some (Inl e)))"

lemma relay_step_links:
  assumes "linked p r sent out ok" and "\<forall>d ev. e = Io d ev \<longrightarrow> on_client d ev"
  shows "linked p (relay_step t r (now, e)) sent out ok"
proof (cases "rl_result r")
  case (Some x)
  then show ?thesis using assms(1) by (simp add: relay_step_def)
next
  case None
  then have l: "p @ rl_written r Up = sent" "rl_read r Down = out" "ok" using assms(1) by (auto simp: linked_def)
  show ?thesis
  proof (cases e)
    case (Io d ev)
    let ?r = "r\<lparr>rl_now := max (rl_now r) now\<rparr>"
    obtain res a where p: "pump_step (rl_now ?r) ev (rl_pump ?r d) (rl_activity ?r) = (res, a)" by fastforce
    have "d = Up \<Longrightarrow> io_written ev q = []" "d = Down \<Longrightarrow> io_read ev q = []" for q
      using assms(2) Io by (cases "(d, ev)" rule: on_client.cases; simp)+
    then have "rl_written (relay_io d ev ?r) Up = rl_written r Up" "rl_read (relay_io d ev ?r) Down = rl_read r Down"
      using relay_io_all(1,2) [OF p] by (cases d; simp)+
    then show ?thesis using l None by (simp add: relay_step_def Io linked_def)
  qed (use l None in \<open>auto simp: relay_step_def linked_def watchdog_def Let_def\<close>)
qed

lemma relay_up_links:
  assumes "linked p r sent out ok" and "rl_result r = None" and "rl_pump r Up = Writing d"
  shows "linked p (relay_step t r (now, Io Up (Took x))) (sent @ taken d (Ready x)) out (ok \<and> \<not> failed (Ready x))"
proof -
  let ?r = "r\<lparr>rl_now := max (rl_now r) now\<rparr>"
  have l: "p @ rl_written r Up = sent" "rl_read r Down = out" "ok" using assms(1,2) by (auto simp: linked_def)
  obtain res a where p: "pump_step (rl_now ?r) (Took x) (rl_pump ?r Up) (rl_activity ?r) = (res, a)" by fastforce
  note f = relay_io_all [OF p]
  have s: "relay_step t r (now, Io Up (Took x)) = relay_io Up (Took x) ?r"
    using assms(2) by (simp add: relay_step_def)
  show ?thesis
  proof (cases x)
    case (Inl e)
    then have "res = Inl e" using p assms(3) by simp
    with f(3) have "rl_result (relay_io Up (Took x) ?r) = Some (Inl (IO e))" by blast
    then show ?thesis using l f(1,2) assms(3) by (simp add: linked_def s [unfolded Inl] Inl)
  next
    case (Inr n)
    then show ?thesis using l f(1,2) assms(3) by (auto simp: linked_def s [unfolded Inr])
  qed
qed

lemma relay_down_links:
  assumes "linked p r sent out ok" and "rl_result r = None" and "rl_pump r Down = Reading"
    and "length (got (Ready x)) \<le> relay_buf"
  shows "linked p (relay_step t r (now, Io Down (Got x))) sent (out @ got (Ready x)) (ok \<and> \<not> failed (Ready x))"
proof -
  let ?r = "r\<lparr>rl_now := max (rl_now r) now\<rparr>"
  have l: "p @ rl_written r Up = sent" "rl_read r Down = out" "ok" using assms(1,2) by (auto simp: linked_def)
  obtain res a where p: "pump_step (rl_now ?r) (Got x) (rl_pump ?r Down) (rl_activity ?r) = (res, a)" by fastforce
  note f = relay_io_all [OF p]
  have s: "relay_step t r (now, Io Down (Got x)) = relay_io Down (Got x) ?r"
    using assms(2) by (simp add: relay_step_def)
  show ?thesis
  proof (cases x)
    case (Inl e)
    then have "res = Inl e" using p assms(3) by simp
    with f(3) have "rl_result (relay_io Down (Got x) ?r) = Some (Inl (IO e))" by blast
    then show ?thesis using l f(1,2) assms(3) by (simp add: linked_def s [unfolded Inl] Inl)
  next
    case (Inr d)
    then show ?thesis using l f(1,2) assms(3,4) by (auto simp: linked_def s [unfolded Inr])
  qed
qed

lemma relay_ctl_links:
  assumes "linked p r sent out ok" and "rl_result r = None" and "ev = Flushed x \<or> ev = Shut x"
  shows "linked p (relay_step t r (now, Io Up ev)) sent out ok"
proof -
  let ?r = "r\<lparr>rl_now := max (rl_now r) now\<rparr>"
  have l: "p @ rl_written r Up = sent" "rl_read r Down = out" "ok" using assms(1,2) by (auto simp: linked_def)
  obtain res a where p: "pump_step (rl_now ?r) ev (rl_pump ?r Up) (rl_activity ?r) = (res, a)" by fastforce
  have "io_written ev q = []" "io_read ev q = []" for q using assms(3) by auto
  then show ?thesis using l relay_io_all(1,2) [OF p] assms(2) by (simp add: relay_step_def linked_def)
qed

text \<open>The pump writes no more at a time than its buffer holds.\<close>

fun write_within :: "nat \<Rightarrow> vs_op \<Rightarrow> bool" where
  "write_within n (OpWrite b) \<longleftrightarrow> length b \<le> n"
| "write_within n _ \<longleftrightarrow> True"

lemma splitsI:
  "session_on S rr (v, sent, out, ok) ops = Some (v', sent', out', ok') \<Longrightarrow> r' = run (relay_step t) r evs \<Longrightarrow>
   linked p r' sent' out' ok' \<Longrightarrow> list_all (write_within relay_buf) ops \<Longrightarrow>
   \<exists>ops evs sent' out' ok'. session_on S rr (v, sent, out, ok) ops = Some (v', sent', out', ok') \<and>
     r' = run (relay_step t) r evs \<and> linked p r' sent' out' ok' \<and> list_all (write_within relay_buf) ops"
  by blast

lemma session_on_append:
  "session_on S rr s (a @ b) = Option.bind (session_on S rr s a) (\<lambda>s. session_on S rr s b)"
  by (induction a arbitrary: s) simp_all

context direct_stream
begin

lemma contract: "io_contract S"
  using direct_stream_axioms by (simp add: direct_stream_iff)

text \<open>One event: a step of the relay and at most one call of the stream.\<close>

lemma conn_step_splits:
  assumes "conn_step t S rr (r, v) (now, e) = Some (r', v')" and "linked p r sent out ok" and "data_inv r"
  shows "\<exists>ops evs sent' out' ok'. session_on S rr (v, sent, out, ok) ops = Some (v', sent', out', ok') \<and>
    r' = run (relay_step t) r evs \<and> linked p r' sent' out' ok' \<and> list_all (write_within relay_buf) ops"
proof (cases e)
  case (Client d ev)
  have "linked p (relay_step t r (now, Io d ev)) sent out ok" if "on_client d ev"
    using relay_step_links [OF assms(2), of "Io d ev"] that by simp
  then show ?thesis using assms(1,2)
    by (intro splitsI [where ops = "[]" and evs = "if on_client d ev then [(now, Io d ev)] else []"])
      (auto simp: Client)
next
  case Timer
  then show ?thesis using assms(1) relay_step_links [OF assms(2), of TimerFired t now]
    by (intro splitsI [where ops = "[]" and evs = "[(now, TimerFired)]"]) auto
next
  case Notify
  then show ?thesis using assms(1) relay_step_links [OF assms(2), of Notified t now]
    by (intro splitsI [where ops = "[]" and evs = "[(now, Notified)]"]) auto
next
  case (Upstream d)
  have idle: ?thesis if "(r', v') = (r, v)"
    using that assms(2) by (intro splitsI [where ops = "[]" and evs = "[]"]) auto
  show ?thesis
  proof (cases "rl_result r = None")
    case False
    then show ?thesis using idle assms(1) by (simp add: Upstream)
  next
    case None: True
    show ?thesis
    proof (cases "(S, rr, d, rl_pump r d, v)" rule: upstream_poll.cases)
      case (1 S' rr' b v1)
      obtain q u where w: "write_on S rr b v = (q, u)" by fastforce
      have v': "v' = u" "r' = (case q of Ready x \<Rightarrow> relay_step t r (now, Io Up (Took x)) | Pending \<Rightarrow> r)"
        using assms(1) 1 None w by (auto simp: Upstream split: poll.splits)
      have "linked p r' (sent @ taken b q) out (ok \<and> \<not> failed q)"
      proof (cases q)
        case (Ready x)
        then show ?thesis using relay_up_links [OF assms(2) None, of b t now x] v' 1 by auto
      qed (use assms(2) v' in simp)
      moreover have "\<exists>evs. r' = run (relay_step t) r evs"
        using v'(2) by (cases q) (auto intro: exI [of _ "[]"] exI [of _ "[(now, Io Up (Took _))]"])
      moreover have "session_on S rr (v, sent, out, ok) [OpWrite b] = Some (v', sent @ taken b q, out, ok \<and> \<not> failed q)"
        using w v' by simp
      moreover have "length b \<le> relay_buf" using assms(3) 1 by (auto simp: data_inv_def dest: spec [of _ Up])
      then have "list_all (write_within relay_buf) [OpWrite b]" by simp
      ultimately show ?thesis by (metis splitsI)
    next
      case (2 S' rr' v1)
      obtain q u where w: "flush_on S v = (q, u)" by fastforce
      have v': "v' = u" "r' = (case q of Ready x \<Rightarrow> relay_step t r (now, Io Up (Flushed x)) | Pending \<Rightarrow> r)"
        using assms(1) 2 None w by (auto simp: Upstream split: poll.splits)
      have "linked p r' sent out ok"
        using v'(2) assms(2) relay_ctl_links [OF assms(2) None] by (cases q) auto
      moreover have "\<exists>evs. r' = run (relay_step t) r evs"
        using v'(2) by (cases q) (auto intro: exI [of _ "[]"] exI [of _ "[(now, Io Up (Flushed _))]"])
      ultimately show ?thesis using w v' by (intro exI [of _ "[OpFlush]"]) auto
    next
      case (3 S' rr' v1)
      obtain q u where w: "shutdown_on S v = (q, u)" by fastforce
      have v': "v' = u" "r' = (case q of Ready x \<Rightarrow> relay_step t r (now, Io Up (Shut x)) | Pending \<Rightarrow> r)"
        using assms(1) 3 None w by (auto simp: Upstream split: poll.splits)
      have "linked p r' sent out ok"
        using v'(2) assms(2) relay_ctl_links [OF assms(2) None] by (cases q) auto
      moreover have "\<exists>evs. r' = run (relay_step t) r evs"
        using v'(2) by (cases q) (auto intro: exI [of _ "[]"] exI [of _ "[(now, Io Up (Shut _))]"])
      ultimately show ?thesis using w v' by (intro exI [of _ "[OpShutdown]"]) auto
    next
      case (4 S' rr' v1)
      obtain q where w: "read_on S relay_buf v = Some (q, v')"
        "r' = (case q of Ready x \<Rightarrow> relay_step t r (now, Io Down (Got x)) | Pending \<Rightarrow> r)"
        using assms(1) 4 None by (auto simp: Upstream split: poll.splits)
      have "length (got q) \<le> relay_buf" using read_on_cap [OF w(1)] contract by simp
      then have "linked p r' sent (out @ got q) (ok \<and> \<not> failed q)"
        using w(2) assms(2) relay_down_links [OF assms(2) None, of _ t now] 4 by (cases q) auto
      moreover have "\<exists>evs. r' = run (relay_step t) r evs"
        using w(2) by (cases q) (auto intro: exI [of _ "[]"] exI [of _ "[(now, Io Down (Got _))]"])
      ultimately show ?thesis using w by (intro exI [of _ "[OpRead relay_buf]"]) auto
    qed (use idle assms(1) None in \<open>auto simp: Upstream\<close>)
  qed
qed

lemma conn_run_splits:
  "conn_run t S rr (r, v) es = Some (r', v') \<Longrightarrow> linked p r sent out ok \<Longrightarrow> data_inv r \<Longrightarrow>
     \<exists>ops evs sent' out' ok'. session_on S rr (v, sent, out, ok) ops = Some (v', sent', out', ok') \<and>
       r' = run (relay_step t) r evs \<and> linked p r' sent' out' ok' \<and> list_all (write_within relay_buf) ops"
proof (induction es arbitrary: r v sent out ok)
  case Nil
  then show ?case by (intro splitsI [where ops = "[]" and evs = "[]"]) auto
next
  case (Cons e es)
  obtain now ev where e: "e = (now, ev)" by fastforce
  obtain r1 v1 where s: "conn_step t S rr (r, v) (now, ev) = Some (r1, v1)"
    "conn_run t S rr (r1, v1) es = Some (r', v')"
    using Cons.prems(1) by (auto simp: e bind_eq_Some_conv)
  from conn_step_splits [OF s(1) Cons.prems(2,3)] obtain ops evs sent1 out1 ok1 where
    a: "session_on S rr (v, sent, out, ok) ops = Some (v1, sent1, out1, ok1)"
      "r1 = run (relay_step t) r evs" "linked p r1 sent1 out1 ok1" "list_all (write_within relay_buf) ops" by blast
  have "data_inv r1" unfolding a(2) by (rule relay_data.run_inv [OF Cons.prems(3)])
  from Cons.IH [OF s(2) a(3) this] obtain ops2 evs2 sent2 out2 ok2 where
    b: "session_on S rr (v1, sent1, out1, ok1) ops2 = Some (v', sent2, out2, ok2)"
      "r' = run (relay_step t) r1 evs2" "linked p r' sent2 out2 ok2" "list_all (write_within relay_buf) ops2" by blast
  from a b show ?case
    by (intro splitsI [where ops = "ops @ ops2" and evs = "evs @ evs2"]) (auto simp: session_on_append run_append)
qed

end

section \<open>Nothing stays behind a flush\<close>

lemma drain_on_done:
  "drain_on S v = (Ready (Inr x), v') \<Longrightarrow> vs_write_pending v' = []"
  "vs_write_pending v = [] \<Longrightarrow> drain_on S v = (Ready (Inr ()), v)"
proof (induction S v rule: drain_on.induct)
  case (1 S v)
  {
    case 1
    then show ?case using "1.IH" by (subst (asm) drain_on.simps)
      (auto split: if_splits prod.splits poll.splits sum.splits)
  next
    case 2
    then show ?case by (simp add: drain_on.simps)
  }
qed

lemma settle_on_done: "settle_on S v = (Ready (Inr x), v') \<Longrightarrow> vs_write_pending v' = []"
  by (cases "drain_on S v")
    (auto simp: settle_on_def split: prod.splits poll.splits sum.splits if_splits dest: drain_on_done(1))

lemma settle_on_keeps: "vs_write_pending v = [] \<Longrightarrow> vs_write_pending (snd (settle_on S v)) = []"
  by (simp add: settle_on_def drain_on_done(2) split: prod.split poll.split sum.split)

lemma flush_on_done: "flush_on S v = (Ready (Inr x), v') \<Longrightarrow> vs_write_pending v' = []"
  by (auto simp: flush_on_def split: prod.splits poll.splits sum.splits dest: settle_on_done)

lemma shutdown_on_keeps: "vs_write_pending v = [] \<Longrightarrow> vs_write_pending (snd (shutdown_on S v)) = []"
  using settle_on_keeps [of v S] by (auto simp: shutdown_on_def split: prod.splits poll.splits sum.splits)

lemma absorb_on_pending: "absorb_on S d v = (e, u) \<Longrightarrow> vs_write_pending u = vs_write_pending v"
  by (auto simp: absorb_on_def Let_def split: prod.splits sum.splits bool.splits if_splits)

lemma read_on_pending:
  assumes "read_on S cap v = Some z"
  shows "vs_write_pending (snd z) = vs_write_pending v"
proof (induction S cap v z rule: read_on.raw_induct)
  case 2
  show ?case by (rule assms)
next
  case (1 rec S cap v z)
  obtain q i where q: "so_read S read_chunk (so_open S (vs_inner v)) = (q, i)" by fastforce
  show ?case
  proof (cases "\<exists>d u. q = Ready (Inr d) \<and> d \<noteq> [] \<and> absorb_on S d (v\<lparr>vs_inner := i\<rparr>) = (None, u) \<and> rec S cap u = Some z")
    case True
    then obtain d u where u: "absorb_on S d (v\<lparr>vs_inner := i\<rparr>) = (None, u)" "rec S cap u = Some z" by blast
    then show ?thesis using 1(1) [OF u(2)] absorb_on_pending [OF u(1)] by simp
  next
    case False
    then show ?thesis using 1(2) q
      by (auto simp: Let_def split: if_splits prod.splits poll.splits sum.splits option.splits dest: absorb_on_pending)
  qed
qed

text \<open>While the pump of the uplink is not between a write and the end of its flush, no frame waits.\<close>

definition flushed_up :: "relay \<Rightarrow> ('i, 'r) vision_over \<Rightarrow> bool" where
  "flushed_up r v \<longleftrightarrow> (rl_pump r Up \<in> {Reading, Closing, Returned} \<longrightarrow> vs_write_pending v = [])"

lemma relay_step_pump:
  "rl_pump (relay_step t r (now, e)) Up = rl_pump r Up \<or>
     (\<exists>ev q a. e = Io Up ev \<and> pump_step (max (rl_now r) now) ev (rl_pump r Up) (rl_activity r) = (Inr q, a) \<and>
        rl_pump (relay_step t r (now, e)) Up = q)"
proof (cases e)
  case (Io d ev)
  show ?thesis
  proof (cases "pump_step (max (rl_now r) now) ev (rl_pump r d) (rl_activity r)")
    case (Pair res a)
    then show ?thesis
      by (cases res; cases d) (simp_all add: Io relay_step_def relay_io_def Let_def)
  qed
qed (simp_all add: relay_step_def watchdog_def Let_def)

lemma relay_step_pump_down: "rl_pump (relay_step t r (now, Io Down ev)) Up = rl_pump r Up"
  using relay_step_pump [of t r now "Io Down ev"] by simp

lemma relay_step_writing:
  "rl_pump r Up = Writing b \<Longrightarrow> rl_pump (relay_step t r (now, Io Up (Took x))) Up \<notin> {Reading, Closing, Returned}"
  using relay_step_pump [of t r now "Io Up (Took x)"] by (cases x) (auto split: if_splits)

lemma relay_step_flushing:
  "rl_pump r Up = Flushing \<Longrightarrow> rl_pump (relay_step t r (now, Io Up (Flushed (Inl e)))) Up = Flushing"
  using relay_step_pump [of t r now "Io Up (Flushed (Inl e))"] by auto

lemma conn_step_flushed:
  assumes "conn_step t S rr (r, v) (now, e) = Some (r', v')" and "flushed_up r v"
  shows "flushed_up r' v'"
proof (cases e)
  case (Client d ev)
  have "rl_pump (relay_step t r (now, Io d ev)) Up \<in> {Reading, Closing, Returned} \<longrightarrow> rl_pump r Up \<in> {Reading, Closing, Returned}"
    if "on_client d ev"
    using that relay_step_pump [of t r now "Io d ev"]
    by (cases "(d, ev)" rule: on_client.cases; cases "rl_pump r Up") (auto split: sum.splits if_splits)
  then show ?thesis using assms by (auto simp: Client flushed_up_def split: if_splits)
next
  case (Upstream d)
  have keep: ?thesis if "(r', v') = (r, v)" using that assms(2) by simp
  show ?thesis
  proof (cases "rl_result r = None")
    case False
    then show ?thesis using keep assms(1) by (simp add: Upstream)
  next
    case None: True
    show ?thesis
    proof (cases "(S, rr, d, rl_pump r d, v)" rule: upstream_poll.cases)
      case (1 S' rr' b v1)
      obtain q u where w: "write_on S rr b v = (q, u)" by fastforce
      have "rl_pump r' Up \<notin> {Reading, Closing, Returned}"
        using assms(1) 1 None w relay_step_writing [of r b] by (cases q) (auto simp: Upstream)
      then show ?thesis by (simp add: flushed_up_def)
    next
      case (2 S' rr' v1)
      obtain q u where w: "flush_on S v = (q, u)" by fastforce
      have "rl_pump r' Up = Flushing \<or> (\<exists>x. q = Ready (Inr x))"
      proof (cases q)
        case (Ready x)
        then show ?thesis using assms(1) 2 None w relay_step_flushing [of r] by (cases x) (auto simp: Upstream)
      qed (use assms(1) 2 None w in \<open>auto simp: Upstream\<close>)
      moreover have "v' = u" using assms(1) 2 None w by (auto simp: Upstream)
      ultimately show ?thesis using w flush_on_done [of S v] by (auto simp: flushed_up_def)
    next
      case (3 S' rr' v1)
      then have "vs_write_pending v = []" using assms(2) by (auto simp: flushed_up_def)
      with shutdown_on_keeps [of v S] show ?thesis using assms(1) 3 None
        by (auto simp: Upstream flushed_up_def split: prod.splits)
    next
      case (4 S' rr' v1)
      obtain q where q: "read_on S relay_buf v = Some (q, v')"
        "r' = r \<or> (\<exists>x. r' = relay_step t r (now, Io Down x))"
        using assms(1) 4 None by (auto simp: Upstream split: poll.splits option.splits)
      with read_on_pending [OF q(1)] assms(2) show ?thesis
        by (auto simp: flushed_up_def relay_step_pump_down)
    qed (use keep assms(1) None in \<open>auto simp: Upstream\<close>)
  qed
qed (use assms relay_step_pump [of t r now TimerFired] relay_step_pump [of t r now Notified] in
    \<open>auto simp: flushed_up_def\<close>)

lemma conn_run_flushed:
  "conn_run t S rr (r, v) es = Some (r', v') \<Longrightarrow> flushed_up r v \<Longrightarrow> flushed_up r' v'"
proof (induction es arbitrary: r v)
  case (Cons e es)
  then show ?case by (cases e) (auto simp: bind_eq_Some_conv dest!: conn_step_flushed)
qed simp

end
