(* ===== verification/BufferBounds.thy ===== *)
theory BufferBounds
  imports ConnRelay
begin

text \<open>
  How much a connection holds: bounds on the frames waiting to be written, on the plaintext
  waiting to be deframed, on the data waiting for the application and on the bytes the record
  gate has read ahead. They hold at every moment of a session in which no call has failed.
\<close>

section \<open>The pieces of a write\<close>

lemma rposition_None: "rposition P xs = None \<Longrightarrow> \<forall>y \<in> set xs. \<not> P y"
  by (induction xs) (auto split: option.splits if_splits)

lemma rposition_last: "rposition P xs = Some i \<Longrightarrow> i < j \<Longrightarrow> j < length xs \<Longrightarrow> \<not> P (xs ! j)"
proof (induction xs arbitrary: i j)
  case (Cons x xs)
  show ?case
  proof (cases "rposition P xs")
    case None
    then have "\<forall>y \<in> set xs. \<not> P y" by (rule rposition_None)
    with Cons.prems show ?thesis by (cases j) auto
  next
    case (Some k)
    with Cons.IH [of k "j - 1"] Cons.prems show ?thesis by (cases j) auto
  qed
qed simp

text \<open>Behind the last record header in the window there is no other one in it.\<close>

lemma reshape_at_last:
  assumes "reshape_at d \<noteq> 4096" and "8174 \<le> length d" and "reshape_at d < j" and "j \<le> 8171"
  shows "take 3 (drop j d) \<noteq> tls_application_data_start"
proof -
  let ?w = "take 8174 d"
  have c: "length tls_application_data_start = 3" "min (max_frame_content + 3) (length d) = 8174"
    using assms(2) by (simp_all add: tls_application_data_start_def const_defs)
  obtain i where i: "rposition (\<lambda>w. w = tls_application_data_start) (windows 3 ?w) = Some i" "reshape_at d = i"
    using assms(1) by (auto simp: reshape_at_def Let_def buf_size_def c split: option.splits if_splits)
  have len: "length (windows 3 ?w) = 8172" using assms(2) by simp
  have "windows 3 ?w ! j \<noteq> tls_application_data_start"
    using rposition_last [OF i(1), of j] assms(3,4) i(2) len by simp
  moreover have "windows 3 ?w ! j = take 3 (drop j ?w)" using len assms(4) by simp
  moreover have "take 3 (drop j ?w) = take 3 (drop j d)"
    using assms(4) by (simp add: drop_take min_absorb1)
  ultimately show ?thesis by simp
qed

text \<open>So two pieces in a row are not both short.\<close>

lemma reshape_at_two:
  assumes "8171 \<le> length (drop (reshape_at d) d)"
  shows "4117 \<le> reshape_at d + reshape_at (drop (reshape_at d) d)"
proof (cases "4096 \<le> reshape_at d \<or> reshape_at (drop (reshape_at d) d) = 4096")
  case True
  then show ?thesis using reshape_at_bounds [of d] reshape_at_bounds [of "drop (reshape_at d) d"] by auto
next
  case False
  let ?p = "reshape_at d" and ?q = "reshape_at (drop (reshape_at d) d)"
  have "take 3 (drop (?p + ?q) d) = tls_application_data_start"
    using reshape_at_marker [of "drop ?p d"] False by (simp add: add.commute)
  moreover have "8174 \<le> length d" using assms reshape_at_bounds [of d] unfolding length_drop by linarith
  moreover have "21 \<le> ?q" using reshape_at_bounds by blast
  ultimately have "8171 < ?p + ?q" using reshape_at_last [of d "?p + ?q"] False by force
  then show ?thesis by simp
qed

lemma reshape_count: "length (reshape d) \<le> 2 * (length d div 4117) + 2"
proof (induction d rule: length_induct)
  case (1 d)
  let ?p = "reshape_at d" and ?d = "drop (reshape_at d) d"
  show ?case
  proof (cases "8171 \<le> length d \<and> 8171 \<le> length ?d")
    case False
    then show ?thesis
      by (subst reshape.simps) (auto simp: reshape.simps [of ?d] const_defs)
  next
    case True
    let ?e = "drop (reshape_at ?d) ?d"
    have two: "4117 \<le> ?p + reshape_at ?d" using True reshape_at_two by blast
    have len: "length ?e = length d - (?p + reshape_at ?d)" by simp
    with two True have less: "length ?e < length d" "length ?e \<le> length d - 4117" by linarith+
    have "length (reshape d) = Suc (Suc (length (reshape ?e)))"
      using True by (subst reshape.simps, subst reshape.simps [of ?d]) (simp add: const_defs)
    also have "\<dots> \<le> 2 + (2 * (length ?e div 4117) + 2)"
    proof -
      have "length (reshape ?e) \<le> 2 * (length ?e div 4117) + 2" using 1 less(1) by blast
      then show ?thesis by linarith
    qed
    also have "\<dots> \<le> 2 + (2 * ((length d - 4117) div 4117) + 2)"
      using div_le_mono [OF less(2), of 4117] by simp
    also have "\<dots> = 2 * (length d div 4117) + 2"
    proof -
      have "4117 \<le> length d" using True by linarith
      then show ?thesis by (simp add: le_div_geq)
    qed
    finally show ?thesis .
  qed
qed

section \<open>The frames of a write\<close>

definition uuid_fits :: "padder \<Rightarrow> bool" where
  "uuid_fits p \<longleftrightarrow> (\<forall>i. pd_uuid p = Some i \<longrightarrow> length i \<le> 16)"

lemma frame_fits:
  assumes "length b \<le> 8171" and "uuid_fits p" and "xtls_padding_into rr r out b c (pd_uuid p) long = (out', r')"
  shows "length out' \<le> length out + 8192"
proof -
  obtain pad r1 where p: "padding_len rr r (length b) long = (pad, r1)" by fastforce
  have "pad \<le> 8192 - (21 + length b)"
    using p by (auto simp: padding_len_def Let_def const_defs split: prod.splits if_splits)
  moreover have "length (case pd_uuid p of Some i \<Rightarrow> i | None \<Rightarrow> []) \<le> 16"
    using assms(2) by (auto simp: uuid_fits_def split: option.splits)
  ultimately show ?thesis
    using assms(1,3) p by (auto simp: xtls_padding_into_def frame_bytes_def)
qed

lemma pad_pieces_fits:
  "pad_pieces rr ts cw ps p long r out = (p', out', r') \<Longrightarrow> \<forall>b \<in> set ps. length b \<le> 8171 \<Longrightarrow> uuid_fits p \<Longrightarrow>
     length out' \<le> length out + 8192 * length ps \<and> uuid_fits p'"
proof (induction ps arbitrary: p long r out)
  case (Cons b rest)
  have b: "length b \<le> 8171" "\<forall>b \<in> set rest. length b \<le> 8171" using Cons.prems(2) by auto
  have rest: "length (concat rest) \<le> 8192 * length rest"
    using b(2) by (induction rest) auto
  have none: "uuid_fits (p\<lparr>pd_uuid := None\<rparr>)" "uuid_fits (p\<lparr>pd_padding := False, pd_uuid := None\<rparr>)"
    "uuid_fits (p\<lparr>pd_padding := False, pd_direct := enable_xtls ts, pd_uuid := None\<rparr>)"
    by (simp_all add: uuid_fits_def)
  show ?case
  proof (cases "is_tls ts \<and> 6 \<le> length b \<and> take 3 b = tls_application_data_start \<and> cw")
    case True
    obtain o1 r1 where f: "xtls_padding_into rr r out b (if rest = [] then end_command ts else cmd_padding_continue)
        (pd_uuid p) True = (o1, r1)" by fastforce
    from Cons.prems(1) True f have "pad_pieces rr ts cw rest
        (p\<lparr>pd_padding := False, pd_direct := enable_xtls ts, pd_uuid := None\<rparr>) False r1 o1 = (p', out', r')"
      by simp
    from Cons.IH [OF this b(2) none(3)] frame_fits [OF b(1) Cons.prems(3) f] show ?thesis by simp
  next
    case data: False
    show ?thesis
    proof (cases "\<not> is_tls12_or_above ts \<and> filter_budget ts \<le> 1")
      case True
      obtain o1 r1 where f: "xtls_padding_into rr r out b cmd_padding_end (pd_uuid p) long = (o1, r1)" by fastforce
      with Cons.prems(1) True data have "p' = p\<lparr>pd_padding := False, pd_uuid := None\<rparr>" "out' = o1 @ concat rest"
        by auto
      with rest none frame_fits [OF b(1) Cons.prems(3) f] show ?thesis by simp
    next
      case False
      obtain o1 r1 where f: "xtls_padding_into rr r out b
          (if rest = [] \<and> \<not> pd_padding p then end_command ts else cmd_padding_continue) (pd_uuid p) long = (o1, r1)"
        by fastforce
      from Cons.prems(1) False data f have "pad_pieces rr ts cw rest (p\<lparr>pd_uuid := None\<rparr>) long r1 o1 = (p', out', r')"
        by auto
      from Cons.IH [OF this b(2) none(1)] frame_fits [OF b(1) Cons.prems(3) f] show ?thesis by simp
    qed
  qed
qed simp

lemma pad_into_fits:
  assumes "pad_into rr r p d ts [] = (p', ts', out, r')" and "uuid_fits p" and "pd_padding p"
  shows "length out \<le> 8192 * (2 * (length d div 4117) + 2)" and "uuid_fits p'"
proof -
  have "length out \<le> 8192 * length (reshape d) \<and> uuid_fits p'"
    using assms reshape_pieces [of d]
    by (auto simp: pad_into_def Let_def split: prod.splits dest!: pad_pieces_fits)
  then show "length out \<le> 8192 * (2 * (length d div 4117) + 2)" "uuid_fits p'"
    using reshape_count [of d] by auto
qed

section \<open>What waits to be deframed\<close>

lemma frame_content_length: "length (frame_content u b) \<le> frame_len (prefix_of u) b"
  by (simp add: frame_content_def frame_len_def Let_def)

lemma unpad_leaves:
  "unpad u b out = (Inr x, u', b', out') \<Longrightarrow> length b' \<le> 131090 \<and> length out' \<le> length out + length b"
proof (induction "length b" arbitrary: u b out rule: less_induct)
  case less
  consider "up_done u" | "\<not> up_done u" "\<not> frame_ready u b" | "\<not> up_done u" "frame_ready u b"
    by blast
  then show ?case
  proof cases
    case 1
    then show ?thesis using less.prems by (auto simp: unpad_done)
  next
    case 2
    have "length b \<le> 131090"
      using 2(2) unat_u16_bound [of "be_u16 (b ! (prefix_of u + 1)) (b ! (prefix_of u + 2))"]
        unat_u16_bound [of "be_u16 (b ! (prefix_of u + 3)) (b ! (prefix_of u + 4))"]
      by (auto simp: frame_ready_def complete_def frame_len_def prefix_of_def split: if_splits)
    then show ?thesis using less.prems 2 by (auto simp: unpad_wait)
  next
    case 3
    let ?n = "frame_len (prefix_of u) b"
    have n: "0 < ?n" "?n \<le> length b"
      using 3(2) frame.size_pos [of "prefix_of u" b] by (auto simp: frame_ready_def complete_def)
    then have l: "length (drop ?n b) < length b" by simp
    from less.prems have "unpad (after_command u (frame_command u b)) (drop ?n b) (out @ frame_content u b)
        = (Inr x, u', b', out')"
      by (simp add: unpad_frame [OF 3] Let_def split: if_splits)
    from less.hyps [OF l this] have "length b' \<le> 131090"
      "length out' \<le> length out + length (frame_content u b) + (length b - ?n)" by simp_all
    then show ?thesis using n(2) frame_content_length [of u b] by linarith
  qed
qed

lemma feed_short: "feed h b = (Inr False, h', b') \<Longrightarrow> length b' \<le> 256"
  using unat_u8_bound [of "b' ! 1"] by (auto simp: feed_def Let_def const_defs split: if_splits)

lemma feed_rest: "feed h b = (r, h', b') \<Longrightarrow> length b' \<le> length b"
  by (auto simp: feed_def Let_def split: if_splits)

lemma session_failed: "session_on S rr (v, sent, out, False) es = Some (v', sent', out', ok) \<Longrightarrow> \<not> ok"
proof (induction es arbitrary: v sent out)
  case (Cons e es)
  then show ?case by (cases e) (auto simp: bind_eq_Some_conv split: prod.splits)
qed simp

section \<open>The buffers of the stream\<close>

text \<open>
  \<open>J\<close> is an invariant of the stream below that bounds what it holds for the switch to direct copy
  by \<open>K\<close> bytes; \<open>n\<close> bounds the writes of the caller.
\<close>

definition pending_bound :: "nat \<Rightarrow> nat" where
  "pending_bound n = 8192 * (2 * (n div 4117) + 2)"

definition buffers_ok :: "('i \<Rightarrow> bool) \<Rightarrow> nat \<Rightarrow> nat \<Rightarrow> ('i, 'r) vision_over \<Rightarrow> bool" where
  "buffers_ok J K n v \<longleftrightarrow>
     J (vs_inner v) \<and> uuid_fits (vs_padder v) \<and> length (vs_write_pending v) \<le> pending_bound n \<and>
     length (vs_read_raw v) \<le> 131090 \<and> length (vs_read_out v) \<le> 147474 + K"

locale bounded_stream = direct_stream S
  for S :: "'i stream_ops" +
  fixes J :: "'i \<Rightarrow> bool" and K :: nat
  assumes keeps: "J i \<Longrightarrow> does S i c j \<Longrightarrow> J j"
    and held_bound: "J i \<Longrightarrow> length (fst (so_take S i)) \<le> K"
begin

lemma keeps_ops:
  assumes "J i"
  shows "so_read S cap i = (p, j) \<Longrightarrow> J j" "so_write S d i = (q, j) \<Longrightarrow> J j" "so_flush S i = (c, j) \<Longrightarrow> J j"
    "so_shutdown S i = (c, j) \<Longrightarrow> J j" "J (so_open S i)" "J (so_stop S i)" "so_take S i = (b, j) \<Longrightarrow> J j"
    "so_read_direct S cap i = (p, j) \<Longrightarrow> J j" "so_write_direct S d i = (q, j) \<Longrightarrow> J j"
    "so_flush_direct S i = (c, j) \<Longrightarrow> J j" "so_shutdown_direct S i = (c, j) \<Longrightarrow> J j"
  using keeps [OF assms, of "CRead cap p"] keeps [OF assms, of "CWrite d q"] keeps [OF assms, of "CFlush c"]
    keeps [OF assms, of "CShutdown c"] keeps [OF assms, of COpen] keeps [OF assms, of CStop]
    keeps [OF assms, of "CTake b"] keeps [OF assms, of "CReadDirect cap p"] keeps [OF assms, of "CWriteDirect d q"]
    keeps [OF assms, of "CFlushDirect c"] keeps [OF assms, of "CShutdownDirect c"]
  by simp_all

lemma drain_shrinks:
  "J (vs_inner v) \<Longrightarrow> drain_on S v = (r, v') \<Longrightarrow>
     \<exists>i k. J i \<and> v' = v\<lparr>vs_inner := i, vs_write_pending := drop k (vs_write_pending v)\<rparr>"
proof (induction "length (vs_write_pending v)" arbitrary: v rule: less_induct)
  case less
  show ?case
  proof (cases "vs_write_pending v = []")
    case True
    then show ?thesis using less.prems
      by (intro exI [of _ "vs_inner v"] exI [of _ 0]) (simp add: drain_on.simps)
  next
    case False
    obtain q i where q: "so_write S (vs_write_pending v) (vs_inner v) = (q, i)" by fastforce
    have J: "J i" by (rule keeps_ops(2) [OF less.prems(1) q])
    show ?thesis
    proof (cases "\<exists>n. q = Ready (Inr n) \<and> 0 < n")
      case True
      then obtain n where n: "q = Ready (Inr n)" "0 < n" by blast
      let ?v = "v\<lparr>vs_inner := i, vs_write_pending := drop n (vs_write_pending v)\<rparr>"
      have "drain_on S ?v = (r, v')" using less.prems(2) False q n by (simp add: drain_on.simps [of S v])
      from less.hyps [OF _ _ this] n False J obtain j k where
        "J j" "v' = ?v\<lparr>vs_inner := j, vs_write_pending := drop k (vs_write_pending ?v)\<rparr>" by auto
      then show ?thesis by (intro exI [of _ j] exI [of _ "k + n"]) (simp add: add.commute)
    next
      case other: False
      have "v' = v\<lparr>vs_inner := i\<rparr>"
        using less.prems(2) False q other by (auto simp: drain_on.simps [of S v] split: poll.splits sum.splits if_splits)
      with J show ?thesis by (intro exI [of _ i] exI [of _ 0]) simp
    qed
  qed
qed

lemma settle_shrinks:
  assumes "J (vs_inner v)" and "settle_on S v = (r, v')"
  shows "\<exists>i k u. J i \<and> v' = v\<lparr>vs_inner := i, vs_write_pending := drop k (vs_write_pending v), vs_uplink_raw := u\<rparr>"
proof -
  obtain q w where d: "drain_on S v = (q, w)" by fastforce
  from drain_shrinks [OF assms(1) d] obtain i k where
    w: "J i" "w = v\<lparr>vs_inner := i, vs_write_pending := drop k (vs_write_pending v)\<rparr>" by blast
  have keep: "v' = w \<Longrightarrow> ?thesis"
    using w by (intro exI [of _ i] exI [of _ k] exI [of _ "vs_uplink_raw v"]) simp
  show ?thesis
  proof (cases "(\<exists>x. q = Ready (Inr x)) \<and> wants_direct (vs_padder w) \<and> \<not> vs_uplink_raw w")
    case False
    then have "v' = w" using assms(2) d by (auto simp: settle_on_def split: poll.splits sum.splits if_splits)
    then show ?thesis by (rule keep)
  next
    case True
    obtain c j where f: "so_flush S i = (c, j)" by fastforce
    have "J j" by (rule keeps_ops(3) [OF w(1) f])
    moreover have "v' = w\<lparr>vs_inner := j\<rparr> \<or> v' = w\<lparr>vs_inner := j, vs_uplink_raw := True\<rparr>"
      using assms(2) d True f w(2) by (auto simp: settle_on_def split: poll.splits sum.splits)
    ultimately show ?thesis
      by (elim disjE; intro exI [of _ j] exI [of _ k] exI [of _ "vs_uplink_raw v'"]) (simp_all add: w(2))
  qed
qed

lemma settle_ok:
  assumes "buffers_ok J K n v" and "settle_on S v = (r, v')"
  shows "buffers_ok J K n v'" "vs_padder v' = vs_padder v"
proof -
  have "J (vs_inner v)" using assms(1) by (simp add: buffers_ok_def)
  from settle_shrinks [OF this assms(2)] obtain i k u where
    "J i" "v' = v\<lparr>vs_inner := i, vs_write_pending := drop k (vs_write_pending v), vs_uplink_raw := u\<rparr>" by blast
  with assms(1) show "buffers_ok J K n v'" "vs_padder v' = vs_padder v"
    by (auto simp: buffers_ok_def)
qed

lemma inner_ok: "buffers_ok J K n v \<Longrightarrow> J i \<Longrightarrow> buffers_ok J K n (v\<lparr>vs_inner := i\<rparr>)"
  by (simp add: buffers_ok_def)

lemma flush_ok:
  assumes "buffers_ok J K n v" and "flush_on S v = (r, v')"
  shows "buffers_ok J K n v'"
proof -
  obtain q w where s: "settle_on S v = (q, w)" by fastforce
  have w: "buffers_ok J K n w" by (rule settle_ok(1) [OF assms(1) s])
  then have J: "J (vs_inner w)" by (simp add: buffers_ok_def)
  show ?thesis using assms(2) s w
    by (auto simp: flush_on_def split: poll.splits sum.splits prod.splits if_splits
        intro!: inner_ok dest: keeps_ops(3,10) [OF J])
qed

lemma shutdown_ok:
  assumes "buffers_ok J K n v" and "shutdown_on S v = (r, v')"
  shows "buffers_ok J K n v'"
proof -
  obtain q w where s: "settle_on S v = (q, w)" by fastforce
  have w: "buffers_ok J K n w" by (rule settle_ok(1) [OF assms(1) s])
  then have J: "J (vs_inner w)" by (simp add: buffers_ok_def)
  show ?thesis using assms(2) s w
    by (auto simp: shutdown_on_def split: poll.splits sum.splits prod.splits if_splits
        intro!: inner_ok dest: keeps_ops(4,11) [OF J])
qed

lemma write_ok:
  assumes "buffers_ok J K n v" and "write_on S rr b v = (r, v')" and "length b \<le> n"
  shows "buffers_ok J K n v'"
proof -
  obtain q w where s: "settle_on S v = (q, w)" by fastforce
  have w: "buffers_ok J K n w" by (rule settle_ok(1) [OF assms(1) s])
  then have J: "J (vs_inner w)" by (simp add: buffers_ok_def)
  show ?thesis
  proof (cases "\<exists>x. q = Ready (Inr x)")
    case False
    then have "v' = w" using assms(2) s by (auto simp: write_on_def split: poll.splits sum.splits)
    with w show ?thesis by simp
  next
    case True
    then have s1: "settle_on S v = (Ready (Inr ()), w)" using s by auto
    then have empty: "vs_write_pending w = []" by (rule settle_on_done)
    show ?thesis
    proof (cases "padding_done (vs_padder w)")
      case True
      have t: "buffers_ok J K n (w\<lparr>vs_traffic := t\<rparr>)" for t using w by (simp add: buffers_ok_def)
      show ?thesis
        using assms(2) s1 True t
        by (auto simp: write_on_def Let_def split: prod.splits if_splits
            intro!: inner_ok dest: keeps_ops(2,9) [OF J])
    next
      case False
      obtain p ts out r1 where p: "pad_into rr (vs_rng w) (vs_padder w) b (vs_traffic w) [] = (p, ts, out, r1)"
        by (metis prod_cases4)
      let ?w = "w\<lparr>vs_padder := p, vs_traffic := ts, vs_write_pending := out, vs_rng := r1\<rparr>"
      have f: "uuid_fits (vs_padder w)" "pd_padding (vs_padder w)"
        using w False by (simp_all add: buffers_ok_def padding_done_def)
      have "length out \<le> pending_bound (length b)"
        using pad_into_fits(1) [OF p f] by (simp add: pending_bound_def)
      also have "\<dots> \<le> pending_bound n"
        using div_le_mono [OF assms(3), of 4117] by (simp add: pending_bound_def)
      finally have ok: "buffers_ok J K n ?w"
        using w pad_into_fits(2) [OF p f] by (simp add: buffers_ok_def)
      obtain q2 w2 where s2: "settle_on S ?w = (q2, w2)" by fastforce
      have "v' = w2"
        using assms(2) s1 False p s2 empty by (auto simp: write_on_def Let_def split: poll.splits sum.splits)
      with settle_ok(1) [OF ok s2] show ?thesis by simp
    qed
  qed
qed

lemma absorb_ok:
  assumes "buffers_ok J K n v" and "absorb_on S d v = (None, v')" and "vs_read_out v = []" and "length d \<le> 16384"
  shows "buffers_ok J K n v'"
proof -
  have v: "J (vs_inner v)" "length (vs_read_raw v @ d) \<le> 147474" using assms(1,4) by (auto simp: buffers_ok_def)
  obtain x h b where f: "feed (vs_header v) (vs_read_raw v @ d) = (x, h, b)" by (metis prod_cases3)
  consider (more) "x = Inr False" | (go) "x = Inr True" using assms(2) f by (cases x) (auto simp: absorb_on_def Let_def)
  then show ?thesis
  proof cases
    case more
    have "length b \<le> 256" using feed_short [OF f [unfolded more]] .
    then show ?thesis using assms(1,2) f more by (auto simp: absorb_on_def Let_def buffers_ok_def)
  next
    case go
    have b: "length b \<le> 147474" using feed_rest [OF f] v(2) by linarith
    obtain res u rest out where u: "unpad (vs_unpadder v) b [] = (res, u, rest, out)" by (metis prod_cases4)
    obtain y where y: "res = Inr y"
      using assms(2,3) f go u by (cases res) (auto simp: absorb_on_def Let_def)
    have l: "length rest \<le> 131090" "length out \<le> 147474" using unpad_leaves [OF u [unfolded y]] b by auto
    obtain k j where t: "so_take S (vs_inner v) = (k, j)" by fastforce
    have tk: "length k \<le> K" using held_bound [OF v(1)] t by simp
    obtain k2 j2 where t2: "so_take S (so_stop S (vs_inner v)) = (k2, j2)" by fastforce
    have tk2: "length k2 \<le> K" using held_bound [OF keeps_ops(6) [OF v(1)]] t2 by simp
    note J = keeps_ops(6,7) [OF v(1)] keeps_ops(7) [OF keeps_ops(6) [OF v(1)]]
    show ?thesis
      using assms(1,2,3) f go u y l tk tk2 J(2) [OF t] J(3) [OF t2] J(1)
      by (auto simp: absorb_on_def Let_def buffers_ok_def t t2 split: if_splits)
  qed
qed

end

lemma bounded_read:
  assumes "read_on S cap v = Some z"
  shows "bounded_stream S J K \<and> buffers_ok J K n v \<and> \<not> failed (fst z) \<longrightarrow> buffers_ok J K n (snd z)"
proof (induction S cap v z rule: read_on.raw_induct)
  case 2
  show ?case by (rule assms)
next
  case (1 rec S cap v z)
  show ?case
  proof
    assume a: "bounded_stream S J K \<and> buffers_ok J K n v \<and> \<not> failed (fst z)"
    then have bs: "bounded_stream S J K" and ok: "buffers_ok J K n v" and nf: "\<not> failed (fst z)" by auto
    note keeps = bounded_stream.keeps_ops [OF bs]
    have J: "J (vs_inner v)" using ok by (simp add: buffers_ok_def)
    consider (out) "vs_read_out v \<noteq> []" | (dir) "vs_read_out v = []" "is_direct (vs_unpadder v)"
      | (plain) "vs_read_out v = []" "\<not> is_direct (vs_unpadder v)" "is_done (vs_unpadder v) \<and> vs_read_raw v = []"
      | (pad) "vs_read_out v = []" "\<not> is_direct (vs_unpadder v)" "\<not> (is_done (vs_unpadder v) \<and> vs_read_raw v = [])"
      by blast
    then show "buffers_ok J K n (snd z)"
    proof cases
      case out
      then show ?thesis using 1(2) ok by (auto simp: Let_def buffers_ok_def)
    next
      case dir
      obtain q i where q: "so_read_direct S cap (vs_inner v) = (q, i)" by fastforce
      then show ?thesis using 1(2) dir ok keeps(8) [OF J q] by (auto simp: buffers_ok_def)
    next
      case plain
      obtain q i where q: "so_read S cap (vs_inner v) = (q, i)" by fastforce
      then show ?thesis using 1(2) plain ok keeps(1) [OF J q]
        by (auto simp: buffers_ok_def split: poll.splits sum.splits)
    next
      case pad
      obtain q i where q: "so_read S read_chunk (so_open S (vs_inner v)) = (q, i)" by fastforce
      have Ji: "J i" by (rule keeps(1) [OF keeps(5) [OF J] q])
      have oki: "buffers_ok J K n (v\<lparr>vs_inner := i\<rparr>)" using ok Ji by (simp add: buffers_ok_def)
      show ?thesis
      proof (cases "\<exists>d u. q = Ready (Inr d) \<and> d \<noteq> [] \<and> absorb_on S d (v\<lparr>vs_inner := i\<rparr>) = (None, u)")
        case True
        then obtain d u where u: "q = Ready (Inr d)" "d \<noteq> []" "absorb_on S d (v\<lparr>vs_inner := i\<rparr>) = (None, u)" by blast
        have "length (got q) \<le> read_chunk"
          using direct_stream.read_fits [of S read_chunk "so_open S (vs_inner v)"] bs q
          by (simp add: bounded_stream_def)
        then have "length d \<le> 16384" using u(1) by (simp add: read_chunk_def)
        then have "buffers_ok J K n u"
          using bounded_stream.absorb_ok [OF bs oki u(3)] pad(1) by simp
        moreover have "rec S cap u = Some z" using 1(2) pad q u by auto
        ultimately show ?thesis using 1(1) bs nf by blast
      next
        case False
        then show ?thesis using 1(2) pad q oki nf
          by (auto split: prod.splits poll.splits sum.splits if_splits option.splits)
      qed
    qed
  qed
qed

section \<open>Sessions\<close>

context bounded_stream
begin

lemma step_ok:
  assumes "step_on S rr (v, sent, out, ok) e = Some (v', sent', out', True)" and "buffers_ok J K n v"
    and "write_within n e"
  shows "buffers_ok J K n v' \<and> ok"
proof (cases e)
  case (OpWrite b)
  then show ?thesis using assms write_ok [OF assms(2), of rr b] by (auto split: prod.splits)
next
  case OpFlush
  then show ?thesis using assms flush_ok [OF assms(2)] by (auto split: prod.splits)
next
  case OpShutdown
  then show ?thesis using assms shutdown_ok [OF assms(2)] by (auto split: prod.splits)
next
  case (OpRead cap)
  then obtain q where q: "read_on S cap v = Some (q, v')" "ok" "\<not> failed q" using assms(1) by auto
  then show ?thesis using bounded_read [OF q(1), of J K n] bounded_stream_axioms assms(2)
    by (auto simp: bounded_stream_def direct_stream_axioms)
qed

lemma session_ok:
  "session_on S rr (v, sent, out, ok) es = Some (v', sent', out', True) \<Longrightarrow> buffers_ok J K n v \<Longrightarrow>
     list_all (write_within n) es \<Longrightarrow> buffers_ok J K n v' \<and> ok"
proof (induction es arbitrary: v sent out ok)
  case (Cons e es)
  from Cons.prems(1) obtain v1 s1 o1 ok1 where st: "step_on S rr (v, sent, out, ok) e = Some (v1, s1, o1, ok1)"
    "session_on S rr (v1, s1, o1, ok1) es = Some (v', sent', out', True)"
    by (auto simp: bind_eq_Some_conv)
  have e: "write_within n e" "list_all (write_within n) es" using Cons.prems(3) by simp_all
  show ?case
  proof (cases ok1)
    case True
    from step_ok [OF st(1) [unfolded eqTrueI [OF True]] Cons.prems(2) e(1)]
    have "buffers_ok J K n v1" ok by simp_all
    with Cons.IH [OF st(2) _ e(2)] show ?thesis by simp
  next
    case False
    with st(2) have "session_on S rr (v1, s1, o1, False) es = Some (v', sent', out', True)" by simp
    from session_failed [OF this] show ?thesis by simp
  qed
qed simp

end

section \<open>What the gate holds\<close>

text \<open>The gate reads ahead only when its buffer is empty or shorter than a record header.\<close>

lemma poll_fill_buf: "poll_fill g = (r, g') \<Longrightarrow> length (g_buf g') \<le> length (g_buf g) + 16384"
  using src_read_cap [of "16 * 1024" "g_src g"]
  by (auto simp: poll_fill_def split: prod.splits poll.splits sum.splits)

lemma hand_over_buf: "hand_over cap n g = (d, g') \<Longrightarrow> length (g_buf g') \<le> length (g_buf g)"
  by (auto simp: hand_over_def Let_def)

lemma gate_loop_buf: "gate_loop cap g = (r, g') \<Longrightarrow> length (g_buf g) \<le> 16388 \<Longrightarrow> length (g_buf g') \<le> 16388"
proof (induction cap g rule: gate_loop.induct)
  case (1 cap g)
  obtain p g1 where f: "poll_fill g = (p, g1)" by fastforce
  note f1 = poll_fill_buf [OF f]
  show ?case
  proof (cases "0 < g_remaining g")
    case True
    have h: "length (g_buf (snd (hand_over cap n k))) \<le> length (g_buf k)" for n k
      using hand_over_buf [of cap n k] by (cases "hand_over cap n k") auto
    show ?thesis
      using "1.prems" True f f1 h [of "g_remaining g" g] h [of "g_remaining g1" g1]
      by (subst (asm) gate_loop.simps) (auto simp: Let_def split: prod.splits if_splits poll.splits sum.splits)
  next
    case False
    show ?thesis
    proof (cases "\<not> g_open g \<or> length (g_buf g) < tls_record_header_len")
      case True
      then show ?thesis
        using "1.prems" False f f1 "1.IH"(1) [OF False _ _ f [symmetric]]
        by (subst (asm) gate_loop.simps)
          (auto simp: tls_record_header_len_def split: if_splits poll.splits sum.splits)
    next
      case go: False
      then show ?thesis using "1.prems" "1.IH"(2) [OF False] False
        by (subst (asm) gate_loop.simps) auto
    qed
  qed
qed

lemma gate_poll_read_buf:
  "gate_poll_read cap g = (r, g') \<Longrightarrow> length (g_buf g) \<le> 16388 \<Longrightarrow> length (g_buf g') \<le> 16388"
  by (auto simp: gate_poll_read_def split: if_splits prod.splits dest: gate_loop_buf hand_over_buf)

lemma gate_reads_buf:
  "run gate_step (g, out) (map GRead caps) = (g', out') \<Longrightarrow> length (g_buf g) \<le> 16388 \<Longrightarrow> length (g_buf g') \<le> 16388"
proof (induction caps arbitrary: g out)
  case (Cons cap caps)
  obtain r g1 where r: "gate_poll_read cap g = (r, g1)" by fastforce
  from Cons.IH [of g1] Cons.prems r gate_poll_read_buf [OF r] show ?case by simp
qed simp

definition gate_held :: "'t tls_stream \<Rightarrow> bool" where
  "gate_held s \<longleftrightarrow> length (g_buf (gs_gate (ts_io s))) \<le> 16388"

context tls_library
begin

lemma gate_held_keeps:
  assumes "gate_held s" and "does (tls_ops L) s c s'"
  shows "gate_held s'"
proof (cases c)
  case (CRead cap r)
  then have t: "tl_read L cap (ts_conn s) (ts_io s) = (r, ts_conn s', ts_io s')"
    using assms(2) by (auto simp: through_tls_iff)
  have "read_laws L V" using laws by (simp add: tls_laws_def)
  from read_lawsD [OF this t] obtain caps where
    "run gate_step (gs_gate (ts_io s), tv_in V (ts_conn s)) (map GRead caps) = (gs_gate (ts_io s'), tv_in V (ts_conn s'))"
    by blast
  from gate_reads_buf [OF this] assms(1) show ?thesis by (simp add: gate_held_def)
next
  case (CReadDirect cap r)
  then show ?thesis using assms
    by (auto simp: gate_held_def tls_read_direct_def gate_read_direct_def split: prod.splits)
next
  case (CTake b)
  then show ?thesis using assms
    by (auto simp: gate_held_def tls_take_buffered_raw_def take_buffered_def)
qed (use assms write_keeps_reading [OF laws _ assms(2)] in
  \<open>auto simp: gate_held_def tls_open_record_gate_def tls_stop_record_gate_def gate_do_open_def stop_gating_def\<close>)

lemma gate_held_take: "gate_held s \<Longrightarrow> length (fst (so_take (tls_ops L) s)) \<le> 16388"
  by (simp add: gate_held_def tls_take_buffered_raw_def take_buffered_def)

end

context tls_library
begin

lemma gate_bounded: "bounded_stream (tls_ops L) gate_held 16388"
  by (intro bounded_stream.intro bounded_stream_axioms.intro tls.direct_stream_axioms)
    (rule gate_held_keeps gate_held_take; assumption)+

end

sublocale tls_library \<subseteq> held: bounded_stream "tls_ops L" gate_held 16388
  by (rule gate_bounded)

section \<open>From the first write on\<close>

context bounded_stream
begin

lemma trace_keeps: "trace S i tr j \<Longrightarrow> J i \<Longrightarrow> J j"
  by (induction rule: trace.induct) (auto intro: keeps)

lemma first_write_ok:
  assumes "write_first_on S rr header payload (vision_client x uuid r) = Some (Inr (), v0)"
    and "J x" and "length uuid = 16"
  shows "buffers_ok J K n v0"
proof -
  let ?v = "vision_client x uuid r"
  obtain frame p ts g where f: "first_frame rr payload ?v = (frame, p, ts, g)" by (metis prod_cases4)
  obtain tr where "mirrors S script_ops ?v tr v0 (write_first_on script_ops rr header payload) (\<lambda>y. Some (Inr (), y))"
    using write_first_mirrors [OF assms(1), of script_ops] by blast
  then have J: "J (vs_inner v0)"
    using trace_keeps assms(2) by (auto simp: mirrors_def vision_client_def vision_new_def)
  have v0: "\<exists>i. v0 = ?v\<lparr>vs_padder := p, vs_traffic := ts, vs_rng := g, vs_inner := i\<rparr>"
    using assms(1) by (auto simp: write_first_on_eq [OF f] split: option.splits sum.splits)
  have u: "uuid_fits (vs_padder ?v)" "pd_padding (vs_padder ?v)"
    using assms(3) by (simp_all add: vision_client_def vision_new_def padder_new_def uuid_fits_def)
  have "uuid_fits p"
  proof (cases "payload = []")
    case True
    then show ?thesis using f by (auto simp: first_frame_def camouflage_def uuid_fits_def Let_def split: prod.splits)
  next
    case False
    then show ?thesis using f u
      by (auto simp: first_frame_def pad_def Let_def split: prod.splits dest: pad_into_fits(2))
  qed
  with v0 J show ?thesis by (auto simp: buffers_ok_def vision_client_def vision_new_def)
qed

end

end
