(* ===== verification/DriverModel.thy ===== *)
theory DriverModel
  imports OutboundModel Socks5 BufferBounds
begin

text \<open>
  \<^verbatim>\<open>src/driver.rs\<close>: one connection from the SOCKS5 handshake to the relay, and the accept
  loop with its connection limit.
\<close>

section \<open>One connection\<close>

text \<open>
  The surroundings of a connection: whether \<^verbatim>\<open>set_nodelay\<close> works, those of \<^verbatim>\<open>open\<close>, and
  the events while it is relayed.
\<close>

record ('c, 't, 'r) client_env =
  ce_nodelay :: "io_error + unit"
  ce_open :: "('c, 't, 'r) open_env"
  ce_relay :: "(nat \<times> conn_event) list"

definition relay_timeouts :: "timeout_cfg \<Rightarrow> timeouts" where
  "relay_timeouts to =
     \<lparr>tm_idle = unat (idle_ms to) * ms, tm_half_close = unat (half_close_ms to) * ms\<rparr>"

text \<open>
  The result (\<open>None\<close> while the connection is still served), the client's side after the
  handshake and the reply, and, once the upstream is open, the relay and the upstream.
\<close>

definition handle_connection ::
  "'t tls_lib \<Rightarrow> crypto \<Rightarrow> (tls_error \<Rightarrow> bytes) \<Rightarrow> (nat \<Rightarrow> unit + bytes) \<Rightarrow> rustls \<Rightarrow> 'r rng
     \<Rightarrow> ('c, 't, 'r) client_env \<Rightarrow> config \<Rightarrow> conn
     \<Rightarrow> (rerror + unit) option \<times> conn \<times> (relay \<times> ('t tls_stream, 'r) vision_over) option" where
  "handle_connection L cr tt fb new_conn rr env cfg client =
     (case ce_nodelay env of
        Inl e \<Rightarrow> (Some (Inl (IO e)), client, None)
      | Inr _ \<Rightarrow>
          (case handshake client of
             (Inl e, client) \<Rightarrow> (Some (Inl e), client, None)
           | (Inr target, client) \<Rightarrow>
               (case reply True client of
                  (Inl e, client) \<Rightarrow> (Some (Inl e), client, None)
                | (Inr _, client) \<Rightarrow>
                    (case open_outbound L cr tt fb new_conn rr (ce_open env) (cfg_outbound cfg)
                            (cfg_timeout cfg) target of
                       (None, _) \<Rightarrow> (None, client, None)
                     | (Some (Inl e), _) \<Rightarrow> (Some (Inl e), client, None)
                     | (Some (Inr upstream), _) \<Rightarrow>
                         let t = relay_timeouts (cfg_timeout cfg) in
                         (case conn_run t (tls_ops L) rr (relay_start t, upstream) (ce_relay env) of
                            None \<Rightarrow> (None, client, None)
                          | Some (r, upstream) \<Rightarrow> (rl_result r, client, Some (r, upstream)))))))"

text \<open>What the task of a connection logs about its result.\<close>

datatype log_line = Silent | Debug rerror | Warn rerror

fun report :: "rerror + unit \<Rightarrow> log_line" where
  "report (Inr _) = Silent"
| "report (Inl e) = (if is_peer_gone e then Debug e else Warn e)"

section \<open>The accept loop\<close>

text \<open>
  Where \<^verbatim>\<open>serve\<close> waits: for a permit, for a connection (holding the permit), for the second
  after a failed accept (still holding it). \<open>sv_free\<close> are the free permits of the semaphore,
  \<open>sv_active\<close> the running connections, each of which holds one.
\<close>

datatype serve_phase = Acquiring | Accepting | Sleeping

record serve =
  sv_limit :: nat
  sv_free :: nat
  sv_saturated :: bool
  sv_phase :: serve_phase
  sv_active :: nat
  sv_warnings :: nat

datatype serve_event = Granted | Accepted | AcceptFailed | Slept1s | ConnectionEnds

text \<open>The head of the loop, up to \<^verbatim>\<open>acquire_owned\<close>.\<close>

definition serve_top :: "serve \<Rightarrow> serve" where
  "serve_top s =
     (if 0 < sv_limit s then
        (let full = sv_free s = 0 in
         s\<lparr>sv_warnings := sv_warnings s + (if full \<and> \<not> sv_saturated s then 1 else 0),
           sv_saturated := full, sv_phase := Acquiring\<rparr>)
      else s\<lparr>sv_phase := Acquiring\<rparr>)"

definition serve_start :: "nat \<Rightarrow> serve" where
  "serve_start limit =
     serve_top \<lparr>sv_limit = limit, sv_free = limit, sv_saturated = False, sv_phase = Acquiring,
       sv_active = 0, sv_warnings = 0\<rparr>"

definition release :: "serve \<Rightarrow> serve" where
  "release s = (if 0 < sv_limit s then s\<lparr>sv_free := sv_free s + 1\<rparr> else s)"

text \<open>An event that cannot happen in the phase leaves the state as it is.\<close>

fun serve_step :: "serve \<Rightarrow> serve_event \<Rightarrow> serve" where
  "serve_step s Granted =
     (if sv_phase s = Acquiring then
        (if sv_limit s = 0 then s\<lparr>sv_phase := Accepting\<rparr>
         else if 0 < sv_free s then s\<lparr>sv_free := sv_free s - 1, sv_phase := Accepting\<rparr>
         else s)
      else s)"
| "serve_step s Accepted =
     (if sv_phase s = Accepting then serve_top (s\<lparr>sv_active := sv_active s + 1\<rparr>) else s)"
| "serve_step s AcceptFailed = (if sv_phase s = Accepting then s\<lparr>sv_phase := Sleeping\<rparr> else s)"
| "serve_step s Slept1s = (if sv_phase s = Sleeping then serve_top (release s) else s)"
| "serve_step s ConnectionEnds =
     (if 0 < sv_active s then release (s\<lparr>sv_active := sv_active s - 1\<rparr>) else s)"

section \<open>Facts about the loop\<close>

definition serve_inv :: "nat \<Rightarrow> serve \<Rightarrow> bool" where
  "serve_inv limit s \<longleftrightarrow>
     sv_limit s = limit \<and>
     (0 < limit \<longrightarrow> sv_free s + sv_active s + (if sv_phase s = Acquiring then 0 else 1) = limit)"

lemma serve_top_inv:
  "sv_limit s = limit \<Longrightarrow> 0 < limit \<longrightarrow> sv_free s + sv_active s = limit \<Longrightarrow> serve_inv limit (serve_top s)"
  by (simp add: serve_inv_def serve_top_def Let_def)

lemma serve_step_inv: "serve_inv limit s \<Longrightarrow> serve_inv limit (serve_step s ev)"
  by (cases ev) (auto simp: release_def serve_inv_def serve_top_def Let_def split: if_splits)

interpretation serving: invariant_machine serve_step "serve_inv limit" for limit
  by unfold_locales (rule serve_step_inv)

lemma serve_start_inv: "serve_inv limit (serve_start limit)"
  unfolding serve_start_def by (rule serve_top_inv) simp_all

section \<open>Properties\<close>

text \<open>
  C25: The limit holds and costs nothing else: with a limit, never more connections run than
  it allows, fewer while the loop is in accept; below the limit the loop can always get its
  permit, and it takes none for good: permits, connections and the accept in progress always
  add up to the limit. Without a limit the loop never waits for one.
\<close>

theorem connection_limit:
  "let s = run serve_step (serve_start limit) evs in
   (if limit = 0 then sv_phase (serve_step s Granted) \<noteq> Acquiring
    else sv_free s + sv_active s + (if sv_phase s = Acquiring then 0 else 1) = limit \<and>
      sv_active s \<le> limit \<and>
      (sv_active s = limit \<or> sv_phase (serve_step s Granted) \<noteq> Acquiring) \<and>
      (sv_phase s = Acquiring \<or> sv_active s < limit))"
proof -
  have "serve_inv limit (run serve_step (serve_start limit) evs)"
    by (rule serving.run_inv [OF serve_start_inv])
  then show ?thesis by (cases "limit = 0") (auto simp: serve_inv_def Let_def)
qed

theorem connection_limit_witness:
  "let s = run serve_step (serve_start 1) [Granted, Accepted, Granted, ConnectionEnds] in
   sv_active s = 0 \<and> sv_warnings s = 1 \<and> sv_free s + sv_active s = 1 \<and> sv_phase (serve_step s Granted) \<noteq> Acquiring"
proof -
  let ?s = "run serve_step (serve_start 1) [Granted, Accepted, Granted, ConnectionEnds]"
  have "sv_active ?s = 0" "sv_warnings ?s = 1" "sv_phase ?s = Acquiring"
    by (simp_all add: serve_start_def serve_top_def release_def Let_def)
  with connection_limit [of 1 "[Granted, Accepted, Granted, ConnectionEnds]"] show ?thesis
    by (simp add: Let_def del: run_Cons)
qed

text \<open>What has happened when a connection is relayed.\<close>

lemma handled:
  assumes "handle_connection L cr tt fb new_conn rr env cfg client = (res, client', Some (r, upstream))"
    and "c_wres client = []" and "config_wf cfg"
  obtains methods rsv tg rest tcp tls payload vs where
    "c_in client = greeting methods @ request rsv tg @ rest" "c_in client' = rest" "target_ok tg"
    "c_out client' = c_out client @ [5, 0] @ [5, 0, 0, 1, 0, 0, 0, 0, 0, 0]"
    "connect cr tt fb new_conn (oe_reality (ce_open env) tcp) (out_reality (cfg_outbound cfg))
       (handshake_ms (cfg_timeout cfg)) = Inr tls"
    "read_first_payload (oe_client (ce_open env)) first_payload_wait = Inr payload"
    "write_first_on (tls_ops L) rr (encode_request_header (vl_uuid (out_vless (cfg_outbound cfg))) required_flow tg)
       payload (vision_client (start_gated tls) (vl_uuid (out_vless (cfg_outbound cfg))) (oe_rng (ce_open env)))
       = Some (Inr (), vs)"
    "conn_run (relay_timeouts (cfg_timeout cfg)) (tls_ops L) rr (relay_start (relay_timeouts (cfg_timeout cfg)), vs)
       (ce_relay env) = Some (r, upstream)"
    "res = rl_result r" "length (vl_uuid (out_vless (cfg_outbound cfg))) = 16"
proof -
  obtain tg c1 c2 acts vs where h: "handshake client = (Inr tg, c1)" "reply True c1 = (Inr (), c2)" "client' = c2"
    and o: "open_outbound L cr tt fb new_conn rr (ce_open env) (cfg_outbound cfg) (cfg_timeout cfg) tg
      = (Some (Inr vs), acts)"
    and run: "conn_run (relay_timeouts (cfg_timeout cfg)) (tls_ops L) rr
        (relay_start (relay_timeouts (cfg_timeout cfg)), vs) (ce_relay env) = Some (r, upstream)" "res = rl_result r"
    using assms(1) by (auto simp: handle_connection_def Let_def split: sum.splits prod.splits option.splits)
  obtain methods rsv rest where s: "c_in client = greeting methods @ request rsv tg @ rest" "target_ok tg"
    "c1 = client\<lparr>c_in := rest, c_out := c_out client @ [5, 0]\<rparr>"
    using h(1) unfolding handshake_iff [OF assms(2)] by blast
  have c2: "c2 = c1\<lparr>c_out := c_out c1 @ [5, 0, 0, 1, 0, 0, 0, 0, 0, 0]\<rparr>"
    using h(2) s(3) assms(2) by (auto simp: reply_def write_all_def split: prod.splits)
  have out: "c_in client' = rest" "c_out client' = c_out client @ [5, 0] @ [5, 0, 0, 1, 0, 0, 0, 0, 0, 0]"
    using s(3) c2 h(3) by simp_all
  have len: "length (vl_uuid (out_vless (cfg_outbound cfg))) = 16" using assms(3) by (simp add: config_wf_def)
  show thesis
    by (rule open_Inr [OF o], rule that [OF s(1) out(1) s(2) out(2) _ _ _ run len])
qed

lemma start_linked: "linked p (relay_start t) p [] True"
  by (simp add: linked_def relay_start_def watchdog_def Let_def)

section \<open>Properties of a connection\<close>

text \<open>
  C1: A connection end to end. While a connection is relayed and nothing has failed, at every
  moment: the server decrypts from the socket - with what is still pending - the VLESS request
  with the client's target and frames, and what these deframe to, with the raw bytes behind the
  ciphertext, is exactly the first payload - what the client's socket gave in one read within half a
  second - and everything read from the client since, but for what the pump has in hand; and once
  the pump has flushed, and from then on until it writes again, no frame is pending. And whenever
  the server sends records \<open>rs\<close>, the last of which brings the switch, and then \<open>raw\<close> around TLS, the bytes
  written to the client, those the pump has in hand and those the stream still holds are a
  beginning of the data in the records followed by \<open>raw\<close>, of which after the switch only the bytes
  still in the socket are missing.
\<close>

theorem connection_end_to_end:
  assumes "handle_connection L cr tt fb new_conn rr env cfg client = (res, client', Some (r, upstream))"
    and "c_wres client = []" and "config_wf cfg" and "tls_laws L V" and "\<forall>e. res \<noteq> Some (Inl e)"
    and "\<And>tcp tls. connect cr tt fb new_conn (oe_reality (ce_open env) tcp) (out_reality (cfg_outbound cfg))
           (handshake_ms (cfg_timeout cfg)) = Inr tls \<Longrightarrow> fresh_stream V tls"
  shows "\<exists>methods rsv tg rest tcp tls payload c bare frames u y.
    c_in client = greeting methods @ request rsv tg @ rest \<and> c_in client' = rest \<and>
    c_out client' = c_out client @ [5, 0] @ [5, 0, 0, 1, 0, 0, 0, 0, 0, 0] \<and>
    connect cr tt fb new_conn (oe_reality (ce_open env) tcp) (out_reality (cfg_outbound cfg))
      (handshake_ms (cfg_timeout cfg)) = Inr tls \<and>
    (case oe_client (ce_open env) 500 of
       None \<Rightarrow> payload = [] | Some (Inr d) \<Rightarrow> payload = take 8171 d | Some (Inl _) \<Rightarrow> False) \<and>
    (let w = wh_sent (gs_out (ts_io (vs_inner upstream))) in
     if vs_uplink_raw upstream then w = c @ bare
     else c = w @ tv_unsent V (ts_conn (vs_inner upstream)) \<and> bare = []) \<and>
    decode_request (tv_peer V c @ vs_write_pending upstream)
      = Some (vl_uuid (out_vless (cfg_outbound cfg)), required_flow, tg, frames) \<and>
    unpad unpadder_new frames [] = (Inr (), u, [], y) \<and>
    y @ bare @ in_hand (rl_pump r Up) = payload @ rl_read r Up \<and>
    (rl_pump r Up \<in> {Reading, Closing, Returned} \<longrightarrow> vs_write_pending upstream = []) \<and>
    (\<forall>rs raw. gate_stream (gs_gate (ts_io tls)) = concat rs @ raw \<and> whole rs \<and>
       turns_direct (tv_open V rs) \<and> \<not> turns_direct (tv_open V (butlast rs)) \<longrightarrow>
       (\<exists>left. rl_written r Down @ in_hand (rl_pump r Down) @ vs_read_out upstream @ left
            = deframed (tv_open V rs) @ raw \<and>
          (is_direct (vs_unpadder upstream) \<longrightarrow> left = content (g_src (gs_gate (ts_io (vs_inner upstream)))))))"
proof (rule handled [OF assms(1-3)])
  fix methods rsv tg rest tcp tls payload vs
  let ?uuid = "vl_uuid (out_vless (cfg_outbound cfg))" and ?t = "relay_timeouts (cfg_timeout cfg)"
  assume h: "c_in client = greeting methods @ request rsv tg @ rest" "target_ok tg" "c_in client' = rest"
    "c_out client' = c_out client @ [5, 0] @ [5, 0, 0, 1, 0, 0, 0, 0, 0, 0]"
    and read: "read_first_payload (oe_client (ce_open env)) first_payload_wait = Inr payload"
    and conn: "connect cr tt fb new_conn (oe_reality (ce_open env) tcp) (out_reality (cfg_outbound cfg))
       (handshake_ms (cfg_timeout cfg)) = Inr tls"
    and w: "write_first_on (tls_ops L) rr (encode_request_header ?uuid required_flow tg)
       payload (vision_client (start_gated tls) ?uuid (oe_rng (ce_open env))) = Some (Inr (), vs)"
    and run: "conn_run ?t (tls_ops L) rr (relay_start ?t, vs) (ce_relay env) = Some (r, upstream)" "res = rl_result r"
    and len: "length ?uuid = 16"
  have "flushed_up (relay_start ?t) vs"
    using write_first_flushed [OF w assms(4)] by (simp add: flushed_up_def vision_client_def vision_new_def)
  from conn_run_flushed [OF run(1) this]
  have flushed: "rl_pump r Up \<in> {Reading, Closing, Returned} \<longrightarrow> vs_write_pending upstream = []"
    by (simp only: flushed_up_def)
  have fresh: "fresh_stream V tls" by (rule assms(6) [OF conn])
  have first: "case oe_client (ce_open env) 500 of
      None \<Rightarrow> payload = [] | Some (Inr d) \<Rightarrow> payload = take 8171 d | Some (Inl _) \<Rightarrow> False"
    using read by (auto simp: read_first_payload_def first_payload_wait_def const_defs split: option.splits sum.splits)
  from direct_stream.conn_run_splits [OF tls_stream_contract [OF assms(4)] run(1) start_linked relay_start_data]
  obtain ops evs sent out ok where
    s: "session_on (tls_ops L) rr (vs, payload, [], True) ops = Some (upstream, sent, out, ok)"
      "r = run (relay_step ?t) (relay_start ?t) evs" "linked payload r sent out ok" by blast
  have ok: "ok" "payload @ rl_written r Up = sent" "rl_read r Down = out"
    using s(3) assms(5) run(2) by (auto simp: linked_def)
  have data: "rl_written r d @ in_hand (rl_pump r d) = rl_read r d" for d
    using relay_data.run_inv [OF relay_start_data, of ?t ?t evs] by (simp add: s(2) data_inv_def)
  note s1 = s(1) [unfolded eqTrueI [OF ok(1)]]
  obtain c bare frames u y where up: "if vs_uplink_raw upstream then wh_sent (gs_out (ts_io (vs_inner upstream))) = c @ bare
      else c = wh_sent (gs_out (ts_io (vs_inner upstream))) @ tv_unsent V (ts_conn (vs_inner upstream)) \<and> bare = []"
    "tv_peer V c @ vs_write_pending upstream = encode_request_header ?uuid required_flow tg @ frames"
    "unpad unpadder_new frames [] = (Inr (), u, [], y)" "y @ bare = sent"
    using uplink_on_wire [OF assms(4) fresh len w s1] by (auto simp: Let_def)
  have "length required_flow < 128" by (simp add: required_flow_def)
  then have dec: "decode_request (tv_peer V c @ vs_write_pending upstream) = Some (?uuid, required_flow, tg, frames)"
    using up(2) len h(2) by (simp add: decode_encode_request)
  have sum: "y @ bare @ in_hand (rl_pump r Up) = payload @ rl_read r Up"
    using up(4) ok(2) data [of Up] by (metis append.assoc)
  have down: "\<exists>left. rl_written r Down @ in_hand (rl_pump r Down) @ vs_read_out upstream @ left = deframed (tv_open V rs) @ raw \<and>
      (is_direct (vs_unpadder upstream) \<longrightarrow> left = content (g_src (gs_gate (ts_io (vs_inner upstream)))))"
    if "gate_stream (gs_gate (ts_io tls)) = concat rs @ raw \<and> whole rs \<and>
      turns_direct (tv_open V rs) \<and> \<not> turns_direct (tv_open V (butlast rs))" for rs raw
  proof -
    from that obtain left where "out @ vs_read_out upstream @ left = deframed (tv_open V rs) @ raw"
      "is_direct (vs_unpadder upstream) \<longrightarrow> left = content (g_src (gs_gate (ts_io (vs_inner upstream))))"
      using downlink_seamless [OF assms(4) fresh len w s1] by blast
    with data [of Down] ok(3) show ?thesis by (metis append.assoc)
  qed
  show ?thesis
    unfolding Let_def
    by (intro exI conjI, rule h(1), rule h(3), rule h(4), rule conn, rule first, rule up(1), rule dec, rule up(3),
        rule sum, rule flushed) (intro allI impI, rule down)
qed

text \<open>
  C3: A connection holds a bounded amount of data. At every moment while it is relayed and nothing
  has failed, each pump has at most its buffer of 64 KiB in hand, at most 256 KiB of frames wait to be
  written, at most a frame of the largest size is incomplete, the application is owed at most
  what one read brought with what was incomplete and held, and the record gate has read at most 16 KiB
  and a record header ahead. So neither a slow server nor a slow client nor any frames or data
  make it grow.
\<close>

theorem bounded_connection:
  assumes "handle_connection L cr tt fb new_conn rr env cfg client = (res, client', Some (r, upstream))"
    and "c_wres client = []" and "config_wf cfg" and "tls_laws L V" and "\<forall>e. res \<noteq> Some (Inl e)"
    and "\<And>tcp tls. connect cr tt fb new_conn (oe_reality (ce_open env) tcp) (out_reality (cfg_outbound cfg))
           (handshake_ms (cfg_timeout cfg)) = Inr tls \<Longrightarrow> g_buf (gs_gate (ts_io tls)) = []"
  shows "length (in_hand (rl_pump r d)) \<le> 65536 \<and> length (vs_write_pending upstream) \<le> 262144 \<and>
    length (vs_read_raw upstream) \<le> 131090 \<and> length (vs_read_out upstream) \<le> 163862 \<and>
    length (g_buf (gs_gate (ts_io (vs_inner upstream)))) \<le> 16388"
proof (rule handled [OF assms(1-3)])
  fix methods rsv tg rest tcp tls payload vs
  let ?uuid = "vl_uuid (out_vless (cfg_outbound cfg))" and ?t = "relay_timeouts (cfg_timeout cfg)"
  assume conn: "connect cr tt fb new_conn (oe_reality (ce_open env) tcp) (out_reality (cfg_outbound cfg))
       (handshake_ms (cfg_timeout cfg)) = Inr tls"
    and w: "write_first_on (tls_ops L) rr (encode_request_header ?uuid required_flow tg)
       payload (vision_client (start_gated tls) ?uuid (oe_rng (ce_open env))) = Some (Inr (), vs)"
    and run: "conn_run ?t (tls_ops L) rr (relay_start ?t, vs) (ce_relay env) = Some (r, upstream)" "res = rl_result r"
    and len: "length ?uuid = 16"
  have lib: "tls_library L V" using assms(4) by (rule tls_library.intro)
  have st: "bounded_stream (tls_ops L) gate_held 16388" by (rule tls_library.gate_bounded [OF lib])
  have "gate_held (start_gated tls)" using assms(6) [OF conn] by (simp add: gate_held_def start_gating_def)
  from bounded_stream.first_write_ok [OF st w this len] have v0: "buffers_ok gate_held 16388 relay_buf vs" .
  from direct_stream.conn_run_splits [OF tls_stream_contract [OF assms(4)] run(1) start_linked relay_start_data]
  obtain ops evs sent out ok where
    s: "session_on (tls_ops L) rr (vs, payload, [], True) ops = Some (upstream, sent, out, ok)"
      "r = run (relay_step ?t) (relay_start ?t) evs" "linked payload r sent out ok" "list_all (write_within relay_buf) ops"
    by blast
  have "ok" using s(3) assms(5) run(2) by (auto simp: linked_def)
  from bounded_stream.session_ok [OF st s(1) [unfolded eqTrueI [OF this]] v0 s(4)]
  have "buffers_ok gate_held 16388 relay_buf upstream" by simp
  moreover have "length (in_hand (rl_pump r d)) \<le> 65536"
    using relay_data.run_inv [OF relay_start_data, of ?t ?t evs] by (simp add: s(2) data_inv_def relay_buf_def)
  ultimately show ?thesis
    by (simp add: buffers_ok_def gate_held_def pending_bound_def relay_buf_def)
qed

definition sample_config :: config where
  "sample_config =
     \<lparr>cfg_log = \<lparr>log_level = []\<rparr>,
      cfg_inbound = \<lparr>in_listen = V4 1, in_port = 1080, max_connections = 1\<rparr>,
      cfg_outbound = sample_outbound, cfg_timeout = sample_timeout\<rparr>"

text \<open>The upstream is polled once while the connection is relayed.\<close>

definition sample_client_env :: "(bool, clear_state, unit) client_env" where
  "sample_client_env = \<lparr>ce_nodelay = Inr (), ce_open = sample_env, ce_relay = [(1, Upstream Down)]\<rparr>"

definition sample_client :: conn where
  "sample_client = \<lparr>c_in = [5, 1, 0, 5, 1, 0, 3, 1, 97, 0, 80], c_end = IoError UnexpectedEof [], c_out = [], c_wres = []\<rparr>"

lemma sample_config_fields:
  "cfg_outbound sample_config = sample_outbound" "cfg_timeout sample_config = sample_timeout"
  "ce_nodelay sample_client_env = Inr ()" "ce_open sample_client_env = sample_env"
  "ce_relay sample_client_env = [(1, Upstream Down)]"
  by (simp_all add: sample_config_def sample_client_env_def)

lemma sample_open_fields:
  "map_option (\<lambda>(r, v). (gs_gate (ts_io (vs_inner v)), fst (ts_conn (vs_inner v)), fst (snd (ts_conn (vs_inner v))),
       vs_unpadder v, vs_header v, vs_read_raw v, vs_read_out v)) sample_open
     = Some (start_gating (gate_new [Chunk (sample_record @ [1, 2]), Chunk [3]]), [], [],
         unpadder_new, response_header_new, [], [])"
  by code_simp

lemma sample_relayed:
  assumes "sample_open = Some (Inr (), vs)"
  shows "\<exists>r v1. conn_run (relay_timeouts sample_timeout) (tls_ops clear_tls) sample_rng
      (relay_start (relay_timeouts sample_timeout), vs) [(1, Upstream Down)] = Some (r, v1) \<and>
    rl_result r = None \<and> rl_written r Down = [] \<and> rl_pump r Down = Writing [7, 8, 9, 1, 2] \<and>
    vs_read_out v1 = [] \<and> is_direct (vs_unpadder v1) \<and> g_src (gs_gate (ts_io (vs_inner v1))) = [Chunk [3]]"
proof -
  let ?t = "relay_timeouts sample_timeout"
  obtain v1 where v1: "read_on (tls_ops clear_tls) relay_buf vs = Some (Ready (Inr [7, 8, 9, 1, 2]), v1)"
    "vs_read_out v1 = []" "is_direct (vs_unpadder v1)" "g_src (gs_gate (ts_io (vs_inner v1))) = [Chunk [3]]"
    using stack_read_first [of vs "snd (snd (ts_conn (vs_inner vs)))" relay_buf] sample_open_fields
    by (auto simp: assms prod_eq_iff relay_buf_def)
  have start: "rl_result (relay_start ?t) = None" "rl_pump (relay_start ?t) = (\<lambda>_. Reading)"
    "rl_written (relay_start ?t) = (\<lambda>_. [])" "rl_read (relay_start ?t) = (\<lambda>_. [])"
    by (simp_all add: relay_start_def relay_timeouts_def sample_timeout_def watchdog_def deadline_def
        activity_new_def ms_def Let_def)
  have "take relay_buf [7, 8, 9, 1, 2 :: u8] = [7, 8, 9, 1, 2]" by (simp add: relay_buf_def)
  with v1 show ?thesis
    by (simp add: start relay_step_def relay_io_def Let_def)
qed

text \<open>The connection of the sample, with the switch seen by the pump of the downlink.\<close>

lemma sample_handled:
  obtains client' r v1 where
    "handle_connection clear_tls sum_crypto (\<lambda>_. []) (\<lambda>_. Inl ()) sample_rustls sample_rng
       sample_client_env sample_config sample_client = (None, client', Some (r, v1))"
    "is_direct (vs_unpadder v1)" "g_src (gs_gate (ts_io (vs_inner v1))) = [Chunk [3]]"
proof (rule sample_opened)
  fix vs
  let ?tg = "\<lparr>tg_addr = Domain [97], tg_port = 80\<rparr>"
  assume o: "sample_open = Some (Inr (), vs)"
    "open_outbound clear_tls sum_crypto (\<lambda>_. []) (\<lambda>_. Inl ()) sample_rustls sample_rng sample_env
       sample_outbound sample_timeout ?tg
     = (Some (Inr vs), [Dialled, Handshaken, GatingStarted, PayloadRead [5], FirstWrite])"
  let ?c1 = "sample_client\<lparr>c_in := [], c_out := [5, 0]\<rparr>"
  let ?c2 = "?c1\<lparr>c_out := [5, 0, 5, 0, 0, 1, 0, 0, 0, 0, 0, 0]\<rparr>"
  have "utf8_valid [97]" by (rule utf8_valid_ascii) simp
  then have h: "handshake sample_client = (Inr ?tg, ?c1)"
    by (simp add: handshake_iff sample_client_def, intro exI [of _ "[0]"] exI [of _ 0] exI [of _ "[]"])
      (simp add: greeting_def request_def target_ok_def u16_be_def)
  have rp: "reply True ?c1 = (Inr (), ?c2)" by (simp add: reply_def write_all_def sample_client_def)
  obtain r v1 where run: "conn_run (relay_timeouts sample_timeout) (tls_ops clear_tls) sample_rng
      (relay_start (relay_timeouts sample_timeout), vs) [(1, Upstream Down)] = Some (r, v1)"
    "rl_result r = None" "is_direct (vs_unpadder v1)" "g_src (gs_gate (ts_io (vs_inner v1))) = [Chunk [3]]"
    using sample_relayed [OF o(1)] by blast
  have "handle_connection clear_tls sum_crypto (\<lambda>_. []) (\<lambda>_. Inl ()) sample_rustls sample_rng
      sample_client_env sample_config sample_client = (None, ?c2, Some (r, v1))"
    unfolding handle_connection_def
    by (simp only: sample_config_fields h rp o(2) run(1,2) Let_def sum.case prod.case option.case)
  with run(3,4) that show thesis by blast
qed

lemma sample_wf: "c_wres sample_client = []" "config_wf sample_config"
  by (simp_all add: sample_client_def config_wf_def sample_config_def sample_outbound_def sample_uuid_def
      sample_reality_def)

lemma sample_connected:
  "connect sum_crypto (\<lambda>_. []) (\<lambda>_. Inl ()) sample_rustls (oe_reality (ce_open sample_client_env) tcp)
     (out_reality (cfg_outbound sample_config)) (handshake_ms (cfg_timeout sample_config)) = Inr tls \<Longrightarrow>
   tls = stack_start"
  by (auto simp: sample_config_fields sample_outbound_def sample_timeout_def sample_connect)

theorem connection_end_to_end_witness:
  "\<exists>client' r upstream y. handle_connection clear_tls sum_crypto (\<lambda>_. []) (\<lambda>_. Inl ()) sample_rustls sample_rng
      sample_client_env sample_config sample_client = (None, client', Some (r, upstream)) \<and>
    (\<exists>bare. y @ bare @ in_hand (rl_pump r Up) = [5] @ rl_read r Up) \<and>
    rl_written r Down @ in_hand (rl_pump r Down) @ vs_read_out upstream @ [3] = [7, 8, 9, 1, 2, 3]"
proof (rule sample_handled)
  fix client' r v1
  assume hc: "handle_connection clear_tls sum_crypto (\<lambda>_. []) (\<lambda>_. Inl ()) sample_rustls sample_rng
       sample_client_env sample_config sample_client = (None, client', Some (r, v1))"
    and v1: "is_direct (vs_unpadder v1)" "g_src (gs_gate (ts_io (vs_inner v1))) = [Chunk [3]]"
  have fresh: "connect sum_crypto (\<lambda>_. []) (\<lambda>_. Inl ()) sample_rustls (oe_reality (ce_open sample_client_env) tcp)
      (out_reality (cfg_outbound sample_config)) (handshake_ms (cfg_timeout sample_config)) = Inr tls \<Longrightarrow>
      fresh_stream clear_view tls" for tcp tls
    by (drule sample_connected, simp add: stack_fresh)
  have srv: "gate_stream (gs_gate (ts_io stack_start)) = concat [sample_record] @ [1, 2, 3]"
    by (simp add: stack_start_def gate_new_def gate_stream_def)
  have rec: "\<forall>u \<in> set [sample_record]. 5 \<le> length u \<and> record_len u = length u"
    by (simp add: record_len_def be_u16_def sample_record_list)
  have sw: "turns_direct (tv_open clear_view [sample_record])" "\<not> turns_direct (tv_open clear_view (butlast [sample_record]))"
    "deframed (tv_open clear_view [sample_record]) = [7, 8, 9]"
    using sample_switch sample_records by (simp_all add: clear_view_def)
  have five: "oe_client (ce_open sample_client_env) 500 = Some (Inr [5])"
    by (simp add: sample_config_fields sample_env_def)
  have ok: "\<forall>e. None \<noteq> Some (Inl e :: rerror + unit)" by simp
  show ?thesis
  proof (rule connection_end_to_end [OF hc sample_wf clear_laws ok, THEN exE], rule fresh, assumption, elim exE conjE)
    fix tcp tls payload bare y
    assume conn: "connect sum_crypto (\<lambda>_. []) (\<lambda>_. Inl ()) sample_rustls (oe_reality (ce_open sample_client_env) tcp)
        (out_reality (cfg_outbound sample_config)) (handshake_ms (cfg_timeout sample_config)) = Inr tls"
      and first: "case oe_client (ce_open sample_client_env) 500 of
         None \<Rightarrow> payload = [] | Some (Inr d) \<Rightarrow> payload = take 8171 d | Some (Inl _) \<Rightarrow> False"
      and up: "y @ bare @ in_hand (rl_pump r Up) = payload @ rl_read r Up"
      and down: "\<forall>rs raw. gate_stream (gs_gate (ts_io tls)) = concat rs @ raw \<and> whole rs \<and>
         turns_direct (tv_open clear_view rs) \<and> \<not> turns_direct (tv_open clear_view (butlast rs)) \<longrightarrow>
         (\<exists>left. rl_written r Down @ in_hand (rl_pump r Down) @ vs_read_out v1 @ left
              = deframed (tv_open clear_view rs) @ raw \<and>
            (is_direct (vs_unpadder v1) \<longrightarrow> left = content (g_src (gs_gate (ts_io (vs_inner v1))))))"
    have "payload = [5]" using first five by simp
    moreover have "gate_stream (gs_gate (ts_io tls)) = concat [sample_record] @ [1, 2, 3]"
      using srv sample_connected [OF conn] by simp
    with rec sw v1 down have "rl_written r Down @ in_hand (rl_pump r Down) @ vs_read_out v1 @ [3] = [7, 8, 9, 1, 2, 3]"
      by (elim allE [of _ "[sample_record]"] allE [of _ "[1, 2, 3]"]) simp
    ultimately show ?thesis using hc up by blast
  qed
qed

theorem bounded_connection_witness:
  "\<exists>client' r upstream. handle_connection clear_tls sum_crypto (\<lambda>_. []) (\<lambda>_. Inl ()) sample_rustls sample_rng
      sample_client_env sample_config sample_client = (None, client', Some (r, upstream)) \<and>
    length (vs_write_pending upstream) \<le> 262144 \<and> length (vs_read_out upstream) \<le> 163862"
proof (rule sample_handled)
  fix client' r v1
  assume hc: "handle_connection clear_tls sum_crypto (\<lambda>_. []) (\<lambda>_. Inl ()) sample_rustls sample_rng
       sample_client_env sample_config sample_client = (None, client', Some (r, v1))"
  have "connect sum_crypto (\<lambda>_. []) (\<lambda>_. Inl ()) sample_rustls (oe_reality (ce_open sample_client_env) tcp)
      (out_reality (cfg_outbound sample_config)) (handshake_ms (cfg_timeout sample_config)) = Inr tls \<Longrightarrow>
      g_buf (gs_gate (ts_io tls)) = []" for tcp tls
    by (drule sample_connected, simp add: stack_start_def gate_new_def)
  with bounded_connection [OF hc sample_wf clear_laws] hc show ?thesis by auto
qed

end
