(* ===== verification/RaceTiming.thy ===== *)
theory RaceTiming
  imports NetModel
begin

text \<open>
  The race of \<^verbatim>\<open>connect_any\<close> (\<^verbatim>\<open>src/net.rs\<close>) with its clock: when attempts are started. The loop
  arms a new sleep each time it waits; an attempt that fails ends the sleep. Times are
  milliseconds since the race began.
\<close>

definition happy_eyeballs_delay :: nat where "happy_eyeballs_delay = 250"

text \<open>
  \<open>tr_armed\<close>: when the loop last came round to its \<^verbatim>\<open>select\<close>. \<open>tr_starts\<close> and \<open>tr_fails\<close> are the times at
  which attempts were started and at which attempts failed.
\<close>

record 'c timed_race =
  tr_race :: "'c race"
  tr_now :: nat
  tr_armed :: nat
  tr_starts :: "nat list"
  tr_fails :: "nat list"

definition timed_start :: "sock_addr list \<Rightarrow> 'c timed_race" where
  "timed_start addrs =
     (let st = race_start addrs in
      \<lparr>tr_race = st, tr_now = 0, tr_armed = 0, tr_starts = replicate (length (rc_started st)) 0,
       tr_fails = []\<rparr>)"

text \<open>
  An event comes a while after the one before it. The sleep ends when \<open>delay\<close> has passed since it was
  armed, not earlier; whenever the loop comes round, it is armed anew.
\<close>

definition timed_event :: "nat \<Rightarrow> 'c timed_race \<Rightarrow> nat \<times> 'c race_event \<Rightarrow> 'c timed_race" where
  "timed_event delay tr e =
     (let now = tr_now tr + fst e; tr = tr\<lparr>tr_now := now\<rparr>; st = tr_race tr in
      if snd e = Elapsed \<and> now < tr_armed tr + delay then tr
      else
        let st' = race_event st (snd e);
            started = length (rc_started st) < length (rc_started st');
            failed = length (rc_failed st) < length (rc_failed st')
        in tr\<lparr>tr_race := st',
              tr_armed := if started \<or> failed then now else tr_armed tr,
              tr_starts := tr_starts tr @ (if started then [now] else []),
              tr_fails := tr_fails tr @ (if failed then [now] else [])\<rparr>)"

section \<open>One round of the loop\<close>

text \<open>A round starts no attempt, or the next one: when the sleep ended or an attempt failed.\<close>

lemma race_event_round:
  fixes ev :: "'c race_event"
  obtains
    (none) "rc_started (race_event st ev) = rc_started st" "rc_pending (race_event st ev) = rc_pending st"
      "rc_failed (race_event st ev) = rc_failed st \<or> rc_pending st = []"
  | (sleep) a rest where "ev = Elapsed" "rc_pending st = a # rest"
      "rc_started (race_event st ev) = rc_started st @ [a]" "rc_pending (race_event st ev) = rest"
      "rc_failed (race_event st ev) = rc_failed st"
  | (lost) a rest x where "rc_pending st = a # rest" "rc_started (race_event st ev) = rc_started st @ [a]"
      "rc_pending (race_event st ev) = rest" "rc_failed (race_event st ev) = rc_failed st @ [x]"
proof (cases "rc_result st = None")
  case False
  with none show thesis by (simp add: race_event_def)
next
  case True
  show thesis
  proof (cases ev)
    case Elapsed
    with True none sleep show thesis
      by (cases "rc_pending st") (simp_all add: race_event_def race_top_def)
  next
    case (Joined i r)
    show thesis
    proof (cases "length (rc_flight st) \<le> i")
      case True
      with Joined none show thesis by (simp add: race_event_def)
    next
      case False
      with True Joined none lost show thesis
        by (cases r; cases "rc_pending st") (simp_all add: race_event_def race_top_def Let_def)
    qed
  qed
qed

section \<open>The times of the attempts\<close>

definition staggered :: "nat \<Rightarrow> nat list \<Rightarrow> nat list \<Rightarrow> bool" where
  "staggered delay starts fails \<longleftrightarrow>
     (\<forall>i. Suc i < length starts \<longrightarrow>
        starts ! i + delay \<le> starts ! Suc i \<or> starts ! Suc i \<in> set fails)"

lemma staggered_fails: "staggered delay starts fails \<Longrightarrow> staggered delay starts (fails @ extra)"
  by (auto simp: staggered_def)

lemma staggered_snoc:
  assumes "staggered delay starts fails" and "starts \<noteq> [] \<Longrightarrow> last starts + delay \<le> now \<or> now \<in> set fails"
  shows "staggered delay (starts @ [now]) fails"
  unfolding staggered_def
proof (intro allI impI)
  fix i
  assume i: "Suc i < length (starts @ [now])"
  show "(starts @ [now]) ! i + delay \<le> (starts @ [now]) ! Suc i \<or> (starts @ [now]) ! Suc i \<in> set fails"
  proof (cases "Suc i < length starts")
    case True
    with assms(1) show ?thesis by (auto simp: staggered_def nth_append)
  next
    case False
    with i have "i = length starts - 1" "starts \<noteq> []" by auto
    with assms(2) show ?thesis by (auto simp: nth_append last_conv_nth)
  qed
qed

definition timed_inv :: "nat \<Rightarrow> sock_addr list \<Rightarrow> 'c timed_race \<Rightarrow> bool" where
  "timed_inv delay addrs tr \<longleftrightarrow>
     race_inv addrs (tr_race tr) \<and> length (tr_starts tr) = length (rc_started (tr_race tr)) \<and>
     staggered delay (tr_starts tr) (tr_fails tr) \<and>
     (tr_starts tr \<noteq> [] \<longrightarrow> last (tr_starts tr) \<le> tr_armed tr) \<and> tr_armed tr \<le> tr_now tr \<and>
     (\<forall>t \<in> set (tr_fails tr). t \<in> set (tr_starts tr) \<or> rc_pending (tr_race tr) = [])"

lemma timed_start_inv: "timed_inv delay addrs (timed_start addrs)"
proof -
  have "length (rc_started (race_start addrs :: 'a race)) \<le> 1"
    by (auto simp: race_start_def race_top_def Let_def split: list.splits)
  then show ?thesis
    by (simp add: timed_inv_def timed_start_def race_start_inv staggered_def Let_def)
qed

lemma timed_event_inv:
  assumes "timed_inv delay addrs tr"
  shows "timed_inv delay addrs (timed_event delay tr e)"
proof (cases "snd e = Elapsed \<and> tr_now tr + fst e < tr_armed tr + delay")
  case True
  with assms show ?thesis by (simp add: timed_event_def timed_inv_def Let_def)
next
  case False
  then have e: "timed_event delay tr e =
      (let now = tr_now tr + fst e; tr = tr\<lparr>tr_now := now\<rparr>; st = tr_race tr;
           st' = race_event st (snd e);
           started = length (rc_started st) < length (rc_started st');
           failed = length (rc_failed st) < length (rc_failed st')
       in tr\<lparr>tr_race := st', tr_armed := if started \<or> failed then now else tr_armed tr,
             tr_starts := tr_starts tr @ (if started then [now] else []),
             tr_fails := tr_fails tr @ (if failed then [now] else [])\<rparr>)"
    by (auto simp: timed_event_def Let_def)
  let ?now = "tr_now tr + fst e"
  have inv: "race_inv addrs (race_event (tr_race tr) (snd e))" "length (tr_starts tr) = length (rc_started (tr_race tr))"
    "staggered delay (tr_starts tr) (tr_fails tr)" "tr_starts tr \<noteq> [] \<longrightarrow> last (tr_starts tr) \<le> tr_armed tr"
    "tr_armed tr \<le> tr_now tr" "\<forall>t \<in> set (tr_fails tr). t \<in> set (tr_starts tr) \<or> rc_pending (tr_race tr) = []"
    using assms by (simp_all add: timed_inv_def race_event_inv)
  show ?thesis
  proof (cases rule: race_event_round [of "tr_race tr" "snd e"])
    case none
    with inv show ?thesis by (auto simp: timed_inv_def e Let_def intro!: staggered_fails)
  next
    case (sleep a rest)
    with False inv show ?thesis
      by (auto simp: timed_inv_def e Let_def intro!: staggered_snoc)
  next
    case (lost a rest x)
    with inv show ?thesis
      by (auto simp: timed_inv_def e Let_def intro!: staggered_snoc intro: staggered_fails)
  qed
qed

interpretation timing: invariant_machine "timed_event delay" "timed_inv delay addrs" for delay addrs
  by unfold_locales (rule timed_event_inv)

text \<open>The race with a clock is a race: the sleeps that have not ended are left out.\<close>

lemma timed_run_race:
  "\<exists>es. subseq es (map snd evs) \<and> tr_race (run (timed_event delay) tr evs) = run race_event (tr_race tr) es"
proof (induction evs arbitrary: tr)
  case (Cons e evs)
  obtain es where es: "subseq es (map snd evs)"
    "tr_race (run (timed_event delay) tr (e # evs)) = run race_event (tr_race (timed_event delay tr e)) es"
    using Cons.IH [of "timed_event delay tr e"] by auto
  show ?case
  proof (cases "snd e = Elapsed \<and> tr_now tr + fst e < tr_armed tr + delay")
    case True
    then have "tr_race (timed_event delay tr e) = tr_race tr" by (simp add: timed_event_def Let_def)
    with es show ?thesis by (intro exI [of _ es]) (simp add: list_emb_Cons)
  next
    case False
    then have "tr_race (timed_event delay tr e) = race_event (tr_race tr) (snd e)"
      by (auto simp: timed_event_def Let_def)
    with es show ?thesis by (intro exI [of _ "snd e # es"]) (simp add: list_emb_Cons2)
  qed
qed auto

lemma timed_facts:
  fixes evs :: "(nat \<times> 'c race_event) list"
  assumes tr: "tr = run (timed_event happy_eyeballs_delay) (timed_start addrs) evs"
  shows "length (tr_starts tr) = length (rc_started (tr_race tr)) \<and>
    rc_started (tr_race tr) @ rc_pending (tr_race tr) = addrs \<and>
    (\<forall>i. Suc i < length (tr_starts tr) \<longrightarrow>
       tr_starts tr ! i + 250 \<le> tr_starts tr ! Suc i \<or> tr_starts tr ! Suc i \<in> set (tr_fails tr)) \<and>
    (\<forall>t \<in> set (tr_fails tr). t \<in> set (tr_starts tr) \<or> rc_started (tr_race tr) = addrs) \<and>
    (\<forall>dt a rest. rc_result (tr_race tr) = None \<and> rc_pending (tr_race tr) = a # rest \<and>
         tr_armed tr + 250 \<le> tr_now tr + dt \<longrightarrow>
       rc_started (tr_race (timed_event happy_eyeballs_delay tr (dt, Elapsed))) = rc_started (tr_race tr) @ [a]) \<and>
    (\<exists>es. subseq es (map snd evs) \<and> connect_any addrs es = rc_result (tr_race tr))"
proof -
  have "timed_inv happy_eyeballs_delay addrs tr"
    unfolding tr by (rule timing.run_inv [OF timed_start_inv])
  then have i: "length (tr_starts tr) = length (rc_started (tr_race tr))"
    "rc_started (tr_race tr) @ rc_pending (tr_race tr) = addrs"
    "staggered 250 (tr_starts tr) (tr_fails tr)"
    "\<forall>t \<in> set (tr_fails tr). t \<in> set (tr_starts tr) \<or> rc_pending (tr_race tr) = []"
    by (simp_all add: timed_inv_def race_inv_def happy_eyeballs_delay_def)
  have "tr_race (timed_start addrs :: 'c timed_race) = race_start addrs" by (simp add: timed_start_def Let_def)
  with timed_run_race [of evs happy_eyeballs_delay "timed_start addrs"]
  have r: "\<exists>es. subseq es (map snd evs) \<and> connect_any addrs es = rc_result (tr_race tr)"
    by (auto simp: tr connect_any_def)
  have s: "rc_started (tr_race (timed_event happy_eyeballs_delay tr (dt, Elapsed))) = rc_started (tr_race tr) @ [a]"
    if "rc_result (tr_race tr) = None" "rc_pending (tr_race tr) = a # rest" "tr_armed tr + 250 \<le> tr_now tr + dt"
    for dt a rest
    using that by (simp add: timed_event_def race_event_def race_top_def happy_eyeballs_delay_def Let_def)
  from i(4) i(2) have "\<forall>t \<in> set (tr_fails tr). t \<in> set (tr_starts tr) \<or> rc_started (tr_race tr) = addrs" by auto
  with i(1,2) i(3) [unfolded staggered_def] r s show ?thesis by blast
qed

section \<open>Properties\<close>

text \<open>
  C30: Attempts are staggered. Whatever the attempts do and however the sleeps and their ends fall,
  the addresses are tried in order, each once; an attempt is started only when the delay has
  passed since the one before it, or at the moment an attempt failed; a failed attempt is
  followed by the next one at once, unless every address has been tried; and a sleep that has
  lasted the delay starts the next attempt. The clock changes nothing else: the result is that
  of the race over the sleeps that ended and the attempts that ended.
\<close>

theorem attempts_staggered:
  "let tr = run (timed_event happy_eyeballs_delay) (timed_start addrs) evs in
    length (tr_starts tr) = length (rc_started (tr_race tr)) \<and>
    rc_started (tr_race tr) @ rc_pending (tr_race tr) = addrs \<and>
    (\<forall>i. Suc i < length (tr_starts tr) \<longrightarrow>
       tr_starts tr ! i + 250 \<le> tr_starts tr ! Suc i \<or> tr_starts tr ! Suc i \<in> set (tr_fails tr)) \<and>
    (\<forall>t \<in> set (tr_fails tr). t \<in> set (tr_starts tr) \<or> rc_started (tr_race tr) = addrs) \<and>
    (\<forall>dt a rest. rc_result (tr_race tr) = None \<and> rc_pending (tr_race tr) = a # rest \<and>
         tr_armed tr + 250 \<le> tr_now tr + dt \<longrightarrow>
       rc_started (tr_race (timed_event happy_eyeballs_delay tr (dt, Elapsed))) = rc_started (tr_race tr) @ [a]) \<and>
    (\<exists>es. subseq es (map snd evs) \<and> connect_any addrs es = rc_result (tr_race tr))"
  unfolding Let_def by (rule timed_facts [OF refl])

theorem attempts_staggered_witness:
  "let tr = run (timed_event happy_eyeballs_delay) (timed_start [(V4 1, 1), (V4 2, 1), (V4 3, 1)])
       [(100, Elapsed), (200, Elapsed), (10, Joined 0 (Failed (IoError NotFound [])) :: unit race_event)] in
   tr_starts tr = [0, 300, 310] \<and> tr_fails tr = [310] \<and> rc_pending (tr_race tr) = [] \<and>
   (tr_starts tr ! 1 + 250 \<le> tr_starts tr ! 2 \<or> tr_starts tr ! 2 \<in> set (tr_fails tr))"
proof -
  let ?evs = "[(100, Elapsed), (200, Elapsed), (10, Joined 0 (Failed (IoError NotFound [])) :: unit race_event)]"
  let ?tr = "run (timed_event happy_eyeballs_delay) (timed_start [(V4 1, 1), (V4 2, 1), (V4 3, 1)]) ?evs"
  have "tr_starts ?tr = [0, 300, 310]" "tr_fails ?tr = [310]" "rc_pending (tr_race ?tr) = []"
    by (simp_all add: timed_start_def timed_event_def race_start_def race_top_def race_event_def drop_nth_def
        happy_eyeballs_delay_def Let_def)
  with attempts_staggered [of "[(V4 1, 1), (V4 2, 1), (V4 3, 1)]" ?evs, unfolded Let_def, THEN conjunct2, THEN conjunct2, THEN conjunct1,
      THEN spec, of 1]
  show ?thesis by (simp add: Let_def)
qed

end
