(* ===== verification/ServiceModel.thy ===== *)
theory ServiceModel
  imports ConfigModel
begin

text \<open>
  The two ways to run the program: the embedded service of \<^verbatim>\<open>src/service.rs\<close> with its global
  state, and the binary of \<^verbatim>\<open>src/main.rs\<close> with the log level of \<^verbatim>\<open>src/ext.rs\<close>. The operating
  system is a parameter: how binding a port answers given the ports that are bound.
\<close>

section \<open>The service\<close>

text \<open>
  \<open>sv_running\<close> is \<^verbatim>\<open>STATE\<close>: the port of the running service. \<open>sv_bound\<close> are the ports whose
  listeners exist, also those of services that are being shut down.
\<close>

record service =
  sv_running :: "u16 option"
  sv_bound :: "u16 set"

definition service_init :: service where
  "service_init = \<lparr>sv_running = None, sv_bound = {}\<rparr>"

record os =
  os_runtime :: "io_error + unit"
  os_bind :: "u16 set \<Rightarrow> ip_addr \<Rightarrow> u16 \<Rightarrow> io_error + u16"
  os_local_addr :: "io_error + unit"

definition service_module :: bytes where "service_module = str ''Service''"

text \<open>The UTF-8 bytes of the message \<open>already running\<close> in the source's language.\<close>

definition already_running :: bytes where
  "already_running = [0xE5, 0xB7, 0xB2, 0xE7, 0xBB, 0x8F, 0xE5, 0x9C, 0xA8, 0xE8, 0xBF, 0x90, 0xE8, 0xA1, 0x8C]"

definition start ::
  "(bytes \<Rightarrow> toml_error + raw_config) \<Rightarrow> os \<Rightarrow> bytes \<Rightarrow> service \<Rightarrow> (rerror + u16) \<times> service" where
  "start from_str os text s =
     (if sv_running s \<noteq> None then (Inl (Custom service_module already_running), s)
      else
        case parse from_str text of
          Inl e \<Rightarrow> (Inl e, s)
        | Inr cfg \<Rightarrow>
            (case os_runtime os of
               Inl e \<Rightarrow> (Inl (IO e), s)
             | Inr _ \<Rightarrow>
                 (case os_bind os (sv_bound s) (in_listen (cfg_inbound cfg)) (in_port (cfg_inbound cfg)) of
                    Inl e \<Rightarrow> (Inl (IO e), s)
                  | Inr port \<Rightarrow>
                      (case os_local_addr os of
                         Inl e \<Rightarrow> (Inl (IO e), s)
                       | Inr _ \<Rightarrow> (Inr port, \<lparr>sv_running = Some port, sv_bound = insert port (sv_bound s)\<rparr>)))))"

text \<open>
  \<^verbatim>\<open>stop\<close>: under the lock it takes the state out; outside it the runtime shuts down, and some
  time later the listener is gone (\<open>released\<close>). It always answers \<^verbatim>\<open>true\<close>.
\<close>

definition stop :: "service \<Rightarrow> bool \<times> service" where
  "stop s = (True, s\<lparr>sv_running := None\<rparr>)"

definition released :: "u16 \<Rightarrow> service \<Rightarrow> service" where
  "released port s = s\<lparr>sv_bound := sv_bound s - {port}\<rparr>"

text \<open>
  The documented behaviour of binding: a fixed port is refused while it is bound, port 0 gives
  a port that is not bound, if any.
\<close>

definition bind_ok :: "io_error \<Rightarrow> os \<Rightarrow> bool" where
  "bind_ok in_use os \<longleftrightarrow>
     (\<forall>bound ip p. (p \<noteq> 0 \<longrightarrow> os_bind os bound ip p = (if p \<in> bound then Inl in_use else Inr p)) \<and>
        (\<forall>q. os_bind os bound ip 0 = Inr q \<longrightarrow> q \<notin> bound))"

section \<open>The binary\<close>

datatype level = TRACE | DEBUG | INFO | WARN | ERROR

definition parse_level :: "bytes \<Rightarrow> rerror + level" where
  "parse_level s =
     (let l = to_ascii_lowercase s in
      if l = str ''trace'' then Inr TRACE
      else if l = str ''debug'' then Inr DEBUG
      else if l = str ''info'' then Inr INFO
      else if l = str ''warn'' \<or> l = str ''warning'' then Inr WARN
      else if l = str ''error'' then Inr ERROR
      else Inl (Config (str ''unknown log level: '' @ l)))"

text \<open>
  \<^verbatim>\<open>logger_service\<close>: the subscriber it builds becomes the global one of the process; \<open>None\<close> is the
  panic of \<^verbatim>\<open>unwrap\<close> when there is one already. Lines go to stdout through a writer of its own
  thread; what they look like is up to the tracing crates.
\<close>

record subscriber =
  sb_offset_hours :: int
  sb_time_format :: bytes
  sb_target :: bool
  sb_max_level :: level
  sb_ansi :: bool
  sb_file :: bool
  sb_line_number :: bool

definition logger_service :: "level \<Rightarrow> bool \<Rightarrow> bool \<Rightarrow> bool \<Rightarrow> subscriber option \<Rightarrow> subscriber option" where
  "logger_service level with_ansi with_file with_line_number global =
     (let log_subscriber =
        \<lparr>sb_offset_hours = 8,
         sb_time_format = str ''[year]-[month]-[day] [hour]:[minute]:[second].[subsecond digits:6]'',
         sb_target = False, sb_max_level = level, sb_ansi = with_ansi, sb_file = with_file,
         sb_line_number = with_line_number\<rparr>
      in case global of None \<Rightarrow> Some log_subscriber | Some _ \<Rightarrow> None)"

text \<open>
  \<^verbatim>\<open>main\<close>: the process ends with code 1 and a text on stderr, or panics, or ends with a logged
  error once the logger is up, or serves the configured port. \<open>global\<close> is the subscriber of the
  process when \<^verbatim>\<open>main\<close> starts.
\<close>

definition config_path :: bytes where "config_path = str ''config.toml''"

datatype outcome = Refused bytes | Panicked | Fatal subscriber rerror | Serving subscriber config u16

definition main_program ::
  "(bytes \<Rightarrow> toml_error + raw_config) \<Rightarrow> os \<Rightarrow> subscriber option \<Rightarrow> io_error + bytes \<Rightarrow> outcome" where
  "main_program from_str os global file =
     (case load from_str file of
        Inl e \<Rightarrow> Refused (str ''failed to load '' @ config_path @ str '': '' @ display [] e)
      | Inr cfg \<Rightarrow>
          (case parse_level (log_level (cfg_log cfg)) of
             Inl e \<Rightarrow> Refused (display [] e)
           | Inr level \<Rightarrow>
               (case logger_service level True True True global of
                  None \<Rightarrow> Panicked
                | Some log \<Rightarrow>
                    (case os_bind os {} (in_listen (cfg_inbound cfg)) (in_port (cfg_inbound cfg)) of
                       Inl e \<Rightarrow> Fatal log (IO e)
                     | Inr port \<Rightarrow> Serving log cfg port))))"

section \<open>Properties\<close>

text \<open>
  Starting is all or nothing: a start succeeds only when no service runs, with a
  well-formed configuration and the port the system bound, and then that service runs; a failed
  start changes nothing, so that the next one can still succeed, and while a service runs every
  start is refused with the one error that says so.
\<close>

theorem start_all_or_nothing:
  "case start from_str os text s of
     (Inr port, s') \<Rightarrow>
       sv_running s = None \<and> sv_running s' = Some port \<and> sv_bound s' = insert port (sv_bound s) \<and>
       (\<exists>cfg. parse from_str text = Inr cfg \<and> config_wf cfg \<and>
          os_bind os (sv_bound s) (in_listen (cfg_inbound cfg)) (in_port (cfg_inbound cfg)) = Inr port)
   | (Inl e, s') \<Rightarrow>
       s' = s \<and> (sv_running s = None \<or> e = Custom service_module already_running)"
  by (auto simp: start_def parse_def split: sum.splits dest: try_from_raw_Inr)

text \<open>
  A stopped service can be started again, but not at once: \<^verbatim>\<open>stop\<close> always answers true and
  leaves nothing running; a start with the same fixed port is refused by the system while the
  old listener still exists, and succeeds with that port once it is gone. Only with port 0 does
  a start not depend on the shutdown.
\<close>

theorem restart_needs_release:
  assumes "bind_ok in_use os" and "os_runtime os = Inr ()" and "os_local_addr os = Inr ()"
    and "sv_running s = Some port" and "port \<in> sv_bound s" and "port \<noteq> 0"
    and "parse from_str text = Inr cfg" and "in_port (cfg_inbound cfg) = port"
  shows "fst (stop s) \<and> sv_running (snd (stop s)) = None \<and>
    start from_str os text (snd (stop s)) = (Inl (IO in_use), snd (stop s)) \<and>
    start from_str os text (released port (snd (stop s)))
      = (Inr port, \<lparr>sv_running = Some port, sv_bound = sv_bound s\<rparr>)"
  using assms by (auto simp: stop_def released_def start_def bind_ok_def)

definition sample_raw :: raw_config where
  "sample_raw =
     \<lparr>raw_log_of = \<lparr>raw_level = str ''info''\<rparr>,
      raw_inbound_of = \<lparr>raw_listen = V4 1, raw_in_port = 1080, raw_max_connections = 0\<rparr>,
      raw_outbound_of = \<lparr>raw_server = str ''a'', raw_out_port = 443,
        raw_vless_of = \<lparr>raw_uuid = replicate 32 48, raw_flow = []\<rparr>,
        raw_reality_of = \<lparr>raw_public_key = replicate 43 65 @ [61], raw_short_id = [], raw_server_name = []\<rparr>\<rparr>,
      raw_timeout_of = \<lparr>raw_connect_ms = 1, raw_handshake_ms = 1, raw_dial_retries = 0, raw_idle_ms = 1,
        raw_half_close_ms = 1\<rparr>\<rparr>"

definition sample_os :: os where
  "sample_os = \<lparr>os_runtime = Inr (),
     os_bind = (\<lambda>bound ip p. if p \<noteq> 0 \<and> p \<notin> bound then Inr p else Inl (IoError (OtherKind 98) [])),
     os_local_addr = Inr ()\<rparr>"

lemma sample_parse:
  "\<exists>cfg. parse (\<lambda>t. Inr sample_raw) [] = Inr cfg \<and> in_port (cfg_inbound cfg) = 1080"
proof -
  have "parse_uuid (replicate 32 48) = Inr (replicate 16 0)" by code_simp
  moreover have "parse_hex [] = Inr []" by code_simp
  ultimately show ?thesis
    by (simp add: parse_def try_from_raw_def sample_raw_def sample_pubkey Let_def del: replicate.simps)
qed

theorem restart_needs_release_witness:
  "fst (start (\<lambda>t. Inr sample_raw) sample_os [] (snd (stop \<lparr>sv_running = Some 1080, sv_bound = {1080}\<rparr>)))
     = Inl (IO (IoError (OtherKind 98) [])) \<and>
   fst (start (\<lambda>t. Inr sample_raw) sample_os []
     (released 1080 (snd (stop \<lparr>sv_running = Some 1080, sv_bound = {1080}\<rparr>)))) = Inr 1080"
proof -
  have os: "bind_ok (IoError (OtherKind 98) []) sample_os" "os_runtime sample_os = Inr ()"
    "os_local_addr sample_os = Inr ()"
    by (simp_all add: bind_ok_def sample_os_def)
  obtain cfg where cfg: "parse (\<lambda>t. Inr sample_raw) [] = Inr cfg" "in_port (cfg_inbound cfg) = 1080"
    using sample_parse by blast
  show ?thesis
    using restart_needs_release [OF os, of "\<lparr>sv_running = Some 1080, sv_bound = {1080}\<rparr>" 1080, OF _ _ _ cfg]
    by simp
qed

text \<open>The names of a log level.\<close>

fun level_names :: "level \<Rightarrow> bytes set" where
  "level_names TRACE = {str ''trace''}"
| "level_names DEBUG = {str ''debug''}"
| "level_names INFO = {str ''info''}"
| "level_names WARN = {str ''warn'', str ''warning''}"
| "level_names ERROR = {str ''error''}"

lemma parse_level_iff: "parse_level s = Inr l \<longleftrightarrow> to_ascii_lowercase s \<in> level_names l"
  by (cases l) (auto simp: parse_level_def Let_def)

text \<open>
  The binary serves exactly when the configuration loads, its log level is one of the six
  names in any case of the letters, and the port can be bound; it serves that configuration on
  that port and logs at that level, and the configuration is well-formed. In a process of its own,
  with no subscriber yet, it does not panic.
\<close>

theorem binary_serves:
  "main_program from_str os None file = Serving log cfg port \<longleftrightarrow>
     load from_str file = Inr cfg \<and> config_wf cfg \<and>
     to_ascii_lowercase (log_level (cfg_log cfg)) \<in> level_names (sb_max_level log) \<and>
     logger_service (sb_max_level log) True True True None = Some log \<and>
     os_bind os {} (in_listen (cfg_inbound cfg)) (in_port (cfg_inbound cfg)) = Inr port"
proof -
  have "load from_str file = Inr cfg \<Longrightarrow> config_wf cfg"
    by (auto simp: load_def parse_def split: sum.splits dest: try_from_raw_Inr)
  then show ?thesis
    by (auto simp: main_program_def parse_level_iff [symmetric] logger_service_def Let_def split: sum.splits)
qed

lemma binary_no_panic: "main_program from_str os None file \<noteq> Panicked"
  by (simp add: main_program_def logger_service_def Let_def split: sum.split)

end
