(* ===== verification/StreamProgress.thy ===== *)
theory StreamProgress
  imports BufferBounds ClearTls
begin

text \<open>
  Calls complete: over a stream below whose calls do not stay pending for ever, an awaited
  write, flush or shutdown of the stream is ready after finitely many polls, a ready flush
  has left nothing to write, and the first write returns.
\<close>

section \<open>Streams that answer\<close>

text \<open>
  \<^verbatim>\<open>await\<close> on a poll, with at most \<open>n\<close> polls.
\<close>

fun awaited :: "nat \<Rightarrow> ('s \<Rightarrow> 'a poll \<times> 's) \<Rightarrow> 's \<Rightarrow> ('a \<times> 's) option" where
  "awaited 0 f s = None"
| "awaited (Suc n) f s = (case f s of (p, s) \<Rightarrow> (case p of Ready x \<Rightarrow> Some (x, s) | Pending \<Rightarrow> awaited n f s))"

text \<open>
  \<open>J n m i\<close>: the write side of \<open>i\<close> will answer at least \<open>n\<close> calls, and be pending at most \<open>m\<close> times
  meanwhile.
\<close>

definition answered :: "(nat \<Rightarrow> nat \<Rightarrow> 's \<Rightarrow> bool) \<Rightarrow> ('s \<Rightarrow> 'a poll \<times> 's) \<Rightarrow> bool" where
  "answered J f \<longleftrightarrow>
     (\<forall>n m i p j. J (Suc n) m i \<longrightarrow> f i = (p, j) \<longrightarrow>
        (case p of Ready x \<Rightarrow> J n m j | Pending \<Rightarrow> \<exists>k < m. J (Suc n) k j))"

definition answers :: "'i stream_ops \<Rightarrow> (nat \<Rightarrow> nat \<Rightarrow> 'i \<Rightarrow> bool) \<Rightarrow> bool" where
  "answers S J \<longleftrightarrow>
     (\<forall>d. answered J (so_write S d) \<and> answered J (so_write_direct S d)) \<and>
     answered J (so_flush S) \<and> answered J (so_shutdown S) \<and>
     answered J (so_flush_direct S) \<and> answered J (so_shutdown_direct S) \<and>
     (\<forall>n m i. J (Suc n) m i \<longrightarrow> J n m i)"

lemma answered_ready: "answered J f \<Longrightarrow> J (Suc n) m i \<Longrightarrow> f i = (Ready x, j) \<Longrightarrow> J n m j"
  by (fastforce simp: answered_def)

lemma answered_pending:
  assumes "answered J f" and "J n m i" and "f i = (Pending, j)" and "0 < n"
  obtains k where "k < m" "J n k j"
proof -
  obtain n' where "n = Suc n'" using assms(4) by (cases n) auto
  with assms that show thesis by (fastforce simp: answered_def)
qed

text \<open>A call that only is pending finitely often completes when awaited.\<close>

lemma awaited_completes:
  assumes "\<And>m s. P m s \<Longrightarrow> (\<exists>x s'. f s = (Ready x, s') \<and> Q x s') \<or> (\<exists>s' k. f s = (Pending, s') \<and> k < m \<and> P k s')"
    and "P m s" and "m < l"
  shows "\<exists>x s'. awaited l f s = Some (x, s') \<and> Q x s'"
  using assms(2,3)
proof (induction l arbitrary: m s)
  case (Suc l)
  from assms(1) [OF Suc.prems(1)] show ?case
  proof (elim disjE exE conjE)
    fix s' k
    assume "f s = (Pending, s')" "k < m" "P k s'"
    with Suc.IH [of k s'] Suc.prems(2) show ?case by auto
  qed auto
qed simp

text \<open>
  \<open>owed v\<close> answers settle the write side: one for each pending byte, and one for the flush in
  front of the switch to raw writes.
\<close>

definition owed :: "('i, 'r) vision_over \<Rightarrow> nat" where
  "owed v = length (vs_write_pending v) + (if wants_direct (vs_padder v) \<and> \<not> vs_uplink_raw v then 1 else 0)"

definition can_settle :: "(nat \<Rightarrow> nat \<Rightarrow> 'i \<Rightarrow> bool) \<Rightarrow> nat \<Rightarrow> nat \<Rightarrow> ('i, 'r) vision_over \<Rightarrow> bool" where
  "can_settle J c m v \<longleftrightarrow> (\<exists>n. J n m (vs_inner v) \<and> owed v + c \<le> n)"

text \<open>Polling \<open>f\<close> again and again gets it done.\<close>

definition progresses :: "(nat \<Rightarrow> nat \<Rightarrow> 'i \<Rightarrow> bool) \<Rightarrow> (('i, 'r) vision_over \<Rightarrow> 'a poll \<times> ('i, 'r) vision_over) \<Rightarrow> bool" where
  "progresses J f \<longleftrightarrow>
     (\<forall>m v. can_settle J 1 m v \<longrightarrow> (\<exists>x v'. f v = (Ready x, v')) \<or> (\<exists>v' k. f v = (Pending, v') \<and> k < m \<and> can_settle J 1 k v'))"

lemma progresses_awaited:
  assumes "progresses J f" and "can_settle J 1 m v"
  shows "\<exists>x v'. awaited (Suc m) f v = Some (x, v')"
  using awaited_completes [of "can_settle J 1" f "\<lambda>_ _. True" m v "Suc m"] assms
  by (fastforce simp: progresses_def)

lemma awaited_flush_settles: "awaited l (flush_on S) v = Some (Inr (), v') \<Longrightarrow> vs_write_pending v' = []"
  by (induction l arbitrary: v) (auto split: prod.splits poll.splits dest: flush_on_done)

locale answering_stream = direct_stream S
  for S :: "'i stream_ops" +
  fixes J :: "nat \<Rightarrow> nat \<Rightarrow> 'i \<Rightarrow> bool"
  assumes answering: "answers S J"
begin

lemma answered_ops:
  "answered J (so_write S d)" "answered J (so_write_direct S d)" "answered J (so_flush S)"
  "answered J (so_shutdown S)" "answered J (so_flush_direct S)" "answered J (so_shutdown_direct S)"
  using answering by (simp_all add: answers_def)

lemma fewer: "J n m i \<Longrightarrow> k \<le> n \<Longrightarrow> J k m i"
proof (induction n)
  case (Suc n)
  then show ?case using answering by (cases "k = Suc n") (auto simp: answers_def)
qed simp

lemma write_all_returns:
  "J n m i \<Longrightarrow> length d \<le> n \<Longrightarrow>
     \<exists>r j k. write_all_on S d i = Some (r, j) \<and> (r = Inr () \<longrightarrow> k \<le> m \<and> J (n - length d) k j)"
proof (induction "(length d, m)" arbitrary: d m n i rule: wf_induct [OF wf_lex_prod [OF wf_less_than wf_less_than]])
  case 1
  then have IH: "\<exists>r j k. write_all_on S d' i' = Some (r, j) \<and> (r = Inr () \<longrightarrow> k \<le> m' \<and> J (n' - length d') k j)"
    if "length d' < length d \<or> length d' = length d \<and> m' < m" "J n' m' i'" "length d' \<le> n'" for d' m' n' i'
    using 1(1) [rule_format, of "(length d', m')" d' m' n' i'] that by simp
  show ?case
  proof (cases "d = []")
    case True
    then show ?thesis using 1(2) by (auto simp: write_all_on.simps)
  next
    case False
    obtain p j where w: "so_write S d i = (p, j)" by fastforce
    show ?thesis
    proof (cases p)
      case Pending
      obtain k where k: "k < m" "J n k j"
        using answered_pending [OF answered_ops(1) 1(2), of d j] w Pending False 1(3) by (auto simp: Suc_le_eq)
      from IH [OF _ k(2) 1(3)] k(1) obtain r i' l where
        "write_all_on S d j = Some (r, i')" "r = Inr () \<longrightarrow> l \<le> k \<and> J (n - length d) l i'" by blast
      with k(1) w Pending False show ?thesis
        by (intro exI [of _ r] exI [of _ i'] exI [of _ l]) (auto simp: write_all_on.simps [of S d i])
    next
      case (Ready x)
      show ?thesis
      proof (cases "\<exists>l. x = Inr l \<and> 0 < l")
        case other: False
        then show ?thesis using w Ready False
          by (auto simp: write_all_on.simps [of S d i] split: sum.splits)
      next
        case True
        then obtain l where l: "x = Inr l" "0 < l" by blast
        have fits: "l \<le> length d" using write_fits [of d i l] w Ready l by simp
        obtain n' where n': "n = Suc n'" using 1(3) False by (cases n) auto
        have J: "J n' m j" using answered_ready [OF answered_ops(1) _, of n' m i d x j] w Ready 1(2) n' by simp
        have J': "J (n' - (l - 1)) m j" by (rule fewer [OF J]) simp
        have len: "length (drop l d) < length d" "length (drop l d) \<le> n' - (l - 1)"
          "n' - (l - 1) - length (drop l d) = n - length d"
          using l(2) fits False 1(3) n' by auto
        from IH [OF disjI1 [OF len(1)] J' len(2)] obtain r i' k where
          "write_all_on S (drop l d) j = Some (r, i')" "r = Inr () \<longrightarrow> k \<le> m \<and> J (n - length d) k i'"
          unfolding len(3) by blast
        with w Ready l False show ?thesis by (auto simp: write_all_on.simps [of S d i])
      qed
    qed
  qed
qed

lemma flush_all_returns: "J (Suc n) m i \<Longrightarrow> \<exists>r j. flush_all_on S i = Some (r, j)"
proof (induction m arbitrary: i rule: less_induct)
  case (less m)
  obtain p j where f: "so_flush S i = (p, j)" by fastforce
  show ?case
  proof (cases p)
    case Pending
    with f answered_pending [OF answered_ops(3) less.prems, of j] obtain k where "k < m" "J (Suc n) k j" by auto
    from less.IH [OF this] f Pending show ?thesis by (simp add: flush_all_on.simps [of S i])
  qed (use f in \<open>simp add: flush_all_on.simps [of S i]\<close>)
qed

text \<open>
  The pending frames are written with at most as many answers as they are bytes; a poll that is
  pending has met a pending answer.
\<close>

lemma drain_progress:
  "J n m (vs_inner v) \<Longrightarrow> length (vs_write_pending v) \<le> n \<Longrightarrow> drain_on S v = (p, v') \<Longrightarrow>
     vs_padder v' = vs_padder v \<and> vs_uplink_raw v' = vs_uplink_raw v \<and>
     length (vs_write_pending v') \<le> length (vs_write_pending v) \<and>
     (case p of
        Pending \<Rightarrow> \<exists>k < m. J (n - (length (vs_write_pending v) - length (vs_write_pending v'))) k (vs_inner v')
      | Ready x \<Rightarrow> x = Inr () \<longrightarrow> vs_write_pending v' = [] \<and> J (n - length (vs_write_pending v)) m (vs_inner v'))"
proof (induction "length (vs_write_pending v)" arbitrary: n v rule: less_induct)
  case less
  let ?d = "vs_write_pending v"
  show ?case
  proof (cases "?d = []")
    case True
    then show ?thesis using less.prems by (auto simp: drain_on.simps)
  next
    case False
    obtain q i where q: "so_write S ?d (vs_inner v) = (q, i)" by fastforce
    obtain n' where n': "n = Suc n'" using less.prems(2) False by (cases n) auto
    show ?thesis
    proof (cases "\<exists>l. q = Ready (Inr l) \<and> 0 < l")
      case True
      then obtain l where l: "q = Ready (Inr l)" "0 < l" by blast
      let ?v = "v\<lparr>vs_inner := i, vs_write_pending := drop l ?d\<rparr>"
      have fits: "l \<le> length ?d" using write_fits [of ?d "vs_inner v" l] q l by simp
      have "J n' m i" using answered_ready [OF answered_ops(1) _, of n' m "vs_inner v" ?d "Inr l" i] q l(1) less.prems(1) n' by simp
      then have J: "J (n - l) m (vs_inner ?v)" using fewer [of n' m i "n - l"] l(2) n' by simp
      have "length (vs_write_pending ?v) < length ?d" "length (vs_write_pending ?v) \<le> n - l"
        using l(2) fits False less.prems(2) by auto
      note IH = less.hyps [OF this(1) J this(2)]
      have "drain_on S ?v = (p, v')" using less.prems(3) q l False by (simp add: drain_on.simps [of S v])
      with IH fits show ?thesis by (auto split: poll.splits)
    next
      case other: False
      then have v': "v' = v\<lparr>vs_inner := i\<rparr>" "p = Pending \<and> q = Pending \<or> (\<exists>e. p = Ready (Inl e))"
        using less.prems(3) q False by (auto simp: drain_on.simps [of S v] split: poll.splits sum.splits if_splits)
      have "q = Pending \<Longrightarrow> \<exists>k < m. J n k i"
        using answered_pending [OF answered_ops(1) less.prems(1), of ?d i] q n' by auto
      with v' show ?thesis by auto
    qed
  qed
qed

lemma settle_progress:
  assumes "J n m (vs_inner v)" and "owed v \<le> n" and "settle_on S v = (p, v')"
  shows "case p of
      Pending \<Rightarrow> owed v' \<le> owed v \<and> (\<exists>k < m. J (n - (owed v - owed v')) k (vs_inner v'))
    | Ready x \<Rightarrow> x = Inr () \<longrightarrow> owed v' = 0 \<and> J (n - owed v) m (vs_inner v')"
proof -
  obtain q w where d: "drain_on S v = (q, w)" by fastforce
  have "length (vs_write_pending v) \<le> n" using assms(2) by (simp add: owed_def)
  note dr = drain_progress [OF assms(1) this d]
  show ?thesis
  proof (cases "q = Ready (Inr ())")
    case False
    then have "p = q" "v' = w" using assms(3) d by (auto simp: settle_on_def split: poll.splits sum.splits)
    with dr False show ?thesis by (auto simp: owed_def split: poll.splits)
  next
    case True
    with dr have w: "vs_padder w = vs_padder v" "vs_uplink_raw w = vs_uplink_raw v" "vs_write_pending w = []"
      "J (n - length (vs_write_pending v)) m (vs_inner w)" by simp_all
    show ?thesis
    proof (cases "wants_direct (vs_padder w) \<and> \<not> vs_uplink_raw w")
      case False
      then have "p = Ready (Inr ())" "v' = w" using assms(3) d True by (auto simp: settle_on_def)
      with w False show ?thesis by (auto simp: owed_def)
    next
      case switch: True
      obtain c j where f: "so_flush S (vs_inner w) = (c, j)" by fastforce
      have o: "owed v = Suc (length (vs_write_pending v))" "owed w = 1" using switch w by (simp_all add: owed_def)
      then obtain n' where n': "n - length (vs_write_pending v) = Suc n'" "n - owed v = n'" using assms(2)
        by (cases "n - length (vs_write_pending v)") auto
      have "c = Pending \<Longrightarrow> \<exists>k < m. J (Suc n') k j"
        using answered_pending [OF answered_ops(3) w(4), of j] f n' by auto
      moreover have "c = Ready x \<Longrightarrow> J n' m j" for x
        using answered_ready [OF answered_ops(3) _, of n' m "vs_inner w" x j] w(4) f n' by simp
      moreover have "n - (owed v - owed w) = Suc n'" using o n' by simp
      ultimately show ?thesis
        using assms(3) d True switch f o n'(2) w(3)
        by (auto simp: settle_on_def owed_def split: poll.splits sum.splits)
    qed
  qed
qed

text \<open>
  So a call that makes at most one call of its own after settling is, when it is pending, one
  that met a pending answer, and can be made again.
\<close>

lemma settle_can:
  assumes "can_settle J 1 m v" and "settle_on S v = (p, v')"
  shows "p = Pending \<Longrightarrow> \<exists>k < m. can_settle J 1 k v'"
    and "p = Ready (Inr ()) \<Longrightarrow> owed v' = 0 \<and> (\<exists>n. J (Suc n) m (vs_inner v'))"
proof -
  obtain n where n: "J n m (vs_inner v)" "owed v + 1 \<le> n" using assms(1) by (auto simp: can_settle_def)
  then have "owed v \<le> n" by simp
  note st = settle_progress [OF n(1) this assms(2)]
  show "\<exists>k < m. can_settle J 1 k v'" if "p = Pending"
  proof -
    from st that obtain k where "owed v' \<le> owed v" "k < m" "J (n - (owed v - owed v')) k (vs_inner v')" by auto
    moreover have "owed v' + 1 \<le> n - (owed v - owed v')" using n(2) \<open>owed v' \<le> owed v\<close> by simp
    ultimately show ?thesis unfolding can_settle_def by blast
  qed
  show "owed v' = 0 \<and> (\<exists>n. J (Suc n) m (vs_inner v'))" if "p = Ready (Inr ())"
  proof -
    from st that have "owed v' = 0" "J (n - owed v) m (vs_inner v')" by simp_all
    moreover have "n - owed v = Suc (n - owed v - 1)" using n(2) by simp
    ultimately show ?thesis by metis
  qed
qed

lemma own_call:
  assumes "answered J f" and "owed w = 0" and "J (Suc n) m (vs_inner w)" and "f (vs_inner w) = (Pending, j)"
  shows "\<exists>k < m. can_settle J 1 k (w\<lparr>vs_inner := j\<rparr>)"
proof -
  obtain k where "k < m" "J (Suc n) k j" by (rule answered_pending [OF assms(1,3,4)]) auto
  moreover have "owed (w\<lparr>vs_inner := j\<rparr>) = 0" using assms(2) by (simp add: owed_def)
  ultimately show ?thesis unfolding can_settle_def by (intro exI [of _ k] conjI exI [of _ "Suc n"]) simp_all
qed

lemma settles_then:
  assumes "\<And>v w. settle_on S v = (Pending, w) \<Longrightarrow> f v = (Pending, w)"
    and "\<And>v e w. settle_on S v = (Ready (Inl e), w) \<Longrightarrow> \<exists>x v'. f v = (Ready x, v')"
    and "\<And>v w. settle_on S v = (Ready (Inr ()), w) \<Longrightarrow>
           (\<exists>x v'. f v = (Ready x, v')) \<or>
           (\<exists>g (w' :: ('i, 'r) vision_over). answered J g \<and> owed w' = owed w \<and>
              f v = (case g (vs_inner w) of (c, j) \<Rightarrow> (c, w'\<lparr>vs_inner := j\<rparr>)))"
  shows "progresses J f"
  unfolding progresses_def
proof (intro allI impI)
  fix m and v :: "('i, 'r) vision_over"
  assume c: "can_settle J 1 m v"
  obtain p w where s: "settle_on S v = (p, w)" by fastforce
  consider "p = Pending" | e where "p = Ready (Inl e)" | "p = Ready (Inr ())"
    by (metis poll.exhaust sum.exhaust old.unit.exhaust)
  then show "(\<exists>x v'. f v = (Ready x, v')) \<or> (\<exists>v' k. f v = (Pending, v') \<and> k < m \<and> can_settle J 1 k v')"
  proof cases
    case 1
    with settle_can(1) [OF c s] assms(1) s show ?thesis by blast
  next
    case 2
    with assms(2) s show ?thesis by blast
  next
    case 3
    with settle_can(2) [OF c s] obtain n where w: "owed w = 0" "J (Suc n) m (vs_inner w)" by blast
    from assms(3) s 3 consider x v' where "f v = (Ready x, v')"
      | g w' where "answered J g" "owed w' = owed w" "f v = (case g (vs_inner w) of (c, j) \<Rightarrow> (c, w'\<lparr>vs_inner := j\<rparr>))"
      by blast
    then show ?thesis
    proof cases
      case 2
      obtain c j where g: "g (vs_inner w) = (c, j)" by fastforce
      have "owed (w'\<lparr>vs_inner := vs_inner w\<rparr>) = 0" using 2(2) w(1) by (simp add: owed_def)
      from own_call [OF 2(1) this, of n m j] w(2) g have
        "c = Pending \<Longrightarrow> \<exists>k < m. can_settle J 1 k (w'\<lparr>vs_inner := j\<rparr>)" by simp
      with 2(3) g show ?thesis by (cases c) auto
    qed blast
  qed
qed

lemma flush_progresses: "progresses J (flush_on S)"
proof (rule settles_then)
  fix v w
  assume s: "settle_on S v = (Ready (Inr ()), w)"
  let ?g = "if vs_uplink_raw w then so_flush_direct S else so_flush S"
  have "flush_on S v = (case ?g (vs_inner w) of (c, j) \<Rightarrow> (c, w\<lparr>vs_inner := j\<rparr>))" using s by (simp add: flush_on_def)
  moreover have "answered J ?g" using answered_ops by simp
  ultimately show "(\<exists>x v'. flush_on S v = (Ready x, v')) \<or>
      (\<exists>g w'. answered J g \<and> owed w' = owed w \<and> flush_on S v = (case g (vs_inner w) of (c, j) \<Rightarrow> (c, w'\<lparr>vs_inner := j\<rparr>)))"
    by blast
qed (simp_all add: flush_on_def)

lemma shutdown_progresses: "progresses J (shutdown_on S)"
proof (rule settles_then)
  fix v w
  assume s: "settle_on S v = (Ready (Inr ()), w)"
  let ?g = "if vs_uplink_raw w then so_shutdown_direct S else so_shutdown S"
  have "shutdown_on S v = (case ?g (vs_inner w) of (c, j) \<Rightarrow> (c, w\<lparr>vs_inner := j\<rparr>))"
    using s by (simp add: shutdown_on_def)
  moreover have "answered J ?g" using answered_ops by simp
  ultimately show "(\<exists>x v'. shutdown_on S v = (Ready x, v')) \<or>
      (\<exists>g w'. answered J g \<and> owed w' = owed w \<and> shutdown_on S v = (case g (vs_inner w) of (c, j) \<Rightarrow> (c, w'\<lparr>vs_inner := j\<rparr>)))"
    by blast
qed (simp_all add: shutdown_on_def)

lemma write_progresses:
  fixes rr :: "'r rng"
  shows "progresses J (write_on S rr b)"
proof (rule settles_then)
  fix v w :: "('i, 'r) vision_over"
  assume s: "settle_on S v = (Ready (Inr ()), w)"
  show "(\<exists>x v'. write_on S rr b v = (Ready x, v')) \<or>
      (\<exists>g w'. answered J g \<and> owed w' = owed w \<and> write_on S rr b v = (case g (vs_inner w) of (c, j) \<Rightarrow> (c, w'\<lparr>vs_inner := j\<rparr>)))"
  proof (cases "padding_done (vs_padder w)")
    case False
    then show ?thesis using s by (auto simp: write_on_def Let_def split: prod.split poll.split sum.split)
  next
    case True
    let ?w = "w\<lparr>vs_traffic := traffic_filter (vs_traffic w) b\<rparr>"
    let ?g = "if vs_uplink_raw w then so_write_direct S b else so_write S b"
    have "write_on S rr b v = (case ?g (vs_inner w) of (c, j) \<Rightarrow> (c, ?w\<lparr>vs_inner := j\<rparr>))" using s True
      by (simp add: write_on_def Let_def)
    moreover have "answered J ?g" "owed ?w = owed w" using answered_ops by (simp_all add: owed_def)
    ultimately show ?thesis by blast
  qed
qed (simp_all add: write_on_def)

text \<open>The first write needs an answer for each byte of the header and its frames, and the flush.\<close>

lemma first_write_returns:
  assumes "J n m x" and "length header + pending_bound (length payload) < n" and "length uuid = 16"
  shows "\<exists>r v'. write_first_on S rr header payload (vision_client x uuid g) = Some (r, v')"
proof -
  let ?v = "vision_client x uuid g"
  obtain frame p ts g' where f: "first_frame rr payload ?v = (frame, p, ts, g')" by (metis prod_cases4)
  have u: "uuid_fits (vs_padder ?v)" "pd_padding (vs_padder ?v)"
    using assms(3) by (simp_all add: vision_client_def vision_new_def padder_new_def uuid_fits_def)
  have "length frame \<le> pending_bound (length payload)"
  proof (cases "payload = []")
    case True
    then obtain r' where "xtls_padding_into rr (vs_rng ?v) [] [] cmd_padding_continue (pd_uuid (vs_padder ?v)) True = (frame, r')"
      using f by (auto simp: first_frame_def camouflage_def xtls_padding_def Let_def split: prod.splits)
    from frame_fits [OF _ u(1) this] show ?thesis by (simp add: pending_bound_def)
  next
    case False
    then show ?thesis using f pad_into_fits(1) [OF _ u]
      by (auto simp: first_frame_def pad_def pending_bound_def Let_def split: prod.splits)
  qed
  then have len: "length (header @ frame) < n" using assms(2) by simp
  from write_all_returns [OF assms(1), of "header @ frame"] len obtain r j k where
    w: "write_all_on S (header @ frame) x = Some (r, j)" "r = Inr () \<longrightarrow> k \<le> m \<and> J (n - length (header @ frame)) k j"
    by auto
  have x: "vs_inner ?v = x" by (simp add: vision_client_def vision_new_def)
  show ?thesis
  proof (cases r)
    case Inl
    then show ?thesis using w(1) by (simp add: write_first_on_eq [OF f] x)
  next
    case (Inr y)
    obtain l where "n - length (header @ frame) = Suc l" using len by (cases "n - length (header @ frame)") auto
    with w(2) Inr flush_all_returns [of l k j] obtain r' j' where "flush_all_on S j = Some (r', j')" by auto
    with w(1) Inr show ?thesis by (simp add: write_first_on_eq [OF f] x)
  qed
qed

end

text \<open>A stream without TLS, over a socket with enough answers left.\<close>

definition enough :: "nat \<Rightarrow> nat \<Rightarrow> wr_half \<Rightarrow> bool" where
  "enough n m w \<longleftrightarrow>
     n \<le> length (filter (\<lambda>a. a \<noteq> Wait) (wh_answers w)) \<and> length (filter (\<lambda>a. a = Wait) (wh_answers w)) \<le> m"

lemma sock_answered:
  "answered enough (sock_write d)" "answered enough sock_flush" "answered enough sock_shutdown"
proof -
  have *: "answered enough f"
    if "\<And>w p w'. f w = (p, w') \<Longrightarrow> wh_answers w \<noteq> [] \<Longrightarrow>
          wh_answers w' = tl (wh_answers w) \<and> (p = Pending \<longleftrightarrow> hd (wh_answers w) = Wait)"
    for f :: "wr_half \<Rightarrow> 'a poll \<times> wr_half"
    unfolding answered_def
  proof (intro allI impI)
    fix n m i p j
    assume e: "enough (Suc n) m i" and f: "f i = (p, j)"
    then obtain a as where as: "wh_answers i = a # as" by (cases "wh_answers i") (auto simp: enough_def)
    with that [OF f] e show "case p of Ready x \<Rightarrow> enough n m j | Pending \<Rightarrow> \<exists>k<m. enough (Suc n) k j"
      by (cases p) (auto simp: enough_def split: if_splits intro!: exI [of _ "m - 1"])
  qed
  show "answered enough (sock_write d)" by (rule *) (auto simp: sock_write_def neq_Nil_conv split: wr_answer.splits)
  show "answered enough sock_flush" by (rule *) (auto simp: sock_flush_def neq_Nil_conv split: wr_answer.splits)
  show "answered enough sock_shutdown"
    by (rule *) (auto simp: sock_shutdown_def sock_flush_def neq_Nil_conv split: wr_answer.splits prod.splits if_splits)
qed

lemma answered_field:
  assumes "answered A f" and "\<And>s p s'. g s = (p, s') \<Longrightarrow> f (out s) = (p, out s')"
  shows "answered (\<lambda>n m s. A n m (out s)) g"
  unfolding answered_def
proof (intro allI impI)
  fix n m s p s'
  assume "A (Suc n) m (out s)" and "g s = (p, s')"
  with assms(1) assms(2) [of s p s'] show "case p of Ready x \<Rightarrow> A n m (out s') | Pending \<Rightarrow> \<exists>k < m. A (Suc n) k (out s')"
    unfolding answered_def by blast
qed

lemma enough_fewer: "enough (Suc n) m w \<Longrightarrow> enough n m w"
  by (simp add: enough_def)

lemma duplex_answers: "answers duplex_ops (\<lambda>n m s. enough n m (dx_out s))"
proof -
  have put: "answered (\<lambda>n m s. enough n m (dx_out s)) (duplex_put f)" if "answered enough f" for f :: "wr_half \<Rightarrow> 'a poll \<times> wr_half"
    by (rule answered_field [OF that]) (auto simp: duplex_put_def split: prod.splits)
  show ?thesis
    unfolding answers_def duplex_ops_def by (simp add: put sock_answered enough_fewer)
qed

interpretation dx_live: answering_stream duplex_ops "\<lambda>n m s. enough n m (dx_out s)"
  by unfold_locales (rule duplex_answers)

lemma clear_answers: "answers (tls_ops clear_tls) (\<lambda>n m s. enough n m (gs_out (ts_io s)))"
proof -
  let ?J = "\<lambda>n m (s :: clear_state tls_stream). enough n m (gs_out (ts_io s))"
  note socket = answered_field [where out = "\<lambda>s. gs_out (ts_io s)"]
  have "answered ?J (tls_write_direct d)" for d :: bytes
    by (rule socket [OF sock_answered(1) [of d]]) (auto simp: tls_write_direct_def split: prod.splits)
  moreover have "answered ?J tls_flush_direct"
    by (rule socket [OF sock_answered(2)]) (auto simp: tls_flush_direct_def split: prod.splits)
  moreover have "answered ?J tls_shutdown_direct"
    by (rule socket [OF sock_answered(3)]) (auto simp: tls_shutdown_direct_def split: prod.splits)
  moreover have "answered ?J (through_tls (clear_write d))" for d
    by (rule socket [OF sock_answered(1) [of d]])
      (auto simp: through_tls_def clear_write_def gate_poll_write_def split: prod.splits)
  moreover have "answered ?J
      (through_tls (\<lambda>t g. case gate_poll_flush g of (r, g) \<Rightarrow> (r, t, g)))"
    by (rule socket [OF sock_answered(2)]) (auto simp: through_tls_def gate_poll_flush_def split: prod.splits)
  moreover have "answered ?J
      (through_tls (\<lambda>t g. case gate_poll_shutdown g of (r, g) \<Rightarrow> (r, t, g)))"
    by (rule socket [OF sock_answered(3)]) (auto simp: through_tls_def gate_poll_shutdown_def split: prod.splits)
  ultimately show ?thesis
    unfolding answers_def by (simp add: clear_tls_def enough_fewer)
qed

interpretation clear_live: answering_stream "tls_ops clear_tls" "\<lambda>n m s. enough n m (gs_out (ts_io s))"
  by (rule answering_stream.intro [OF tls_stream_contract [OF clear_laws] answering_stream_axioms.intro [OF clear_answers]])

text \<open>
  C14: Calls complete. Over any stream below that answers and is pending at most \<open>m\<close> times
  meanwhile, a flush, a shutdown and a write of the stream that are awaited are ready after at
  most \<open>m + 1\<close> polls if one answer is left for each pending byte, for the flush in front of the switch and for
  the call itself; after a flush that succeeded no frame waits; and the first write returns if an
  answer is left for each byte of the header and of the frames and for the flush.
\<close>

theorem calls_complete:
  assumes "io_contract S" and "answers S J" and "J n m (vs_inner v)" and "owed v < n"
  shows "(\<exists>x v'. awaited (Suc m) (flush_on S) v = Some (x, v') \<and> (x = Inr () \<longrightarrow> vs_write_pending v' = [])) \<and>
    (\<exists>x v'. awaited (Suc m) (shutdown_on S) v = Some (x, v')) \<and>
    (\<exists>x v'. awaited (Suc m) (write_on S rr b) v = Some (x, v')) \<and>
    (length uuid = 16 \<and> length header + pending_bound (length payload) < n \<longrightarrow>
       (\<exists>x v'. write_first_on S rr header payload (vision_client (vs_inner v) uuid g) = Some (x, v')))"
proof -
  have lib: "answering_stream S J"
    using assms(1,2) by (simp add: answering_stream_def answering_stream_axioms_def direct_stream_iff)
  have c: "can_settle J 1 m v" using assms(3,4) by (auto simp: can_settle_def Suc_le_eq)
  have "\<exists>x v'. awaited (Suc m) (flush_on S) v = Some (x, v') \<and> (x = Inr () \<longrightarrow> vs_write_pending v' = [])"
    using progresses_awaited [OF answering_stream.flush_progresses [OF lib] c] awaited_flush_settles by blast
  moreover have "\<exists>x v'. awaited (Suc m) (shutdown_on S) v = Some (x, v')"
    by (rule progresses_awaited [OF answering_stream.shutdown_progresses [OF lib] c])
  moreover have "\<exists>x v'. awaited (Suc m) (write_on S rr b) v = Some (x, v')"
    by (rule progresses_awaited [OF answering_stream.write_progresses [OF lib] c])
  moreover have "\<exists>x v'. write_first_on S rr header payload (vision_client (vs_inner v) uuid g) = Some (x, v')"
    if "length uuid = 16 \<and> length header + pending_bound (length payload) < n"
    using that by (intro answering_stream.first_write_returns [OF lib assms(3)]) simp_all
  ultimately show ?thesis by simp
qed

theorem calls_complete_witness:
  "\<exists>x v'. awaited 2 (flush_on duplex_ops)
     ((vision_client \<lparr>dx_in = [], dx_out = \<lparr>wh_answers = [Accept 1, Wait, Accept 1, Accept 9, Accept 0], wh_sent = [],
         wh_shut = False\<rparr>\<rparr> sample_uuid ())\<lparr>vs_write_pending := [1, 2, 3]\<rparr>) = Some (x, v') \<and>
     (x = Inr () \<longrightarrow> vs_write_pending v' = [])"
proof -
  let ?v = "(vision_client \<lparr>dx_in = [], dx_out = \<lparr>wh_answers = [Accept 1, Wait, Accept 1, Accept 9, Accept 0], wh_sent = [],
      wh_shut = False\<rparr>\<rparr> sample_uuid ())\<lparr>vs_write_pending := [1, 2, 3]\<rparr>"
  have "enough 4 1 (dx_out (vs_inner ?v))" "owed ?v < 4"
    by (simp_all add: enough_def owed_def vision_client_def vision_new_def padder_new_def wants_direct_def)
  moreover have "io_contract duplex_ops" using duplexed.direct_stream_axioms by (simp add: direct_stream_iff)
  ultimately show ?thesis
    using calls_complete [of duplex_ops "\<lambda>n m s. enough n m (dx_out s)" 4 1 ?v sample_rng] duplex_answers
    by (simp add: numeral_2_eq_2)
qed

end
