(* ===== verification/RealityServer.thy ===== *)
theory RealityServer
  imports RealityConnect
begin

text \<open>
  The server's side of \<^verbatim>\<open>src/outbound/reality.rs\<close>, as its tests port it: reading the extensions and
  key shares of a ClientHello, and the choice of the client's x25519 key among them, which decides
  whether a REALITY server authenticates a client at all. With it, that the server finds the right key
  in what this client sends. The construction of a ClientHello in rustls is a parameter (\<open>rustls\<close>).
\<close>

section \<open>Reading a ClientHello\<close>

text \<open>Indexing outside of the bytes panics: \<open>None\<close>.\<close>

definition u8_at :: "bytes \<Rightarrow> nat \<Rightarrow> nat option" where
  "u8_at b i = (if i < length b then Some (unat (b ! i)) else None)"

definition u16_at :: "bytes \<Rightarrow> nat \<Rightarrow> nat option" where
  "u16_at b i = (if i + 1 < length b then Some (unat (be_u16 (b ! i) (b ! (i + 1)))) else None)"

function extension_from :: "bytes \<Rightarrow> u16 \<Rightarrow> nat \<Rightarrow> nat \<Rightarrow> bytes option option" where
  "extension_from hello ty ext_end i =
     (if i < ext_end then
        Option.bind (u16_at hello (i + 2)) (\<lambda>len.
        Option.bind (u16_at hello i) (\<lambda>t.
          if t = unat ty then map_option Some (get_range (i + 4) (i + 4 + len) hello)
          else extension_from hello ty ext_end (i + (4 + len))))
      else Some None)"
  by pat_completeness auto
termination by (relation "measure (\<lambda>(hello, ty, ext_end, i). ext_end - i)") auto

declare extension_from.simps [simp del]

definition extension :: "bytes \<Rightarrow> u16 \<Rightarrow> bytes option option" where
  "extension hello ty =
     (let i = 4 + 2 + random_len in
      Option.bind (u8_at hello i) (\<lambda>sid.
      let i = i + (1 + sid) in
      Option.bind (u16_at hello i) (\<lambda>suites.
      let i = i + (2 + suites) in
      Option.bind (u8_at hello i) (\<lambda>comps.
      let i = i + (1 + comps) in
      Option.bind (u16_at hello i) (\<lambda>exts.
        extension_from hello ty (i + 2 + exts) (i + 2))))))"

function key_shares_from :: "bytes \<Rightarrow> nat \<Rightarrow> (u16 \<times> bytes) list option" where
  "key_shares_from data j =
     (if j < length data then
        Option.bind (u16_at data j) (\<lambda>group.
        Option.bind (u16_at data (j + 2)) (\<lambda>klen.
        Option.bind (get_range (j + 4) (j + 4 + klen) data) (\<lambda>share.
          map_option (Cons (of_nat group, share)) (key_shares_from data (j + (4 + klen))))))
      else Some [])"
  by pat_completeness auto
termination by (relation "measure (\<lambda>(data, j). length data - j)") auto

declare key_shares_from.simps [simp del]

definition key_shares :: "bytes \<Rightarrow> (u16 \<times> bytes) list option" where
  "key_shares hello =
     Option.bind (extension hello 0x0033) (\<lambda>ext. case ext of None \<Rightarrow> Some [] | Some data \<Rightarrow> key_shares_from data 2)"

text \<open>
  The loop with which the server chooses the client's x25519 key, as the test ports it: a second share
  of a kind makes it give up, the first separate x25519 share ends it.
\<close>

fun peer_pub_loop :: "(u16 \<times> bytes) list \<Rightarrow> bytes option \<Rightarrow> bytes option \<Rightarrow> bytes option \<times> bytes option" where
  "peer_pub_loop [] peer_pub peer_pub2 = (peer_pub, peer_pub2)"
| "peer_pub_loop ((kind, share) # shares) peer_pub peer_pub2 =
     (if kind = 0x11ec \<and> length share = 1184 + 32 then
        if peer_pub2 \<noteq> None then (peer_pub, None)
        else peer_pub_loop shares peer_pub (Some (drop 1184 share))
      else if kind = 0x001d \<and> length share = 32 then
        if peer_pub \<noteq> None then (peer_pub, None) else (Some share, peer_pub2)
      else peer_pub_loop shares peer_pub peer_pub2)"

definition reality_server_peer_pub :: "(u16 \<times> bytes) list \<Rightarrow> bytes option" where
  "reality_server_peer_pub shares =
     (case peer_pub_loop shares None None of
        (_, None) \<Rightarrow> None
      | (peer_pub, Some peer_pub2) \<Rightarrow> Some (case peer_pub of Some k \<Rightarrow> k | None \<Rightarrow> peer_pub2))"

lemma peer_pub_gives_up: "reality_server_peer_pub shares = None \<longleftrightarrow> snd (peer_pub_loop shares None None) = None"
  by (cases "peer_pub_loop shares None None") (simp add: reality_server_peer_pub_def split: option.splits)

text \<open>The server gives up on every list without exactly one hybrid share before the separate one.\<close>

lemma peer_pub_none:
  assumes "\<forall>(g, d) \<in> set shares. \<not> (g = 0x11ec \<and> length d = 1184 + 32)"
  shows "reality_server_peer_pub shares = None"
proof -
  have "snd (peer_pub_loop shares p None) = None" for p
    using assms by (induction shares p "None :: bytes option" rule: peer_pub_loop.induct) auto
  then show ?thesis by (simp add: peer_pub_gives_up)
qed

lemma peer_pub_late:
  assumes "length k = 32" and "\<forall>(g, d) \<in> set before. g \<noteq> 0x11ec"
  shows "reality_server_peer_pub (before @ (0x001d, k) # after) = None"
proof -
  have "snd (peer_pub_loop (before @ (0x001d, k) # after) None None) = None"
    using assms(2) by (induction before) (auto simp: assms(1))
  then show ?thesis by (simp add: peer_pub_gives_up)
qed

section \<open>What rustls writes\<close>

text \<open>The layout of a ClientHello message (RFC 8446, 4.1.2) and of its extensions.\<close>

definition ext_bytes :: "u16 \<times> bytes \<Rightarrow> bytes" where
  "ext_bytes e = u16_be (fst e) @ u16_be (of_nat (length (snd e))) @ snd e"

definition ext_block :: "(u16 \<times> bytes) list \<Rightarrow> bytes" where
  "ext_block exts = concat (map ext_bytes exts)"

definition hello_bytes :: "bytes \<Rightarrow> bytes \<Rightarrow> bytes \<Rightarrow> bytes \<Rightarrow> bytes \<Rightarrow> (u16 \<times> bytes) list \<Rightarrow> bytes" where
  "hello_bytes len random sid suites comps exts =
     [1] @ len @ [3, 3] @ random @ [of_nat (length sid)] @ sid @ u16_be (of_nat (length suites)) @ suites
       @ [of_nat (length comps)] @ comps @ u16_be (of_nat (length (ext_block exts))) @ ext_block exts"

definition hello_ok :: "bytes \<Rightarrow> bytes \<Rightarrow> bytes \<Rightarrow> bytes \<Rightarrow> bytes \<Rightarrow> (u16 \<times> bytes) list \<Rightarrow> bool" where
  "hello_ok len random sid suites comps exts \<longleftrightarrow>
     length len = 3 \<and> length random = 32 \<and> length sid < 256 \<and> length suites < 65536 \<and> length comps < 256 \<and>
     length (ext_block exts) < 65536"

lemma u8_at_mid [simp]: "u8_at (pre @ b # post) (length pre) = Some (unat b)"
  by (simp add: u8_at_def)

lemma u16_at_mid: "n = length pre \<Longrightarrow> u16_at (pre @ u16_be w @ post) n = Some (unat w)"
  by (simp add: u16_at_def u16_be_def nth_append be_u16_u16_be [unfolded u16_be_def])

lemma get_range_mid: "a = length pre \<Longrightarrow> b = length pre + length d \<Longrightarrow> get_range a b (pre @ d @ post) = Some d"
  by (simp add: get_range_def slice_def)

lemma ext_block_Cons: "ext_block (e # exts) = u16_be (fst e) @ u16_be (of_nat (length (snd e))) @ snd e @ ext_block exts"
  by (simp add: ext_block_def ext_bytes_def)

lemma ext_lengths: "length (ext_block (e # exts)) = 4 + length (snd e) + length (ext_block exts)"
  by (simp add: ext_block_Cons)

lemma extension_from_block:
  assumes "length (ext_block exts) < 65536" and "ext_end = length pre + length (ext_block exts)"
  shows "extension_from (pre @ ext_block exts) ty ext_end (length pre) = Some (map_of exts ty)"
  using assms
proof (induction exts arbitrary: pre)
  case Nil
  then show ?case by (subst extension_from.simps) (simp add: ext_block_def)
next
  case (Cons e exts)
  let ?t = "u16_be (fst e)" and ?l = "u16_be (of_nat (length (snd e)) :: u16)"
  have l: "length (snd e) < 65536" using Cons.prems(1) by (simp add: ext_lengths)
  have len: "u16_at (pre @ ext_block (e # exts)) (length pre + 2) = Some (length (snd e))"
    using u16_at_mid [of "length pre + 2" "pre @ ?t" "of_nat (length (snd e))" "snd e @ ext_block exts"] l
    by (simp add: ext_block_Cons)
  have ty: "u16_at (pre @ ext_block (e # exts)) (length pre) = Some (unat (fst e))"
    using u16_at_mid [of "length pre" pre "fst e" "?l @ snd e @ ext_block exts"] by (simp add: ext_block_Cons)
  have range: "get_range (length pre + 4) (length pre + 4 + length (snd e)) (pre @ ext_block (e # exts)) = Some (snd e)"
    using get_range_mid [of "length pre + 4" "pre @ ?t @ ?l" "length pre + 4 + length (snd e)" "snd e" "ext_block exts"]
    by (simp add: ext_block_Cons)
  have split: "pre @ ext_block (e # exts) = (pre @ ?t @ ?l @ snd e) @ ext_block exts"
    "length pre + (4 + length (snd e)) = length (pre @ ?t @ ?l @ snd e)"
    by (simp_all add: ext_block_Cons)
  have rest: "extension_from (pre @ ext_block (e # exts)) ty ext_end (length pre + (4 + length (snd e))) = Some (map_of exts ty)"
    unfolding split using Cons.prems by (intro Cons.IH) (simp_all add: ext_lengths)
  have "length pre < ext_end" using Cons.prems(2) by (simp add: ext_lengths)
  then show ?case
    using rest len ty range by (subst extension_from.simps) (cases e, auto simp del: add_2_eq_Suc add_2_eq_Suc' dest: unsigned_word_eqI)
qed

text \<open>Looking up an extension of a ClientHello.\<close>

lemma extension_hello:
  assumes "hello_ok len random sid suites comps exts"
  shows "extension (hello_bytes len random sid suites comps exts) ty = Some (map_of exts ty)"
proof -
  let ?h = "hello_bytes len random sid suites comps exts"
  have l: "length len = 3" "length random = 32" "unat (of_nat (length sid) :: u8) = length sid"
    "unat (of_nat (length suites) :: u16) = length suites" "unat (of_nat (length comps) :: u8) = length comps"
    "unat (of_nat (length (ext_block exts)) :: u16) = length (ext_block exts)" "length (ext_block exts) < 65536"
    using assms by (simp_all add: hello_ok_def unat_of_nat)
  let ?a = "[1] @ len @ [3, 3] @ random"
  let ?b = "?a @ [of_nat (length sid)] @ sid" let ?c = "?b @ u16_be (of_nat (length suites)) @ suites"
  let ?d = "?c @ [of_nat (length comps)] @ comps" let ?e = "?d @ u16_be (of_nat (length (ext_block exts)))"
  have ia: "4 + 2 + random_len = length ?a" using l by (simp add: random_len_def)
  have ib: "length ?a + (1 + length sid) = length ?b" by simp
  have ic: "length ?b + (2 + length suites) = length ?c" by simp
  have id: "length ?c + (1 + length comps) = length ?d" by simp
  have ie: "length ?d + 2 = length ?e" by simp
  have h: "?h = ?e @ ext_block exts" by (simp add: hello_bytes_def)
  have at: "u8_at ?h (length ?a) = Some (length sid)" "u16_at ?h (length ?b) = Some (length suites)"
    "u8_at ?h (length ?c) = Some (length comps)" "u16_at ?h (length ?d) = Some (length (ext_block exts))"
    using u8_at_mid [of ?a] u8_at_mid [of ?c] u16_at_mid [OF refl, of ?b] u16_at_mid [OF refl, of ?d] l
    unfolding h by (metis append.assoc append_Cons append_Nil)+
  show ?thesis
    unfolding extension_def Let_def ia at bind.bind_lunit ib ic id ie
    unfolding h using l(7) by (intro extension_from_block) simp_all
qed

lemma key_shares_block:
  assumes "length (ext_block shares) < 65536"
  shows "key_shares_from (pre @ ext_block shares) (length pre) = Some shares"
  using assms
proof (induction shares arbitrary: pre)
  case Nil
  then show ?case by (subst key_shares_from.simps) (simp add: ext_block_def)
next
  case (Cons e shares)
  let ?t = "u16_be (fst e)" and ?l = "u16_be (of_nat (length (snd e)) :: u16)"
  have l: "length (snd e) < 65536" using Cons.prems(1) by (simp add: ext_lengths)
  have len: "u16_at (pre @ ext_block (e # shares)) (length pre + 2) = Some (length (snd e))"
    using u16_at_mid [of "length pre + 2" "pre @ ?t" "of_nat (length (snd e))" "snd e @ ext_block shares"] l
    by (simp add: ext_block_Cons)
  have ty: "u16_at (pre @ ext_block (e # shares)) (length pre) = Some (unat (fst e))"
    using u16_at_mid [of "length pre" pre "fst e" "?l @ snd e @ ext_block shares"] by (simp add: ext_block_Cons)
  have range: "get_range (length pre + 4) (length pre + 4 + length (snd e)) (pre @ ext_block (e # shares)) = Some (snd e)"
    using get_range_mid [of "length pre + 4" "pre @ ?t @ ?l" "length pre + 4 + length (snd e)" "snd e" "ext_block shares"]
    by (simp add: ext_block_Cons)
  have split: "pre @ ext_block (e # shares) = (pre @ ?t @ ?l @ snd e) @ ext_block shares"
    "length pre + (4 + length (snd e)) = length (pre @ ?t @ ?l @ snd e)"
    by (simp_all add: ext_block_Cons)
  have rest: "key_shares_from (pre @ ext_block (e # shares)) (length pre + (4 + length (snd e))) = Some shares"
    unfolding split using Cons.prems by (intro Cons.IH) (simp_all add: ext_lengths)
  have "length pre < length (pre @ ext_block (e # shares))" by (simp add: ext_lengths)
  then show ?case
    using rest by (subst key_shares_from.simps) (simp add: len ty range del: add_2_eq_Suc add_2_eq_Suc')
qed

section \<open>The ClientHello of this client\<close>

text \<open>
  What rustls documents: a ClientHello carries the key share of the first of the configured groups and,
  if that group's share has a component (\<^verbatim>\<open>hybrid_component\<close>) whose group is configured too, behind
  it the component as a share of its own (extension 0x33); and it offers the protocols of the
  configuration (extension 0x10). The groups and their order are those of the configuration.
\<close>

definition alpn_data :: "bytes list \<Rightarrow> bytes" where
  "alpn_data names =
     (let entries = concat (map (\<lambda>n. of_nat (length n) # n) names) in u16_be (of_nat (length entries)) @ entries)"

fun offered :: "named_group list \<Rightarrow> bytes \<Rightarrow> bytes \<Rightarrow> (u16 \<times> bytes) list" where
  "offered [] hybrid separate = []"
| "offered (X25519 # groups) hybrid separate = [(0x001d, separate)]"
| "offered (X25519MLKEM768 # groups) hybrid separate =
     (0x11ec, hybrid) # (if X25519 \<in> set groups then [(0x001d, separate)] else [])"

definition lists_offers :: "rustls \<Rightarrow> bool" where
  "lists_offers new_conn \<longleftrightarrow>
     (\<forall>cc sni hybrid separate ds records body.
        play (new_conn cc sni) (Inr (hybrid, separate)) ds = Some (Inr (Inr records)) \<and>
        client_hello_body records = Inr body \<and> length hybrid = 1216 \<and> length separate = 32 \<longrightarrow>
        (\<exists>len random sid suites comps exts.
           body = hello_bytes len random sid suites comps exts \<and> hello_ok len random sid suites comps exts \<and>
           map_of exts 0x0033 = Some (u16_be (of_nat (length (ext_block (offered (cc_groups cc) hybrid separate))))
             @ ext_block (offered (cc_groups cc) hybrid separate)) \<and>
           map_of exts 0x0010 = Some (alpn_data (cc_alpn cc))))"

lemma offered_length:
  "length hybrid = 1216 \<Longrightarrow> length separate = 32 \<Longrightarrow> length (ext_block (offered groups hybrid separate)) < 65536"
  by (induction groups hybrid separate rule: offered.induct) (auto simp: ext_block_def ext_bytes_def)

text \<open>The shares of the ClientHello of any pass, and the protocols it offers.\<close>

lemma hello_offers:
  assumes law: "lists_offers new_conn"
    and built: "with_script cr fb seed sec m rep (new_conn cc sni) = (Inr (Inr records), calls)"
    and body: "client_hello_body records = Inr body"
    and mlkem: "length (mlkem_pub_key m) = 1184" and public: "length (cr_x25519 cr sec (cr_base cr)) = 32"
  shows "key_shares body = Some (offered (cc_groups cc) (mlkem_pub_key m @ cr_x25519 cr sec (cr_base cr)) (cr_x25519 cr sec (cr_base cr)))"
    and "extension body 0x0010 = Some (Some (alpn_data (cc_alpn cc)))"
proof -
  let ?c = "cr_x25519 cr sec (cr_base cr)" let ?o = "offered (cc_groups cc) (mlkem_pub_key m @ ?c) ?c"
  have share: "share_of cr (new_script seed sec m rep) = Inr (mlkem_pub_key m @ ?c, ?c)"
    using mlkem by (simp add: share_of_def start_hybrid_def shown_def hybrid_component_def const_defs Let_def)
  have p: "play (new_conn cc sni) (Inr (mlkem_pub_key m @ ?c, ?c)) calls = Some (Inr (Inr records))"
    using with_script_play [OF built] unfolding share by blast
  have lens: "length (mlkem_pub_key m @ ?c) = 1216" using mlkem public by simp
  from law p body lens public have "\<exists>len random sid suites comps exts.
      body = hello_bytes len random sid suites comps exts \<and> hello_ok len random sid suites comps exts \<and>
      map_of exts 0x0033 = Some (u16_be (of_nat (length (ext_block ?o))) @ ext_block ?o) \<and>
      map_of exts 0x0010 = Some (alpn_data (cc_alpn cc))"
    unfolding lists_offers_def by blast
  then obtain len random sid suites comps exts where h: "body = hello_bytes len random sid suites comps exts"
    "hello_ok len random sid suites comps exts"
    "map_of exts 0x0033 = Some (u16_be (of_nat (length (ext_block ?o))) @ ext_block ?o)"
    "map_of exts 0x0010 = Some (alpn_data (cc_alpn cc))" by blast
  have "length (ext_block ?o) < 65536"
    by (rule offered_length) (use lens public in simp_all)
  from key_shares_block [OF this, of "u16_be (of_nat (length (ext_block ?o)))"]
  show "key_shares body = Some ?o"
    by (simp add: key_shares_def h(1,3) extension_hello [OF h(2)])
  show "extension body 0x0010 = Some (Some (alpn_data (cc_alpn cc)))"
    by (simp add: h(1,4) extension_hello [OF h(2)])
qed

text \<open>The groups of the provider are those the server can use, in the order in which it can.\<close>

lemma provider_offers:
  "offered (cc_groups (client_config key)) hybrid separate = [(0x11ec, hybrid), (0x001d, separate)]"
  by (simp add: client_config_def reality_provider_def)

lemma peer_pub_offered:
  "length hybrid = 1216 \<Longrightarrow> length separate = 32 \<Longrightarrow>
     reality_server_peer_pub (offered (cc_groups (client_config key)) hybrid separate) = Some separate"
  unfolding provider_offers by (simp add: reality_server_peer_pub_def)

section \<open>The server's choice\<close>

text \<open>
  C7: The REALITY server accepts the key shares. With the groups this client configures, of which rustls
  lists the first and its component, the ClientHello of the second pass, the one that is sent, has
  the hybrid share in front of the separate one; the server's selection as the repository ports it takes
  from it the x25519 public key of the script's secret, the one with which the client derived
  the authentication key in the first pass. The selection gives up on any list that has no
  hybrid share, or a separate share first, so both groups and their order matter.
\<close>

theorem server_selects_share:
  assumes "lists_offers new_conn" and "second_pass cr fb new_conn sni p mlkem = (Inr (Inr records), calls)"
    and "client_hello_body records = Inr body" and "length (kx_pub mlkem) = 1184"
    and "length (cr_x25519 cr (pr_kx_secret p) (cr_base cr)) = 32"
  shows "Option.bind (key_shares body) reality_server_peer_pub = Some (cr_x25519 cr (pr_kx_secret p) (cr_base cr)) \<and>
    map_option (map fst) (key_shares body) = Some [0x11ec, 0x001d] \<and>
    extension body 0x0010 = Some (Some (alpn_data [str ''h2'', str ''http/1.1'']))"
proof -
  let ?c = "cr_x25519 cr (pr_kx_secret p) (cr_base cr)"
  have m: "length (mlkem_pub_key (Active mlkem)) = 1184" using assms(4) by simp
  note o = hello_offers [OF assms(1) assms(2) [unfolded second_pass_def] assms(3) m assms(5)]
  have "reality_server_peer_pub [(0x11ec, kx_pub mlkem @ ?c), (0x001d, ?c)] = Some ?c"
    using peer_pub_offered [of "kx_pub mlkem @ ?c" ?c "pr_auth_key p"] assms(4,5) unfolding provider_offers by simp
  moreover have "cc_alpn (client_config (pr_auth_key p)) = [str ''h2'', str ''http/1.1'']"
    by (simp add: client_config_def)
  ultimately show ?thesis using o unfolding provider_offers by simp
qed

text \<open>A rustls that writes such a ClientHello.\<close>

definition listing_exts :: "client_cfg \<Rightarrow> bytes \<Rightarrow> bytes \<Rightarrow> (u16 \<times> bytes) list" where
  "listing_exts cc hybrid separate =
     [(0x0010, alpn_data (cc_alpn cc)),
      (0x0033, u16_be (of_nat (length (ext_block (offered (cc_groups cc) hybrid separate)))) @ ext_block (offered (cc_groups cc) hybrid separate))]"

definition listing_rustls :: rustls where
  "listing_rustls cc sni =
     Share (\<lambda>r. case r of
         Inl e \<Rightarrow> Emit (Inl e)
       | Inr (hybrid, separate) \<Rightarrow>
           Fill 32 (\<lambda>r. case r of Inl _ \<Rightarrow> Emit (Inl (General [])) | Inr sid \<Rightarrow>
             if hello_ok [0, 5, 0] (replicate 32 1) sid [] [] (listing_exts cc hybrid separate) \<and>
               length (hello_bytes [0, 5, 0] (replicate 32 1) sid [] [] (listing_exts cc hybrid separate)) < 65536
             then Emit (Inr (Inr (tls_record 0x16 3 1
                    (hello_bytes [0, 5, 0] (replicate 32 1) sid [] [] (listing_exts cc hybrid separate)))))
             else Emit (Inl (General []))))"

lemma listing_lists: "lists_offers listing_rustls"
  unfolding lists_offers_def
proof (intro allI impI, elim conjE)
  fix cc sni hybrid separate ds records body
  assume p: "play (listing_rustls cc sni) (Inr (hybrid, separate)) ds = Some (Inr (Inr records))"
    and body: "client_hello_body records = Inr body"
  let ?x = "listing_exts cc hybrid separate"
  let ?h = "\<lambda>sid. hello_bytes [0, 5, 0] (replicate 32 1) sid [] [] ?x"
  from p obtain sid where s: "hello_ok [0, 5, 0] (replicate 32 1) sid [] [] ?x" "length (?h sid) < 65536"
    "records = tls_record 0x16 3 1 (?h sid)" "length sid = 32"
    by (auto simp: listing_rustls_def split: list.splits if_splits)
  have "client_hello_body records = Inr (?h sid)"
  proof (unfold client_hello_body_iff, intro conjI)
    show "\<exists>a b rest. records = tls_record 0x16 a b (?h sid) @ rest" unfolding s(3) by (metis append_Nil2)
  qed (use s(2,4) in \<open>simp_all add: hello_bytes_def\<close>)
  with body have "body = ?h sid" by simp
  with s(1) show "\<exists>len random sid suites comps exts.
      body = hello_bytes len random sid suites comps exts \<and> hello_ok len random sid suites comps exts \<and>
      map_of exts 0x0033 = Some (u16_be (of_nat (length (ext_block (offered (cc_groups cc) hybrid separate)))) @ ext_block (offered (cc_groups cc) hybrid separate)) \<and>
      map_of exts 0x0010 = Some (alpn_data (cc_alpn cc))"
    by (intro exI [of _ "[0, 5, 0]"] exI [of _ "replicate 32 1"] exI [of _ sid] exI [of _ "[]"] exI [of _ ?x])
      (simp add: listing_exts_def)
qed

lemma listing_ok:
  assumes "length sid = 32" and "length hybrid = 1216" and "length separate = 32"
  shows "hello_ok [0, 5, 0] (replicate 32 1) sid [] [] (listing_exts (client_config a) hybrid separate)"
    "length (hello_bytes [0, 5, 0] (replicate 32 1) sid [] [] (listing_exts (client_config a) hybrid separate)) < 65536"
proof -
  have "length (ext_block (listing_exts (client_config a) hybrid separate)) = 1280"
    using assms(2,3) by (simp add: listing_exts_def provider_offers ext_lengths alpn_data_def Let_def)
      (simp add: ext_block_def client_config_def)
  with assms(1) show "hello_ok [0, 5, 0] (replicate 32 1) sid [] [] (listing_exts (client_config a) hybrid separate)"
    "length (hello_bytes [0, 5, 0] (replicate 32 1) sid [] [] (listing_exts (client_config a) hybrid separate)) < 65536"
    by (simp_all add: hello_ok_def hello_bytes_def)
qed

definition listing_prepared :: prepared where
  "listing_prepared = \<lparr>pr_seed = [], pr_kx_secret = replicate 32 2, pr_session_id_call = 0,
     pr_session_id = replicate 32 8, pr_auth_key = replicate 32 3, pr_call_count = 1\<rparr>"

theorem server_selects_share_witness:
  "\<exists>records calls body.
     second_pass sum_crypto (\<lambda>_. Inl ()) listing_rustls [] listing_prepared sample_mlkem = (Inr (Inr records), calls) \<and>
     client_hello_body records = Inr body \<and>
     Option.bind (key_shares body) reality_server_peer_pub = Some (replicate 32 2)"
proof -
  let ?x = "listing_exts (client_config (replicate 32 3)) (kx_pub sample_mlkem @ replicate 32 2) (replicate 32 2)"
  let ?h = "hello_bytes [0, 5, 0] (replicate 32 1) (replicate 32 8) [] [] ?x"
  have ok: "hello_ok [0, 5, 0] (replicate 32 1) (replicate 32 8) [] [] ?x" "length ?h < 65536"
    using listing_ok [of "replicate 32 8" "kx_pub sample_mlkem @ replicate 32 2" "replicate 32 2" "replicate 32 3"] by simp_all
  have public: "cr_x25519 sum_crypto (pr_kx_secret listing_prepared) (cr_base sum_crypto) = replicate 32 2"
    by (simp add: sum_crypto_def listing_prepared_def)
  have pass: "second_pass sum_crypto (\<lambda>_. Inl ()) listing_rustls [] listing_prepared sample_mlkem
      = (Inr (Inr (tls_record 0x16 3 1 ?h)), [replicate 32 8])"
    using ok public
    by (simp add: second_pass_def with_script_def listing_rustls_def start_hybrid_def shown_def hybrid_component_def
        random_fill_def seed_stream_new_def seed_fill_32 listing_prepared_def const_defs Let_def)
  have body: "client_hello_body (tls_record 0x16 3 1 ?h) = Inr ?h"
    unfolding client_hello_body_iff using ok(2) by (simp add: hello_bytes_def) (metis append_Nil2)
  have "length (kx_pub sample_mlkem) = 1184" "length (cr_x25519 sum_crypto (pr_kx_secret listing_prepared) (cr_base sum_crypto)) = 32"
    by (simp_all add: public)
  from server_selects_share [OF listing_lists pass body this] pass body show ?thesis by (auto simp: public)
qed

end
