(* ===== verification/TestsCodec.thy ===== *)
theory TestsCodec
  imports OutboundModel Socks5
begin

text \<open>
  The unit tests of \<^verbatim>\<open>src/error.rs\<close>, \<^verbatim>\<open>src/config.rs\<close>, \<^verbatim>\<open>src/inbound/socks5.rs\<close>,
  \<^verbatim>\<open>src/outbound/vless.rs\<close> and \<^verbatim>\<open>src/outbound/mod.rs\<close> as definitions over the model, under the
  names the code gives them. The peer of a test is the input of its connection.
\<close>

definition peer_sends :: "bytes \<Rightarrow> conn" where
  "peer_sends b = \<lparr>c_in = b, c_end = IoError UnexpectedEof [], c_out = [], c_wres = []\<rparr>"

definition is_err :: "'e + 'a \<Rightarrow> bool" where
  "is_err r = (case r of Inl _ \<Rightarrow> True | Inr _ \<Rightarrow> False)"

lemma is_err_simps [simp]: "is_err (Inl e)" "\<not> is_err (Inr x)"
  by (simp_all add: is_err_def)

section \<open>Errors\<close>

definition peer_gone_is_recognised :: bool where
  "peer_gone_is_recognised \<longleftrightarrow>
     list_all (\<lambda>kind. is_peer_gone (IO (IoError kind []))) [ConnectionReset, ConnectionAborted, BrokenPipe] \<and>
     \<not> is_peer_gone (IO (IoError TimedOut [])) \<and>
     \<not> is_peer_gone (Reality (str ''handshake timeout''))"

lemma peer_gone_is_recognised: peer_gone_is_recognised
  by (simp add: peer_gone_is_recognised_def)

definition variants_display :: bool where
  "variants_display \<longleftrightarrow>
     display [] (Socks5 (str ''bad ver'')) = str ''SOCKS5 error: bad ver'' \<and>
     display [] (Vless (str ''short header'')) = str ''VLESS error: short header'' \<and>
     display [] (Config (str ''missing field'')) = str ''config error: missing field'' \<and>
     display [] (Reality (str ''auth fail'')) = str ''Reality error: auth fail'' \<and>
     display [] (Protocol (str ''eof'')) = str ''protocol error: eof''"

lemma variants_display: variants_display
  by (simp add: variants_display_def)

section \<open>Configuration\<close>

text \<open>What toml makes of the text \<^verbatim>\<open>SAMPLE\<close>.\<close>

definition raw_sample :: raw_config where
  "raw_sample =
     \<lparr>raw_log_of = \<lparr>raw_level = str ''info''\<rparr>,
      raw_inbound_of = \<lparr>raw_listen = V4 0x7F000001, raw_in_port = 1080, raw_max_connections = default_max_connections\<rparr>,
      raw_outbound_of =
        \<lparr>raw_server = str ''ex.com'', raw_out_port = 443,
         raw_vless_of = \<lparr>raw_uuid = str ''b831381d-6324-4d53-ad4f-8cda48b30811'', raw_flow = str ''xtls-rprx-vision''\<rparr>,
         raw_reality_of =
           \<lparr>raw_public_key = str ''AQIDBAUGBwgJCgsMDQ4PEBESExQVFhcYGRobHB0eHyA'', raw_short_id = str ''0123abcd'',
            raw_server_name = str ''www.microsoft.com''\<rparr>\<rparr>,
      raw_timeout_of = default_timeout\<lparr>raw_connect_ms := 5000, raw_handshake_ms := 10000, raw_dial_retries := 2\<rparr>\<rparr>"

definition parse_uuid_to_bytes :: bool where
  "parse_uuid_to_bytes \<longleftrightarrow>
     (case parse_uuid (str ''b831381d-6324-4d53-ad4f-8cda48b30811'') of
        Inl _ \<Rightarrow> False | Inr ident \<Rightarrow> ident ! 0 = 0xb8 \<and> ident ! 15 = 0x11)"

definition parse_short_id_hex :: bool where
  "parse_short_id_hex \<longleftrightarrow> parse_hex (str ''0123abcd'') = Inr [0x01, 0x23, 0xab, 0xcd]"

definition rejects_bad_uuid :: bool where
  "rejects_bad_uuid \<longleftrightarrow>
     is_err (parse_uuid (str ''b831381d-6324-4d53-ad4f-8cda48b308'')) \<and>
     is_err (parse_uuid (str ''zz31381d-6324-4d53-ad4f-8cda48b30811''))"

definition pubkey_accepts_both_base64_alphabets :: bool where
  "pubkey_accepts_both_base64_alphabets \<longleftrightarrow>
     (let expect = map of_nat [1 ..< 33] in
      parse_pubkey_b64 (str ''AQIDBAUGBwgJCgsMDQ4PEBESExQVFhcYGRobHB0eHyA'') = Inr expect \<and>
      parse_pubkey_b64 (str ''AQIDBAUGBwgJCgsMDQ4PEBESExQVFhcYGRobHB0eHyA='') = Inr expect)"

definition rejects_short_pubkey :: bool where
  "rejects_short_pubkey \<longleftrightarrow> is_err (parse_pubkey_b64 (str ''MC4CAQAwBQYDK2VuBCIEIA==''))"

definition timeout_section_is_optional :: bool where
  "timeout_section_is_optional \<longleftrightarrow>
     (case try_from_raw (raw_sample\<lparr>raw_timeout_of := default_timeout\<rparr>) of
        Inl _ \<Rightarrow> False
      | Inr cfg \<Rightarrow>
          connect_ms (cfg_timeout cfg) = 3000 \<and> handshake_ms (cfg_timeout cfg) = 10000 \<and>
          dial_retries (cfg_timeout cfg) = 1 \<and> idle_ms (cfg_timeout cfg) = 300000 \<and>
          half_close_ms (cfg_timeout cfg) = 1000)"

definition timeout_fields_default_individually :: bool where
  "timeout_fields_default_individually \<longleftrightarrow>
     (case try_from_raw (raw_sample\<lparr>raw_timeout_of := default_timeout\<lparr>raw_connect_ms := 1500\<rparr>\<rparr>) of
        Inl _ \<Rightarrow> False
      | Inr cfg \<Rightarrow>
          connect_ms (cfg_timeout cfg) = 1500 \<and> handshake_ms (cfg_timeout cfg) = 10000 \<and>
          dial_retries (cfg_timeout cfg) = 1)"

definition max_connections_defaults_and_overrides :: bool where
  "max_connections_defaults_and_overrides \<longleftrightarrow>
     (case parse (\<lambda>_. Inr raw_sample) [] of
        Inl _ \<Rightarrow> False | Inr cfg \<Rightarrow> max_connections (cfg_inbound cfg) = 1024) \<and>
     (case parse (\<lambda>_. Inr (raw_sample\<lparr>raw_inbound_of := (raw_inbound_of raw_sample)\<lparr>raw_max_connections := 0\<rparr>\<rparr>)) [] of
        Inl _ \<Rightarrow> False | Inr cfg \<Rightarrow> max_connections (cfg_inbound cfg) = 0)"

definition loads_full_config :: bool where
  "loads_full_config \<longleftrightarrow>
     (case try_from_raw raw_sample of
        Inl _ \<Rightarrow> False
      | Inr cfg \<Rightarrow>
          in_port (cfg_inbound cfg) = 1080 \<and>
          vl_flow (out_vless (cfg_outbound cfg)) = str ''xtls-rprx-vision'' \<and>
          short_id (out_reality (cfg_outbound cfg)) = [0x01, 0x23, 0xab, 0xcd] \<and>
          dial_retries (cfg_timeout cfg) = 2)"

lemma sample_fields:
  "parse_uuid (str ''b831381d-6324-4d53-ad4f-8cda48b30811'')
     = Inr [0xb8, 0x31, 0x38, 0x1d, 0x63, 0x24, 0x4d, 0x53, 0xad, 0x4f, 0x8c, 0xda, 0x48, 0xb3, 0x08, 0x11]"
  "parse_hex (str ''0123abcd'') = Inr [0x01, 0x23, 0xab, 0xcd]"
  by code_simp+

lemma sample_key:
  "parse_pubkey_b64 (str ''AQIDBAUGBwgJCgsMDQ4PEBESExQVFhcYGRobHB0eHyA'') = Inr (map of_nat [1 ..< 33])"
  "parse_pubkey_b64 (str ''AQIDBAUGBwgJCgsMDQ4PEBESExQVFhcYGRobHB0eHyA='') = Inr (map of_nat [1 ..< 33])"
  by code_simp+

lemma parse_uuid_to_bytes: parse_uuid_to_bytes
  and parse_short_id_hex: parse_short_id_hex
  by (simp_all add: parse_uuid_to_bytes_def parse_short_id_hex_def sample_fields del: str_Cons)

lemma rejects_bad_uuid: rejects_bad_uuid
  by code_simp

lemma pubkey_accepts_both_base64_alphabets: pubkey_accepts_both_base64_alphabets
  by (simp add: pubkey_accepts_both_base64_alphabets_def sample_key Let_def del: str_Cons)

lemma rejects_short_pubkey: rejects_short_pubkey
  by code_simp

lemma sample_config:
  assumes "raw_log_of r = raw_log_of raw_sample" and "raw_outbound_of r = raw_outbound_of raw_sample"
  shows "\<exists>cfg. try_from_raw r = Inr cfg \<and> vl_flow (out_vless (cfg_outbound cfg)) = str ''xtls-rprx-vision'' \<and>
     short_id (out_reality (cfg_outbound cfg)) = [0x01, 0x23, 0xab, 0xcd] \<and>
     in_port (cfg_inbound cfg) = raw_in_port (raw_inbound_of r) \<and>
     max_connections (cfg_inbound cfg) = raw_max_connections (raw_inbound_of r) \<and>
     connect_ms (cfg_timeout cfg) = raw_connect_ms (raw_timeout_of r) \<and>
     handshake_ms (cfg_timeout cfg) = raw_handshake_ms (raw_timeout_of r) \<and>
     dial_retries (cfg_timeout cfg) = raw_dial_retries (raw_timeout_of r) \<and>
     idle_ms (cfg_timeout cfg) = raw_idle_ms (raw_timeout_of r) \<and>
     half_close_ms (cfg_timeout cfg) = raw_half_close_ms (raw_timeout_of r)"
  using assms
  by (simp add: try_from_raw_def raw_sample_def sample_fields sample_key Let_def del: str_Cons)

lemma timeout_section_is_optional: timeout_section_is_optional
  using sample_config [of "raw_sample\<lparr>raw_timeout_of := default_timeout\<rparr>"]
  by (auto simp: timeout_section_is_optional_def default_timeout_def)

lemma timeout_fields_default_individually: timeout_fields_default_individually
  using sample_config [of "raw_sample\<lparr>raw_timeout_of := default_timeout\<lparr>raw_connect_ms := 1500\<rparr>\<rparr>"]
  by (auto simp: timeout_fields_default_individually_def default_timeout_def)

lemma max_connections_defaults_and_overrides: max_connections_defaults_and_overrides
proof -
  have "raw_max_connections (raw_inbound_of raw_sample) = 1024"
    by (simp add: raw_sample_def default_max_connections_def)
  then show ?thesis
    using sample_config [of raw_sample]
      sample_config [of "raw_sample\<lparr>raw_inbound_of := (raw_inbound_of raw_sample)\<lparr>raw_max_connections := 0\<rparr>\<rparr>"]
    by (auto simp: max_connections_defaults_and_overrides_def parse_def)
qed

lemma loads_full_config: loads_full_config
proof -
  have "raw_in_port (raw_inbound_of raw_sample) = 1080" "raw_dial_retries (raw_timeout_of raw_sample) = 2"
    by (simp_all add: raw_sample_def)
  then show ?thesis using sample_config [of raw_sample] by (auto simp: loads_full_config_def)
qed

section \<open>SOCKS5\<close>

text \<open>\<^verbatim>\<open>spawn_client\<close>: the greeting, then the request once the method was read.\<close>

definition spawn_client :: "bytes \<Rightarrow> conn" where
  "spawn_client req = peer_sends ([0x05, 0x01, 0x00] @ req)"

definition parses_domain_connect :: bool where
  "parses_domain_connect \<longleftrightarrow>
     (case handshake (spawn_client ([0x05, 0x01, 0x00, 0x03, 0x06] @ str ''ex.com'' @ u16_be 443)) of
        (Inl _, _) \<Rightarrow> False
      | (Inr t, server) \<Rightarrow> tg_addr t = Domain (str ''ex.com'') \<and> tg_port t = 443 \<and> c_out server = [0x05, 0x00])"

definition rejects_bad_version :: bool where
  "rejects_bad_version \<longleftrightarrow> is_err (fst (handshake (peer_sends [0x04, 0x01, 0x00])))"

definition parses_ipv4_connect :: bool where
  "parses_ipv4_connect \<longleftrightarrow>
     (case handshake (spawn_client ([0x05, 0x01, 0x00, 0x01, 1, 2, 3, 4] @ u16_be 80)) of
        (Inl _, _) \<Rightarrow> False
      | (Inr t, server) \<Rightarrow>
          Some (tg_addr t) = map_option Ip (parse_ip (str ''1.2.3.4'')) \<and> tg_port t = 80 \<and> c_out server = [0x05, 0x00])"

definition parses_ipv6_connect :: bool where
  "parses_ipv6_connect \<longleftrightarrow>
     (case handshake (spawn_client ([0x05, 0x01, 0x00, 0x04] @ replicate 15 0 @ [1] @ u16_be 443)) of
        (Inl _, _) \<Rightarrow> False
      | (Inr t, server) \<Rightarrow>
          Some (tg_addr t) = map_option Ip (parse_ip (str ''::1'')) \<and> c_out server = [0x05, 0x00])"

definition rejects_non_connect_command :: bool where
  "rejects_non_connect_command \<longleftrightarrow>
     is_err (fst (handshake (spawn_client [0x05, 0x03, 0x00, 0x01, 1, 2, 3, 4, 0, 80])))"

definition rejects_when_no_acceptable_method :: bool where
  "rejects_when_no_acceptable_method \<longleftrightarrow>
     (case handshake (peer_sends [0x05, 0x01, 0x02]) of (r, server) \<Rightarrow> is_err r \<and> c_out server = [0x05, 0xFF])"

definition reply_writes_success_frame :: bool where
  "reply_writes_success_frame \<longleftrightarrow>
     c_out (snd (reply True (peer_sends []))) = [0x05, 0x00, 0x00, 0x01, 0, 0, 0, 0, 0, 0]"

definition reply_writes_failure_frame :: bool where
  "reply_writes_failure_frame \<longleftrightarrow>
     (let buf = c_out (snd (reply False (peer_sends []))) in length buf = 10 \<and> buf ! 1 = 0x01)"

lemmas socks_defs = spawn_client_def peer_sends_def handshake_def read_exact_def write_all_def read_request_def
  read_address_def u16_be_def be_u16_def

lemma parses_domain_connect: parses_domain_connect
proof -
  have "utf8_valid (str ''ex.com'')" by (rule utf8_valid_ascii) simp
  then show ?thesis by (simp add: parses_domain_connect_def socks_defs)
qed

lemma rejects_bad_version: rejects_bad_version
  and rejects_non_connect_command: rejects_non_connect_command
  and rejects_when_no_acceptable_method: rejects_when_no_acceptable_method
  by (simp_all add: rejects_bad_version_def rejects_non_connect_command_def rejects_when_no_acceptable_method_def
      socks_defs)

lemma ip_text: "parse_ip (str ''1.2.3.4'') = Some (v4_from [1, 2, 3, 4])"
  by (simp add: parse_ip_def read_number_def read_separator_def digit_def groups_numeral Let_def)

lemma parses_ipv4_connect: parses_ipv4_connect
  unfolding parses_ipv4_connect_def ip_text by (simp add: socks_defs)

lemma parses_ipv6_connect: parses_ipv6_connect
proof -
  have "replicate 15 0 @ [1] = replicate 14 0 @ [0, 1 :: u8]" by (simp add: numeral_eq_Suc)
  moreover have "length (replicate 15 0 @ [1 :: u8]) = 16" by simp
  ultimately show ?thesis
    unfolding parses_ipv6_connect_def parse_ip_samples(4) by (simp add: socks_defs)
qed

lemma reply_writes_success_frame: reply_writes_success_frame
  and reply_writes_failure_frame: reply_writes_failure_frame
  by code_simp+

section \<open>VLESS\<close>

definition vless_uuid :: bytes where
  "vless_uuid =
     [0xb8, 0x31, 0x38, 0x1d, 0x63, 0x24, 0x4d, 0x53, 0xad, 0x4f, 0x8c, 0xda, 0x48, 0xb3, 0x08, 0x11]"

definition encodes_domain_vision_header :: bool where
  "encodes_domain_vision_header \<longleftrightarrow>
     (let t = \<lparr>tg_addr = Domain (str ''ex.com''), tg_port = 443\<rparr>;
          h = encode_request_header vless_uuid (str ''xtls-rprx-vision'') t;
          addon_len = unat (h ! 17);
          p = 18 + addon_len
      in h ! 0 = 0x00 \<and> slice 1 17 h = vless_uuid \<and> h ! p = 0x01 \<and> slice (p + 1) (p + 3) h = u16_be 443 \<and>
         h ! (p + 3) = 0x02 \<and> h ! (p + 4) = 6 \<and> slice (p + 5) (p + 11) h = str ''ex.com'')"

definition addons_are_flow_protobuf :: bool where
  "addons_are_flow_protobuf \<longleftrightarrow>
     (let t = \<lparr>tg_addr = Domain (str ''ex.com''), tg_port = 443\<rparr>;
          h = encode_request_header vless_uuid (str ''xtls-rprx-vision'') t
      in h ! 17 = 18 \<and> h ! 18 = 0x0A \<and> h ! 19 = 16 \<and> slice 20 36 h = str ''xtls-rprx-vision'')"

definition empty_flow_writes_zero_addon_len :: bool where
  "empty_flow_writes_zero_addon_len \<longleftrightarrow>
     (let h = encode_request_header vless_uuid [] \<lparr>tg_addr = Ip (v4_from [1, 2, 3, 4]), tg_port = 80\<rparr>
      in h ! 17 = 0 \<and> h ! 18 = 0x01)"

definition ip_atyp_values :: bool where
  "ip_atyp_values \<longleftrightarrow>
     (let v4 = encode_request_header vless_uuid [] \<lparr>tg_addr = Ip (v4_from [1, 2, 3, 4]), tg_port = 80\<rparr>;
          v6 = encode_request_header vless_uuid [] \<lparr>tg_addr = Ip (V6 1), tg_port = 80\<rparr>
      in v4 ! 21 = 0x01 \<and> slice 22 26 v4 = [1, 2, 3, 4] \<and> v6 ! 21 = 0x03 \<and> slice 22 38 v6 = octets (V6 1))"

definition reads_response_header :: bool where
  "reads_response_header \<longleftrightarrow>
     (case read_response_header (peer_sends [0x00, 0x00, 0xAB, 0xCD]) of
        (Inl _, _) \<Rightarrow> False | (Inr _, b) \<Rightarrow> fst (read_exact 2 b) = Inr [0xAB, 0xCD])"

definition skips_response_addons :: bool where
  "skips_response_addons \<longleftrightarrow>
     (case read_response_header (peer_sends [0x00, 0x03, 0x11, 0x22, 0x33, 0xEE]) of
        (Inl _, _) \<Rightarrow> False | (Inr _, b) \<Rightarrow> fst (read_exact 1 b) = Inr [0xEE])"

definition rejects_bad_response_version :: bool where
  "rejects_bad_response_version \<longleftrightarrow> is_err (fst (read_response_header (peer_sends [0x01, 0x00])))"

lemma encodes_domain_vision_header: encodes_domain_vision_header
  and addons_are_flow_protobuf: addons_are_flow_protobuf
  by code_simp+

lemma empty_flow_writes_zero_addon_len: empty_flow_writes_zero_addon_len
  and ip_atyp_values: ip_atyp_values
proof -
  have v4: "encode_target_addr (Ip (v4_from [1, 2, 3, 4])) = [1, 1, 2, 3, 4]"
    using octets_v4_from [of "[1, 2, 3, 4]"] by (simp add: v4_from_def const_defs)
  have l: "length (octets (V6 1)) = 16" by (rule length_octets(2))
  show empty_flow_writes_zero_addon_len ip_atyp_values
    by (simp_all add: empty_flow_writes_zero_addon_len_def ip_atyp_values_def encode_request_header_def v4
        encode_addons_def vless_uuid_def u16_be_def slice_def const_defs l Let_def del: octets.simps)
qed

lemma reads_response_header: reads_response_header
  and skips_response_addons: skips_response_addons
  and rejects_bad_response_version: rejects_bad_response_version
  by code_simp+

section \<open>The first payload\<close>

text \<open>The client of a test: what its socket gives within the time asked for.\<close>

definition first_payload_returns_buffered_data :: bool where
  "first_payload_returns_buffered_data \<longleftrightarrow>
     read_first_payload (\<lambda>_. Some (Inr (str ''GET / HTTP/1.1''))) 50 = Inr (str ''GET / HTTP/1.1'')"

definition first_payload_times_out_empty :: bool where
  "first_payload_times_out_empty \<longleftrightarrow> read_first_payload (\<lambda>_. None) 50 = Inr []"

definition first_payload_is_empty_on_eof :: bool where
  "first_payload_is_empty_on_eof \<longleftrightarrow> read_first_payload (\<lambda>_. Some (Inr [])) 50 = Inr []"

definition first_payload_fits_one_frame :: bool where
  "first_payload_fits_one_frame \<longleftrightarrow>
     (case read_first_payload (\<lambda>_. Some (Inr (replicate (20 * 1024) 0x42))) 50 of
        Inl _ \<Rightarrow> False | Inr d \<Rightarrow> d \<noteq> [] \<and> length d \<le> max_frame_content)"

lemma first_payload_returns_buffered_data: first_payload_returns_buffered_data
  and first_payload_times_out_empty: first_payload_times_out_empty
  and first_payload_is_empty_on_eof: first_payload_is_empty_on_eof
  by (simp_all add: first_payload_returns_buffered_data_def first_payload_times_out_empty_def
      first_payload_is_empty_on_eof_def read_first_payload_def const_defs)

lemma first_payload_fits_one_frame: first_payload_fits_one_frame
proof -
  have "length (take max_frame_content (replicate (20 * 1024) (0x42 :: u8))) = max_frame_content"
    unfolding length_take length_replicate by (simp add: const_defs)
  moreover have "0 < max_frame_content" by (simp add: const_defs)
  ultimately show ?thesis
    unfolding first_payload_fits_one_frame_def read_first_payload_def option.case sum.case by (metis le_refl length_0_conv less_irrefl)
qed

end
