(* ===== verification/TestsVision.thy ===== *)
theory TestsVision
  imports VisionPadder RecordGate
begin

text \<open>
  The unit tests of \<^verbatim>\<open>src/outbound/vision.rs\<close> on frames, sniffing and the padder, and those
  of \<^verbatim>\<open>src/outbound/record_gate.rs\<close>, as definitions over the model. A test that draws random
  padding takes the generator and its state; it is shown for all of them.
\<close>

section \<open>Frames\<close>

definition test_uuid :: bytes where "test_uuid = replicate 16 0xAA"

definition unpad_all :: "bytes \<Rightarrow> (unpadder \<times> bytes) option" where
  "unpad_all frames =
     (case unpad unpadder_new frames [] of (Inl _, _) \<Rightarrow> None | (Inr _, u, _, out) \<Rightarrow> Some (u, out))"

definition unpadder_default :: unpadder where
  "unpadder_default = \<lparr>expect_uuid = False, up_done = False, up_direct = False\<rparr>"

definition padding_roundtrip :: "'r rng \<Rightarrow> 'r \<Rightarrow> bool" where
  "padding_roundtrip rr r \<longleftrightarrow>
     (let data = str ''hello world'';
          (framed, r) = xtls_padding rr r data cmd_padding_continue (Some test_uuid) False
      in take 16 framed = test_uuid \<and>
         (case unpad_all framed of None \<Rightarrow> False | Some (u, out) \<Rightarrow> out = data \<and> \<not> is_direct u))"

definition unpadding_needs_full_frame :: "'r rng \<Rightarrow> 'r \<Rightarrow> bool" where
  "unpadding_needs_full_frame rr r \<longleftrightarrow>
     (let (framed, r) = xtls_padding rr r (str ''abc'') cmd_padding_end None False in
      case unpad unpadder_default (take (length framed - 1) framed) [] of
        (Inl _, _) \<Rightarrow> False
      | (Inr _, u, buf, out) \<Rightarrow>
          out = [] \<and> \<not> is_direct u \<and>
          (case unpad u (buf @ drop (length framed - 1) framed) out of
             (Inl _, _) \<Rightarrow> False
           | (Inr _, u, buf, out) \<Rightarrow> out = str ''abc'' \<and> is_done u \<and> \<not> is_direct u))"

definition end_stops_unpadding_passthrough :: "'r rng \<Rightarrow> 'r \<Rightarrow> bool" where
  "end_stops_unpadding_passthrough rr r \<longleftrightarrow>
     (let (framed, r) = xtls_padding rr r (str ''last'') cmd_padding_end None False in
      case unpad unpadder_default (framed @ str ''raw bytes after end'') [] of
        (Inl _, _) \<Rightarrow> False
      | (Inr _, u, buf, out) \<Rightarrow> out = str ''lastraw bytes after end'' \<and> \<not> is_direct u \<and> buf = [])"

definition rejects_unknown_command :: "'r rng \<Rightarrow> 'r \<Rightarrow> bool" where
  "rejects_unknown_command rr r \<longleftrightarrow>
     (let (framed, r) = xtls_padding rr r (str ''x'') 0x7F None False in
      case unpad unpadder_default framed [] of (Inl _, _) \<Rightarrow> True | (Inr _, _) \<Rightarrow> False)"

text \<open>A frame of a padding below \<open>65536\<close>, which is all its reader needs to know.\<close>

lemma framed:
  obtains n r' where "xtls_padding_into rr r out d c u l = (out @ frame_bytes d c n u, r')" "n < 65536"
    "(n, r') = padding_len rr r (length d) l"
  using padding_len_cap [of rr r "length d" l]
  by (cases "padding_len rr r (length d) l") (auto simp: xtls_padding_into_def)

lemma unpad_one:
  assumes "length d < 65536" and "n < 65536" and "\<not> up_done u" and "command \<in> {0, 1, 2}"
    and "expect_uuid u = (uuid \<noteq> None)" and "\<And>i. uuid = Some i \<Longrightarrow> length i = 16"
  shows "unpad u (frame_bytes d command n uuid @ c) out = unpad (after_command u command) c (out @ d)"
  and "unpad u (frame_bytes d command n uuid) out = (Inr (), after_command u command, [], out @ d)"
  using unpad_frame_bytes [OF assms(1,2,3,4,5) assms(6), of c out]
    unpad_frame_bytes [OF assms(1,2,3,4,5) assms(6), of "[]" out] unpad_empty by simp_all

lemma padding_roundtrip: "padding_roundtrip rr r"
proof -
  let ?d = "str ''hello world''"
  let ?f = "\<lambda>n. frame_bytes ?d cmd_padding_continue n (Some test_uuid)"
  obtain n r' where f: "xtls_padding_into rr r [] ?d cmd_padding_continue (Some test_uuid) False = ([] @ ?f n, r')" "n < 65536"
    by (rule framed)
  have "unpad unpadder_new (?f n) [] = (Inr (), after_command unpadder_new cmd_padding_continue, [], ?d)"
    using unpad_one(2) [of ?d n unpadder_new cmd_padding_continue "Some test_uuid" "[]"] f(2)
    by (simp add: unpadder_new_def cmd_padding_continue_def test_uuid_def)
  moreover have "take 16 (?f n) = test_uuid" by (simp add: frame_bytes_def test_uuid_def)
  ultimately show ?thesis
    using f(1) by (simp add: padding_roundtrip_def xtls_padding_def unpad_all_def del: str_Cons)
      (simp add: unpadder_new_def after_command_def is_direct_def cmd_padding_continue_def)
qed

lemma unpadding_needs_full_frame: "unpadding_needs_full_frame rr r"
proof -
  let ?f = "\<lambda>n. frame_bytes (str ''abc'') cmd_padding_end n None"
  obtain n r' where f: "xtls_padding_into rr r [] (str ''abc'') cmd_padding_end None False = ([] @ ?f n, r')" "n < 65536"
    by (rule framed)
  obtain z w where zw: "u16_be (of_nat n) = [z, w]" by (simp add: u16_be_def)
  have frame: "?f n = [1, 0, 3, z, w, 97, 98, 99] @ replicate n 0"
    by (simp add: frame_bytes_def zw u16_be_def [of 3] cmd_padding_end_def)
  have "frame_ready unpadder_default (?f n @ [])"
    by (rule frame_bytes_ready [OF _ f(2)]) (simp_all add: unpadder_default_def)
  then have len: "frame_len 0 (?f n) \<le> length (?f n)" by (simp add: frame_ready_def complete_def prefix_of_def unpadder_default_def)
  have "drop (frame_len 0 (?f n)) (?f n) = []"
    using frame_bytes_ready(4) [OF _ f(2), of "str ''abc''" unpadder_default None "?f n" cmd_padding_end "[]"]
    by (simp add: prefix_of_def unpadder_default_def)
  with len have l: "frame_len 0 (?f n) = length (?f n)" by simp
  let ?t = "take (length (?f n) - 1) (?f n)"
  have "k < length (?f n) - 1" if "k < 5" for k using that unfolding frame by simp
  then have "k < 5 \<Longrightarrow> ?t ! k = ?f n ! k" for k by simp
  then have "frame_len 0 ?t = length (?f n)" unfolding l [symmetric] by (simp add: frame_len_def)
  moreover have "1 < length (?f n)" unfolding frame by simp
  ultimately have "\<not> frame_ready unpadder_default ?t"
    by (simp add: frame_ready_def complete_def prefix_of_def unpadder_default_def del: str_Cons) linarith
  then have "unpad unpadder_default ?t [] = (Inr (), unpadder_default, ?t, [])"
    by (intro unpad_wait) (simp_all add: unpadder_default_def)
  moreover have "unpad unpadder_default (?f n) [] = (Inr (), after_command unpadder_default cmd_padding_end, [], str ''abc'')"
    using unpad_one(2) [of "str ''abc''" n unpadder_default cmd_padding_end None "[]"] f(2)
    by (simp add: unpadder_default_def cmd_padding_end_def)
  ultimately show ?thesis
    using f(1) by (simp add: unpadding_needs_full_frame_def xtls_padding_def del: str_Cons)
      (simp add: unpadder_default_def after_command_def is_direct_def is_done_def cmd_padding_end_def)
qed

lemma end_stops_unpadding_passthrough: "end_stops_unpadding_passthrough rr r"
proof -
  obtain n r' where f: "xtls_padding_into rr r [] (str ''last'') cmd_padding_end None False
      = ([] @ frame_bytes (str ''last'') cmd_padding_end n None, r')" "n < 65536"
    by (rule framed)
  have "unpad unpadder_default (frame_bytes (str ''last'') cmd_padding_end n None @ c) []
      = (Inr (), after_command unpadder_default cmd_padding_end, [], str ''last'' @ c)" for c
    using unpad_one(1) [of "str ''last''" n unpadder_default cmd_padding_end None c "[]"] f(2)
    by (simp add: unpadder_default_def cmd_padding_end_def unpad_done after_command_def)
  with f(1) show ?thesis
    by (simp add: end_stops_unpadding_passthrough_def xtls_padding_def del: str_Cons)
      (simp add: unpadder_default_def after_command_def is_direct_def cmd_padding_end_def)
qed

lemma rejects_unknown_command: "rejects_unknown_command rr r"
proof -
  let ?f = "\<lambda>n. frame_bytes (str ''x'') 0x7F n None"
  obtain n r' where f: "xtls_padding_into rr r [] (str ''x'') 0x7F None False = ([] @ ?f n, r')" "n < 65536"
    by (rule framed)
  note ready = frame_bytes_ready [OF _ f(2), of "str ''x''" unpadder_default None "?f n" "0x7F" "[]"]
  have "frame_ready unpadder_default (?f n)" "frame_command unpadder_default (?f n) = 0x7F"
    using ready(1,2) by (simp_all add: unpadder_default_def)
  then have "\<exists>u b out. unpad unpadder_default (?f n) [] = (Inl (Protocol (str ''unknown vision padding command'')), u, b, out)"
    using unpad_frame [of unpadder_default "?f n" "[]"] by (simp add: unpadder_default_def Let_def)
  with f(1) show ?thesis by (auto simp: rejects_unknown_command_def xtls_padding_def simp del: str_Cons)
qed

section \<open>Sniffing\<close>

definition test_client_hello :: bytes where
  "test_client_hello = [0x16, 0x03, 0x01, 0x00, 0x05, 0x01] @ replicate 4 0"

definition test_app_data :: bytes where
  "test_app_data = [0x17, 0x03, 0x03, 0x00, 0x08] @ replicate 8 0x42"

definition test_server_hello :: "u16 \<Rightarrow> bool \<Rightarrow> bytes" where
  "test_server_hello suite tls13 =
     (let exts = [0x00, 0x33, 0x00, 0x02, 0x00, 0x1d] @ (if tls13 then [0x00, 0x2b, 0x00, 0x02, 0x03, 0x04] else []);
          body = [0x03, 0x03] @ replicate 32 0x5A @ [32] @ replicate 32 0x33 @ u16_be suite @ [0]
                   @ u16_be (of_nat (length exts)) @ exts;
          hs = [0x02, 0x00] @ u16_be (of_nat (length body)) @ body
      in [0x16, 0x03, 0x03] @ u16_be (of_nat (length hs)) @ hs)"

definition sniffs_tls13_server_hello_enables_xtls :: bool where
  "sniffs_tls13_server_hello_enables_xtls \<longleftrightarrow>
     (let ts = traffic_filter traffic_new (test_server_hello 0x1301 True)
      in is_tls ts \<and> is_tls12_or_above ts \<and> enable_xtls ts \<and> filter_budget ts = 0)"

definition sniffs_tls13_ccm8_without_xtls :: bool where
  "sniffs_tls13_ccm8_without_xtls \<longleftrightarrow>
     (let ts = traffic_filter traffic_new (test_server_hello 0x1305 True)
      in is_tls12_or_above ts \<and> \<not> enable_xtls ts)"

definition sniffs_tls12_server_hello :: bool where
  "sniffs_tls12_server_hello \<longleftrightarrow>
     (let ts = traffic_filter traffic_new (test_server_hello 0xc02f False)
      in is_tls ts \<and> is_tls12_or_above ts \<and> \<not> enable_xtls ts \<and> filter_budget ts = 0)"

definition sniffs_client_hello_and_counts_packets :: bool where
  "sniffs_client_hello_and_counts_packets \<longleftrightarrow>
     (let ts = traffic_filter traffic_new test_client_hello
      in is_tls ts \<and> \<not> is_tls12_or_above ts \<and> filter_budget ts = 7)"

lemma windows_tail: "length w = n \<Longrightarrow> w \<in> set (windows n (a @ w))"
  by (force simp: windows_def)

lemma windows_elems: "w \<in> set (windows n b) \<Longrightarrow> set w \<subseteq> set b"
  by (auto simp: windows_def dest!: in_set_takeD in_set_dropD)

lemma sniff_test_hello:
  assumes "0x2b \<notin> set (u16_be suite)" and "0 < filter_budget ts" and "\<not> enable_xtls ts"
  shows "traffic_filter ts (test_server_hello suite tls13)
    = \<lparr>filter_budget = 0, is_tls = True, is_tls12_or_above = True, enable_xtls = tls13 \<and> xtls_ciphers suite,
       cipher = suite, remaining_server_hello = 0\<rparr>"
proof -
  let ?b = "test_server_hello suite tls13" and ?n = "if tls13 then 93 else 87 :: nat"
  let ?v = "[0x00, 0x2b, 0x00, 0x02, 0x03, 0x04] :: bytes"
  obtain hi lo where u: "u16_be suite = [hi, lo]" "be_u16 hi lo = suite"
    by (metis be_u16_u16_be u16_be_def)
  have b: "?b = [0x16, 3, 3, 0, if tls13 then 88 else 82, 2, 0, 0, if tls13 then 84 else 78, 3, 3]
      @ replicate 32 0x5A @ [32] @ replicate 32 0x33 @ [hi, lo, 0, 0, if tls13 then 12 else 6, 0, 0x33, 0, 2, 0, 0x1d]
      @ (if tls13 then ?v else [])"
    unfolding test_server_hello_def Let_def u(1) by (cases tls13) (simp_all add: u16_be_def)
  have len: "length ?b = ?n" unfolding b by simp
  have nth: "?b ! 43 = 32" "?b ! 76 = hi" "?b ! 77 = lo" "take 3 ?b = [0x16, 3, 3]" "?b ! 5 = 2"
    unfolding b by (simp_all add: nth_append nth_Cons')
  have rl: "record_len ?b = ?n" unfolding b by (simp add: record_len_def be_u16_def)
  have hello: "sniff_hello ?b tr = tr\<lparr>remaining_server_hello := int ?n, is_tls12_or_above := True, is_tls := True,
      cipher := suite\<rparr>" for tr
    using sniff_server_hello [of ?b tr] nth u(2) by (simp add: rl len)
  have ver: "?v \<in> set (windows 6 ?b) \<longleftrightarrow> tls13"
  proof (cases tls13)
    case True
    define pre where "pre = [0x16, 3, 3, 0, 88, 2, 0, 0, 84, 3, 3] @ replicate 32 0x5A @ [32] @ replicate 32 0x33
        @ [hi, lo, 0, 0, 12, 0, 0x33, 0, 2, 0, 0x1d]"
    have "?b = pre @ ?v" using True unfolding b pre_def by simp
    moreover have "?v \<in> set (windows 6 (pre @ ?v))" by (rule windows_tail) simp
    ultimately show ?thesis using True by simp
  next
    case False
    have "0x2b \<notin> set ?b" using assms False unfolding b u(1) by (simp add: set_replicate_conv_if)
    with False show ?thesis using windows_elems [of ?v 6 ?b] by auto
  qed
  have i: "i32 (int ?n) = int ?n" "i32 0 = 0" by (simp_all add: i32_def signed_take_bit_int_eq_self)
  have six: "Suc (Suc (Suc (Suc (Suc (Suc 0))))) = 6" by simp
  have "i32 (int ?n - i32 (int (length ?b))) = 0" unfolding len i by (simp add: i)
  then show ?thesis
    unfolding traffic_filter_def hello sniff_versions_def
    using ver assms(2,3) by (cases ts) (simp add: len const_defs six Let_def)
qed

lemma sniffs_server_hello:
  shows sniffs_tls13_server_hello_enables_xtls and sniffs_tls13_ccm8_without_xtls and sniffs_tls12_server_hello
proof -
  have u: "0x2b \<notin> set (u16_be 0x1301)" "0x2b \<notin> set (u16_be 0x1305)" "0x2b \<notin> set (u16_be 0xc02f)"
    by (simp_all add: u16_be_def)
  have new: "0 < filter_budget traffic_new" "\<not> enable_xtls traffic_new" by (simp_all add: traffic_new_def const_defs)
  have x: "xtls_ciphers 0x1301" "\<not> xtls_ciphers 0x1305" by (simp_all add: xtls_ciphers_def)
  show sniffs_tls13_server_hello_enables_xtls sniffs_tls13_ccm8_without_xtls sniffs_tls12_server_hello
    by (simp_all add: sniffs_tls13_server_hello_enables_xtls_def sniffs_tls13_ccm8_without_xtls_def
        sniffs_tls12_server_hello_def sniff_test_hello [OF u(1) new] sniff_test_hello [OF u(2) new] sniff_test_hello [OF u(3) new] x)
qed

lemma sniffs_client_hello_and_counts_packets: sniffs_client_hello_and_counts_packets
  by code_simp

section \<open>The padder\<close>

text \<open>
  A slice of a frame that is too short panics, so that a test with it fails.
\<close>

definition only_first_frame_carries_uuid :: "'r rng \<Rightarrow> 'r \<Rightarrow> bool" where
  "only_first_frame_carries_uuid rr r \<longleftrightarrow>
     (let (p, ts) = (padder_new test_uuid, traffic_new);
          (first, p, ts, r) = pad rr r p (str ''aaa'') ts;
          (second, p, ts, r) = pad rr r p (str ''bbb'') ts
      in get_range 0 16 first = Some test_uuid \<and>
         (case get_range 0 16 second of None \<Rightarrow> False | Some x \<Rightarrow> x \<noteq> test_uuid) \<and>
         (case unpad_all (first @ second) of None \<Rightarrow> False | Some (_, out) \<Rightarrow> out = str ''aaabbb''))"

definition plain_traffic_ends_padding_when_filter_runs_out :: "'r rng \<Rightarrow> 'r \<Rightarrow> bool" where
  "plain_traffic_ends_padding_when_filter_runs_out rr r \<longleftrightarrow>
     (let (p, ts) = (padder_new test_uuid, traffic_new);
          (first, p, ts, r) = pad rr r p (str ''plain http payload'') ts;
          (a, p, ts, r) = pad rr r p (str ''more'') ts;
          (b, p, ts, r) = pad rr r p (str ''more'') ts;
          (c, p, ts, r) = pad rr r p (str ''more'') ts;
          (d, p, ts, r) = pad rr r p (str ''more'') ts;
          (e, p, ts, r) = pad rr r p (str ''more'') ts;
          p6 = p;
          (seventh, p, ts, r) = pad rr r p (str ''seventh'') ts;
          (after, p', ts, r) = pad rr r p (str ''after'') ts
      in first ! uuid_len = cmd_padding_continue \<and>
         list_all (\<lambda>f. f ! 0 = cmd_padding_continue) [a, b, c, d, e] \<and> \<not> padding_done p6 \<and>
         seventh ! 0 = cmd_padding_end \<and> padding_done p \<and> \<not> wants_direct p \<and> after = str ''after'')"

definition plain_traffic_uses_short_padding :: "'r rng \<Rightarrow> 'r \<Rightarrow> bool" where
  "plain_traffic_uses_short_padding rr r \<longleftrightarrow>
     (let (framed, p, ts, r) = pad rr r (padder_new test_uuid) (str ''x'') traffic_new;
          pad_len = unat (be_u16 (framed ! (uuid_len + 3)) (framed ! (uuid_len + 4)))
      in pad_len < seed_short_range)"

definition tls13_application_data_sends_direct :: "'r rng \<Rightarrow> 'r \<Rightarrow> bool" where
  "tls13_application_data_sends_direct rr r \<longleftrightarrow>
     (let (first, p, ts, r) = pad rr r (padder_new test_uuid) test_client_hello traffic_new;
          ts = traffic_filter ts (test_server_hello 0x1301 True);
          p1 = p;
          (second, p, ts, r) = pad rr r p test_app_data ts;
          (raw, p', ts, r) = pad rr r p (str ''raw'') ts
      in first ! uuid_len = cmd_padding_continue \<and> \<not> padding_done p1 \<and>
         second ! 0 = cmd_padding_direct \<and> padding_done p \<and> wants_direct p \<and> raw = str ''raw'')"

definition tls12_application_data_sends_end :: "'r rng \<Rightarrow> 'r \<Rightarrow> bool" where
  "tls12_application_data_sends_end rr r \<longleftrightarrow>
     (let (first, p, ts, r) = pad rr r (padder_new test_uuid) test_client_hello traffic_new;
          ts = traffic_filter ts (test_server_hello 0xc02f False);
          (second, p, ts, r) = pad rr r p test_app_data ts
      in second ! 0 = cmd_padding_end \<and> padding_done p \<and> \<not> wants_direct p)"

definition incomplete_record_does_not_switch :: "'r rng \<Rightarrow> 'r \<Rightarrow> bool" where
  "incomplete_record_does_not_switch rr r \<longleftrightarrow>
     (let (first, p, ts, r) = pad rr r (padder_new test_uuid) test_client_hello traffic_new;
          ts = traffic_filter ts (test_server_hello 0x1301 True);
          partial = [0x17, 0x03, 0x03, 0x00, 0x08] @ replicate 3 0x42;
          (framed, p, ts, r) = pad rr r p partial ts
      in framed ! 0 = cmd_padding_continue \<and> \<not> padding_done p)"

definition padding_length_follows_xray_formula :: "'r rng \<Rightarrow> 'r \<Rightarrow> bool" where
  "padding_length_follows_xray_formula rr r \<longleftrightarrow>
     (let (short, r) = padding_len rr r 10 False;
          (long, r) = padding_len rr r 10 True;
          (other, r) = padding_len rr r 1000 True;
          (huge, r) = padding_len rr r (buf_size - 25) True
      in short < seed_short_range \<and> seed_long_base - 10 \<le> long \<and> long < seed_long_base + seed_long_range - 10 \<and>
         other < seed_short_range \<and> 21 + (buf_size - 25) + huge \<le> buf_size)"

text \<open>A write that is not split makes one frame, whatever the generator.\<close>

definition pad_command :: "traffic_state \<Rightarrow> bytes \<Rightarrow> u8" where
  "pad_command ts d =
     (if is_tls ts \<and> 6 \<le> length d \<and> take 3 d = tls_application_data_start \<and> is_complete_record d then end_command ts
      else if \<not> is_tls12_or_above ts \<and> filter_budget ts \<le> 1 then cmd_padding_end else cmd_padding_continue)"

definition pad_after :: "traffic_state \<Rightarrow> bytes \<Rightarrow> padder \<Rightarrow> padder" where
  "pad_after ts d p =
     (if is_tls ts \<and> 6 \<le> length d \<and> take 3 d = tls_application_data_start \<and> is_complete_record d
      then p\<lparr>pd_padding := False, pd_direct := enable_xtls ts, pd_uuid := None\<rparr>
      else if \<not> is_tls12_or_above ts \<and> filter_budget ts \<le> 1 then p\<lparr>pd_padding := False, pd_uuid := None\<rparr>
      else p\<lparr>pd_uuid := None\<rparr>)"

lemma pad_one:
  assumes "pd_padding p" and "length d < 8171"
  obtains n r' where "n < 65536" "(n, r') = padding_len rr r (length d) (is_tls (traffic_filter ts d))"
    "pad rr r p d ts =
       (frame_bytes d (pad_command (traffic_filter ts d) d) n (pd_uuid p),
        pad_after (traffic_filter ts d) d p, traffic_filter ts d, r')"
proof -
  let ?ts = "traffic_filter ts d"
  obtain n r' where f: "xtls_padding_into rr r [] d (pad_command ?ts d) (pd_uuid p) (is_tls ?ts)
      = ([] @ frame_bytes d (pad_command ?ts d) n (pd_uuid p), r')" "n < 65536"
    "(n, r') = padding_len rr r (length d) (is_tls ?ts)"
    by (rule framed)
  have "reshape d = [d]" using assms(2) by (subst reshape.simps) (simp add: const_defs)
  then have "pad rr r p d ts = (frame_bytes d (pad_command ?ts d) n (pd_uuid p), pad_after ?ts d p, ?ts, r')"
    using f(1) assms(1)
    by (auto simp: pad_def pad_into_def pad_command_def pad_after_def Let_def split: prod.splits if_splits)
  with f(2,3) show thesis by (intro that)
qed

lemma pad_off: "\<not> pd_padding p \<Longrightarrow> pad rr r p d ts = (d, p, traffic_filter ts d, r)"
  by (simp add: pad_def pad_into_def Let_def)

lemma frame_at:
  "frame_bytes d c n None ! 0 = c" "length i = 16 \<Longrightarrow> frame_bytes d c n (Some i) ! 16 = c"
  by (simp_all add: frame_bytes_def nth_append)

text \<open>Traffic that is not TLS only uses up the packets that are sniffed.\<close>

definition plain :: "int \<Rightarrow> traffic_state" where
  "plain k = traffic_new\<lparr>filter_budget := k\<rparr>"

lemma plain_filter:
  assumes "0 < k" and "take 1 d \<noteq> [0x16]"
  shows "traffic_filter (plain k) d = plain (k - 1)"
proof -
  have "take 2 d \<noteq> tls_handshake_start" "take 3 d \<noteq> tls_server_handshake_start"
    using assms(2) by (cases d; simp add: const_defs)+
  then show ?thesis using assms(1)
    by (simp add: traffic_filter_def sniff_hello_def sniff_versions_def plain_def traffic_new_def)
qed

lemma pad_plain:
  assumes "pd_padding p" and "length d < 8171" and "0 < k" and "take 1 d \<noteq> [0x16]"
  obtains n r' where "n < 65536" "(n, r') = padding_len rr r (length d) False"
    "pad rr r p d (plain k) =
       (frame_bytes d (if k \<le> 2 then cmd_padding_end else cmd_padding_continue) n (pd_uuid p),
        (if k \<le> 2 then p\<lparr>pd_padding := False, pd_uuid := None\<rparr> else p\<lparr>pd_uuid := None\<rparr>), plain (k - 1), r')"
proof -
  obtain n r' where n: "n < 65536" "(n, r') = padding_len rr r (length d) (is_tls (traffic_filter (plain k) d))"
    "pad rr r p d (plain k) =
       (frame_bytes d (pad_command (traffic_filter (plain k) d) d) n (pd_uuid p),
        pad_after (traffic_filter (plain k) d) d p, traffic_filter (plain k) d, r')"
    by (rule pad_one [OF assms(1,2)])
  have f: "is_tls (plain j) = False" "is_tls12_or_above (plain j) = False" "filter_budget (plain j) = j" for j
    by (simp_all add: plain_def traffic_new_def)
  from n show thesis unfolding plain_filter [OF assms(3,4)]
    by (intro that) (simp_all add: pad_command_def pad_after_def f)
qed

lemma plain_new: "traffic_new = plain 8"
  by (simp add: plain_def traffic_new_def const_defs)

lemma padder_start: "pd_padding (padder_new i)" "pd_uuid (padder_new i) = Some i"
  by (simp_all add: padder_new_def)

lemma plain_traffic_uses_short_padding:
  assumes "rng_ok rr"
  shows "plain_traffic_uses_short_padding rr r"
proof -
  obtain n r' where n: "n < 65536" "(n, r') = padding_len rr r 1 False"
    "pad rr r (padder_new test_uuid) (str ''x'') (plain 8) =
       (frame_bytes (str ''x'') cmd_padding_continue n (Some test_uuid), padder_new test_uuid\<lparr>pd_uuid := None\<rparr>, plain 7, r')"
    by (rule pad_plain [of "padder_new test_uuid" "str ''x''" 8 rr r]) (simp_all add: padder_start)
  have "fst (rr r 256) < 256" using assms by (simp add: rng_ok_def)
  then have short: "n < 256" using n(2) by (auto simp: padding_len_def const_defs Let_def split: prod.splits if_splits)
  obtain z w where zw: "u16_be (of_nat n) = [z, w]" "be_u16 z w = of_nat n"
    by (metis be_u16_u16_be u16_be_def)
  have "frame_bytes (str ''x'') cmd_padding_continue n (Some test_uuid) = (test_uuid @ [0, 0, 1]) @ [z, w, 120] @ replicate n 0"
    by (simp add: frame_bytes_def zw u16_be_def [of 1] cmd_padding_continue_def)
  moreover have "length (test_uuid @ [0, 0, 1]) = 19" by (simp add: test_uuid_def)
  ultimately have "frame_bytes (str ''x'') cmd_padding_continue n (Some test_uuid) ! 19 = z"
    "frame_bytes (str ''x'') cmd_padding_continue n (Some test_uuid) ! 20 = w"
    by (simp_all add: nth_append)
  then show ?thesis using n(1) short
    by (simp add: plain_traffic_uses_short_padding_def plain_new n(3) uuid_len_def zw(2) seed_short_range_def
        del: str_Cons)
qed

text \<open>
  The second frame of this test has 8 bytes and its padding, of which there may be fewer than 8:
  then the slice of 16 bytes panics.
\<close>

lemma only_first_frame_carries_uuid:
  "only_first_frame_carries_uuid rr r \<longleftrightarrow> 8 \<le> fst (padding_len rr (snd (padding_len rr r 3 False)) 3 False)"
proof -
  let ?p = "padder_new test_uuid" and ?a = "str ''aaa''" and ?b = "str ''bbb''"
  let ?q = "?p\<lparr>pd_uuid := None\<rparr>"
  let ?f = "\<lambda>n. frame_bytes ?a cmd_padding_continue n (Some test_uuid)" and ?g = "\<lambda>n. frame_bytes ?b cmd_padding_continue n None"
  obtain n r1 where n: "n < 65536" "(n, r1) = padding_len rr r 3 False" "pad rr r ?p ?a (plain 8) = (?f n, ?q, plain 7, r1)"
    by (rule pad_plain [of ?p ?a 8 rr r]) (auto simp: padder_start numeral_3_eq_3)
  obtain m r2 where m: "m < 65536" "(m, r2) = padding_len rr r1 3 False" "pad rr r1 ?q ?b (plain 7) = (?g m, ?q, plain 6, r2)"
    by (rule pad_plain [of ?q ?b 7 rr r1]) (auto simp: padder_start numeral_3_eq_3)
  have first: "get_range 0 16 (?f n) = Some test_uuid"
    by (simp add: get_range_def slice_def frame_bytes_def test_uuid_def)
  have len: "length (?g m) = m + 8" by (simp add: frame_bytes_def)
  have "take 16 (?g m) \<noteq> test_uuid"
  proof
    assume "take 16 (?g m) = test_uuid"
    moreover have "take 16 (?g m) ! 0 = 0" by (simp add: frame_at cmd_padding_continue_def)
    moreover have "test_uuid ! 0 = 0xAA" by (simp add: test_uuid_def)
    ultimately show False by simp
  qed
  then have second: "(case get_range 0 16 (?g m) of None \<Rightarrow> False | Some x \<Rightarrow> x \<noteq> test_uuid) \<longleftrightarrow> 8 \<le> m"
    using len by (simp add: get_range_def slice_def del: str_Cons)
  have "unpad unpadder_new (?f n @ ?g m) [] = unpad (after_command unpadder_new 0) (?g m) ?a"
    using unpad_one(1) [of ?a n unpadder_new cmd_padding_continue "Some test_uuid" "?g m" "[]"] n(1)
    by (simp add: unpadder_new_def cmd_padding_continue_def test_uuid_def)
  also have "\<dots> = (Inr (), after_command unpadder_new 0, [], ?a @ ?b)"
    using unpad_one(2) [of ?b m "after_command unpadder_new 0" cmd_padding_continue None ?a] m(1)
    by (simp add: unpadder_new_def after_command_def cmd_padding_continue_def)
  finally have "unpad_all (?f n @ ?g m) = Some (after_command unpadder_new 0, str ''aaabbb'')"
    by (simp add: unpad_all_def)
  moreover have "m = fst (padding_len rr (snd (padding_len rr r 3 False)) 3 False)"
    by (metis n(2) m(2) fst_conv snd_conv)
  ultimately show ?thesis
    using first second by (simp add: only_first_frame_carries_uuid_def plain_new n(3) m(3) del: str_Cons)
qed

lemma plain_traffic_ends_padding_when_filter_runs_out: "plain_traffic_ends_padding_when_filter_runs_out rr r"
proof -
  let ?p = "padder_new test_uuid" and ?m = "str ''more''"
  let ?q = "?p\<lparr>pd_uuid := None\<rparr>"
  have more: "\<exists>n r'. pad rr r ?q ?m (plain k) = (frame_bytes ?m cmd_padding_continue n None, ?q, plain (k - 1), r')"
    if "2 < k" for k r
    by (rule pad_plain [of ?q ?m k rr r]) (use that in \<open>auto simp: padder_start\<close>)
  obtain n0 r0 where 0: "pad rr r ?p (str ''plain http payload'') (plain 8) =
      (frame_bytes (str ''plain http payload'') cmd_padding_continue n0 (Some test_uuid), ?q, plain 7, r0)"
    by (rule pad_plain [of ?p "str ''plain http payload''" 8 rr r]) (simp_all add: padder_start)
  obtain n1 r1 where 1: "pad rr r0 ?q ?m (plain 7) = (frame_bytes ?m cmd_padding_continue n1 None, ?q, plain 6, r1)"
    using more [of 7 r0] by auto
  obtain n2 r2 where 2: "pad rr r1 ?q ?m (plain 6) = (frame_bytes ?m cmd_padding_continue n2 None, ?q, plain 5, r2)"
    using more [of 6 r1] by auto
  obtain n3 r3 where 3: "pad rr r2 ?q ?m (plain 5) = (frame_bytes ?m cmd_padding_continue n3 None, ?q, plain 4, r3)"
    using more [of 5 r2] by auto
  obtain n4 r4 where 4: "pad rr r3 ?q ?m (plain 4) = (frame_bytes ?m cmd_padding_continue n4 None, ?q, plain 3, r4)"
    using more [of 4 r3] by auto
  obtain n5 r5 where 5: "pad rr r4 ?q ?m (plain 3) = (frame_bytes ?m cmd_padding_continue n5 None, ?q, plain 2, r5)"
    using more [of 3 r4] by auto
  obtain n6 r6 where 6: "pad rr r5 ?q (str ''seventh'') (plain 2) =
      (frame_bytes (str ''seventh'') cmd_padding_end n6 None, ?q\<lparr>pd_padding := False, pd_uuid := None\<rparr>, plain 1, r6)"
    by (rule pad_plain [of ?q "str ''seventh''" 2 rr r5]) (simp_all add: padder_start)
  have "length test_uuid = 16" by (simp add: test_uuid_def)
  then show ?thesis
    unfolding plain_traffic_ends_padding_when_filter_runs_out_def plain_new
    by (simp add: 0 1 2 3 4 5 6 frame_at uuid_len_def del: str_Cons)
      (simp add: padder_new_def padding_done_def wants_direct_def pad_off)
qed

text \<open>The session of the TLS tests: a ClientHello up, a ServerHello down.\<close>

lemma hello_filter: "traffic_filter traffic_new test_client_hello = (plain 7)\<lparr>is_tls := True\<rparr>"
  by (simp add: traffic_filter_def sniff_hello_def sniff_versions_def plain_def traffic_new_def test_client_hello_def
      const_defs)

lemma hello_up:
  obtains n r' where "pad rr r (padder_new test_uuid) test_client_hello traffic_new =
    (frame_bytes test_client_hello cmd_padding_continue n (Some test_uuid), padder_new test_uuid\<lparr>pd_uuid := None\<rparr>,
     (plain 7)\<lparr>is_tls := True\<rparr>, r')" "(n, r') = padding_len rr r (length test_client_hello) True" "n < 65536"
proof -
  let ?p = "padder_new test_uuid" and ?ts = "(plain 7)\<lparr>is_tls := True\<rparr>"
  have "take 3 test_client_hello \<noteq> tls_application_data_start" "length test_client_hello < 8171"
    by (simp_all add: test_client_hello_def const_defs)
  then have c: "pad_command ?ts test_client_hello = cmd_padding_continue"
    "pad_after ?ts test_client_hello ?p = ?p\<lparr>pd_uuid := None\<rparr>" and l: "length test_client_hello < 8171"
    by (simp_all add: pad_command_def pad_after_def plain_def traffic_new_def)
  have tls: "is_tls ?ts" by simp
  obtain n r' where "n < 65536" "(n, r') = padding_len rr r (length test_client_hello)
        (is_tls (traffic_filter traffic_new test_client_hello))"
    "pad rr r ?p test_client_hello traffic_new =
      (frame_bytes test_client_hello (pad_command (traffic_filter traffic_new test_client_hello) test_client_hello) n
         (pd_uuid ?p),
       pad_after (traffic_filter traffic_new test_client_hello) test_client_hello ?p,
       traffic_filter traffic_new test_client_hello, r')"
    by (rule pad_one [OF padder_start(1) l])
  then show thesis using that unfolding hello_filter c padder_start by simp
qed

lemma data_up:
  fixes suite :: u16 and tls13 :: bool and d :: bytes and rr :: "'r rng"
  assumes "0x2b \<notin> set (u16_be suite)" and "length d < 8171"
  defines "ts \<equiv> \<lparr>filter_budget = 0, is_tls = True, is_tls12_or_above = True, enable_xtls = tls13 \<and> xtls_ciphers suite,
       cipher = suite, remaining_server_hello = 0\<rparr>"
  obtains n r' where
    "traffic_filter ((plain 7)\<lparr>is_tls := True\<rparr>) (test_server_hello suite tls13) = ts"
    "pad rr r (padder_new test_uuid\<lparr>pd_uuid := None\<rparr>) d ts =
       (frame_bytes d (pad_command ts d) n None, pad_after ts d (padder_new test_uuid\<lparr>pd_uuid := None\<rparr>), ts, r')"
proof -
  have f: "traffic_filter ts d = ts" by (simp add: traffic_filter_def ts_def)
  have "traffic_filter ((plain 7)\<lparr>is_tls := True\<rparr>) (test_server_hello suite tls13) = ts"
    unfolding ts_def by (rule sniff_test_hello [OF assms(1)]) (simp_all add: plain_def traffic_new_def)
  with pad_one [of "padder_new test_uuid\<lparr>pd_uuid := None\<rparr>" d rr r ts thesis] assms(2)
  show thesis using that by (simp add: f padder_start)
qed

lemma uuid16: "length test_uuid = 16"
  by (simp add: test_uuid_def)

lemma app_data:
  "take 3 test_app_data = tls_application_data_start" "6 \<le> length test_app_data" "length test_app_data < 8171"
  "is_complete_record test_app_data"
proof -
  show "take 3 test_app_data = tls_application_data_start" "6 \<le> length test_app_data" "length test_app_data < 8171"
    by (simp_all add: test_app_data_def const_defs)
  show "is_complete_record test_app_data" by code_simp
qed

lemma suites: "0x2b \<notin> set (u16_be 0x1301)" "0x2b \<notin> set (u16_be 0xc02f)" "xtls_ciphers 0x1301"
  by (simp_all add: u16_be_def xtls_ciphers_def)

lemma tls13_application_data_sends_direct: "tls13_application_data_sends_direct rr r"
proof -
  obtain n r1 where 1: "pad rr r (padder_new test_uuid) test_client_hello traffic_new =
    (frame_bytes test_client_hello cmd_padding_continue n (Some test_uuid), padder_new test_uuid\<lparr>pd_uuid := None\<rparr>,
     (plain 7)\<lparr>is_tls := True\<rparr>, r1)" by (rule hello_up)
  note 2 = data_up [OF suites(1) app_data(3), of True rr r1]
  show ?thesis
    by (rule 2) (simp add: tls13_application_data_sends_direct_def 1 suites app_data pad_command_def pad_after_def
      frame_at uuid_len_def pad_off end_command_def padding_done_def wants_direct_def uuid16 padder_start del: str_Cons)
qed

lemma tls12_application_data_sends_end: "tls12_application_data_sends_end rr r"
proof -
  obtain n r1 where 1: "pad rr r (padder_new test_uuid) test_client_hello traffic_new =
    (frame_bytes test_client_hello cmd_padding_continue n (Some test_uuid), padder_new test_uuid\<lparr>pd_uuid := None\<rparr>,
     (plain 7)\<lparr>is_tls := True\<rparr>, r1)" by (rule hello_up)
  note 2 = data_up [OF suites(2) app_data(3), of False rr r1]
  show ?thesis
    by (rule 2) (simp add: tls12_application_data_sends_end_def 1 app_data pad_command_def pad_after_def frame_at
      end_command_def padding_done_def wants_direct_def)
qed

lemma incomplete_record_does_not_switch: "incomplete_record_does_not_switch rr r"
proof -
  let ?d = "[0x17, 0x03, 0x03, 0x00, 0x08] @ replicate 3 0x42 :: bytes"
  have d: "\<not> is_complete_record ?d" by code_simp
  have "length ?d < 8171" by simp
  note 2 = data_up [OF suites(1) this, of True rr]
  obtain n r1 where 1: "pad rr r (padder_new test_uuid) test_client_hello traffic_new =
    (frame_bytes test_client_hello cmd_padding_continue n (Some test_uuid), padder_new test_uuid\<lparr>pd_uuid := None\<rparr>,
     (plain 7)\<lparr>is_tls := True\<rparr>, r1)" by (rule hello_up)
  show ?thesis
    unfolding incomplete_record_does_not_switch_def
    by (rule 2 [of r1]) (simp add: 1 d pad_command_def pad_after_def frame_at padding_done_def padder_start
      del: append.simps replicate_Suc replicate.simps)
qed

lemma padding_length_follows_xray_formula:
  assumes "rng_ok rr"
  shows "padding_length_follows_xray_formula rr r"
proof -
  have rr: "fst (rr r 256) < 256" "fst (rr r 500) < 500" for r using assms by (simp_all add: rng_ok_def)
  have short: "fst (padding_len rr r c False) < 256" "fst (padding_len rr r 1000 True) < 256" for r c
    using rr(1) [of r] by (auto simp: padding_len_def const_defs Let_def split: prod.splits)
  have long: "890 \<le> fst (padding_len rr r 10 True) \<and> fst (padding_len rr r 10 True) < 1390" for r
    using rr(2) [of r] by (auto simp: padding_len_def const_defs Let_def split: prod.splits)
  have cap: "fst (padding_len rr r 8167 True) \<le> 4" for r
    by (auto simp: padding_len_def const_defs Let_def split: prod.splits)
  show ?thesis
    using short long cap unfolding padding_length_follows_xray_formula_def
    by (auto simp: const_defs split: prod.splits) (metis fst_conv)+
qed

section \<open>Large writes\<close>

text \<open>
  The frames of what was written, as command and content; \<open>None\<close> where the test panics.
\<close>

function frames_loop :: "bytes \<Rightarrow> (u8 \<times> bytes) list option" where
  "frames_loop wire =
     (if wire = [] then Some []
      else if length wire < header_len then None
      else
        let cmd = wire ! 0; clen = unat (be_u16 (wire ! 1) (wire ! 2)); plen = unat (be_u16 (wire ! 3) (wire ! 4))
        in if buf_size < header_len + uuid_len + clen + plen \<or> length wire < header_len + clen + plen then None
           else map_option (Cons (cmd, slice header_len (header_len + clen) wire))
                  (frames_loop (drop (header_len + clen + plen) wire)))"
  by pat_completeness auto
termination
  by (relation "measure length") (auto simp: header_len_def)

declare frames_loop.simps [simp del]

definition frames :: "bytes \<Rightarrow> bool \<Rightarrow> (u8 \<times> bytes) list option" where
  "frames wire first_has_uuid =
     (if first_has_uuid
      then if length wire < uuid_len then None else frames_loop (drop uuid_len wire)
      else frames_loop wire)"

definition concat_content :: "(u8 \<times> bytes) list \<Rightarrow> bytes" where
  "concat_content fs = concat (map snd fs)"

definition write_is_reshaped :: "'r rng \<Rightarrow> 'r \<Rightarrow> bytes \<Rightarrow> bool" where
  "write_is_reshaped rr r data \<longleftrightarrow>
     (let (wire, p, ts, r) = pad rr r (padder_new test_uuid) data traffic_new
      in case frames wire True of
           None \<Rightarrow> False
         | Some fs \<Rightarrow>
             2 \<le> length fs \<and>
             list_all (\<lambda>(cmd, c). cmd = cmd_padding_continue \<and> length c \<le> max_frame_content) fs \<and>
             concat_content fs = data)"

definition large_write_is_reshaped_into_frames :: "'r rng \<Rightarrow> 'r \<Rightarrow> bool" where
  "large_write_is_reshaped_into_frames rr r \<longleftrightarrow>
     list_all (\<lambda>size. write_is_reshaped rr r (map (\<lambda>i. of_nat (i mod 251)) [0 ..< size])) [8171, 8192, 20000, 65536]"

lemma frames_loop_frame:
  assumes "21 + length b + n \<le> 8192"
  shows "frames_loop (frame_bytes b c n None @ w) = map_option (Cons (c, b)) (frames_loop w)"
proof -
  obtain x y where xy: "u16_be (of_nat (length b)) = [x, y]" "be_u16 x y = of_nat (length b)"
    by (metis be_u16_u16_be u16_be_def)
  obtain z v where zv: "u16_be (of_nat n) = [z, v]" "be_u16 z v = of_nat n"
    by (metis be_u16_u16_be u16_be_def)
  have f: "frame_bytes b c n None @ w = [c, x, y, z, v] @ b @ replicate n 0 @ w"
    by (simp add: frame_bytes_def xy zv)
  have l: "unat (be_u16 x y) = length b" "unat (be_u16 z v) = n" using assms by (simp_all add: xy(2) zv(2))
  have "drop (length ([c, x, y, z, v] @ b @ replicate n 0)) (([c, x, y, z, v] @ b @ replicate n 0) @ w) = w"
    by (rule append_eq_conv_conj [THEN iffD1, THEN conjunct2, symmetric, OF refl])
  moreover have "length ([c, x, y, z, v] @ b @ replicate n 0) = 5 + length b + n" by simp
  ultimately have d: "drop (5 + length b + n) ([c, x, y, z, v] @ b @ replicate n 0 @ w) = w"
    by (simp only: append_assoc)
  show ?thesis
    unfolding f using assms d
    by (subst frames_loop.simps) (simp add: l header_len_def uuid_len_def buf_size_def slice_def Let_def)
qed

lemma padding_fits:
  assumes "(n, r') = padding_len rr r c l" and "c \<le> 8171"
  shows "21 + c + n \<le> 8192"
  using assms by (auto simp: padding_len_def const_defs Let_def split: prod.splits if_splits)

lemma plain_pieces:
  assumes "\<forall>b \<in> set ps. length b \<le> 8171" and "pd_padding p" and "2 \<le> k"
  shows "\<exists>w r'. pad_pieces rr (plain k) whole ps (p\<lparr>pd_uuid := None\<rparr>) False r out
      = (p\<lparr>pd_uuid := None\<rparr>, out @ w, r') \<and> frames_loop w = Some (map (Pair cmd_padding_continue) ps)"
  using assms(1)
proof (induction ps arbitrary: r out)
  case Nil
  then show ?case by (simp add: frames_loop.simps)
next
  case (Cons b ps)
  obtain n r1 where f: "xtls_padding_into rr r out b cmd_padding_continue None False
      = (out @ frame_bytes b cmd_padding_continue n None, r1)" "(n, r1) = padding_len rr r (length b) False"
    by (rule framed)
  have fit: "21 + length b + n \<le> 8192" by (rule padding_fits [OF f(2)]) (use Cons.prems in simp)
  from Cons obtain w r2 where "pad_pieces rr (plain k) whole ps (p\<lparr>pd_uuid := None\<rparr>) False r1
      (out @ frame_bytes b cmd_padding_continue n None)
      = (p\<lparr>pd_uuid := None\<rparr>, (out @ frame_bytes b cmd_padding_continue n None) @ w, r2)"
    "frames_loop w = Some (map (Pair cmd_padding_continue) ps)" by (metis list.set_intros(2))
  with f(1) assms(2,3) fit show ?case
    by (intro exI [of _ "frame_bytes b cmd_padding_continue n None @ w"] exI [of _ r2])
      (simp add: plain_def traffic_new_def frames_loop_frame)
qed

text \<open>Any write of plain data that is split, not only those of the test.\<close>

lemma plain_write_frames:
  assumes "8171 \<le> length d" and "take 1 d \<noteq> [0x16]"
  shows "\<exists>wire r'. pad rr r (padder_new test_uuid) d traffic_new
      = (wire, padder_new test_uuid\<lparr>pd_uuid := None\<rparr>, plain 7, r') \<and>
    frames wire True = Some (map (Pair cmd_padding_continue) (reshape d)) \<and> 2 \<le> length (reshape d)"
proof -
  let ?p = "padder_new test_uuid"
  have "reshape d = take (reshape_at d) d # reshape (drop (reshape_at d) d)"
    using assms(1) by (subst reshape.simps) (simp add: const_defs)
  then obtain b rest where r2: "reshape d = b # rest" and rest: "rest \<noteq> []" by (simp add: reshape_not_Nil)
  have len: "\<forall>b \<in> set (reshape d). length b \<le> 8171" using reshape_pieces by blast
  have ts: "traffic_filter traffic_new d = plain 7" using plain_filter [of 8 d] assms(2) by (simp add: plain_new)
  obtain n r1 where f: "xtls_padding_into rr r [] b cmd_padding_continue (Some test_uuid) False
      = ([] @ frame_bytes b cmd_padding_continue n (Some test_uuid), r1)" "(n, r1) = padding_len rr r (length b) False"
    by (rule framed)
  have fit: "21 + length b + n \<le> 8192" by (rule padding_fits [OF f(2)]) (use len r2 in simp)
  obtain w r2 where w: "pad_pieces rr (plain 7) (is_complete_record d) rest (?p\<lparr>pd_uuid := None\<rparr>) False r1
      (frame_bytes b cmd_padding_continue n (Some test_uuid))
      = (?p\<lparr>pd_uuid := None\<rparr>, frame_bytes b cmd_padding_continue n (Some test_uuid) @ w, r2)"
    "frames_loop w = Some (map (Pair cmd_padding_continue) rest)"
    using plain_pieces [of rest ?p 7 rr "is_complete_record d" r1 "frame_bytes b cmd_padding_continue n (Some test_uuid)"]
      len r2 padder_start(1) by auto
  have flags: "\<not> is_tls (plain 7)" "\<not> is_tls12_or_above (plain 7)" "filter_budget (plain 7) = 7"
    by (simp_all add: plain_def traffic_new_def)
  have "pad rr r ?p d traffic_new
      = (frame_bytes b cmd_padding_continue n (Some test_uuid) @ w, ?p\<lparr>pd_uuid := None\<rparr>, plain 7, r2)"
    using f(1) w(1) by (simp add: pad_def pad_into_def ts r2 flags padder_start Let_def)
  moreover have "frame_bytes b cmd_padding_continue n (Some test_uuid) = test_uuid @ frame_bytes b cmd_padding_continue n None"
    by (simp add: frame_bytes_def)
  ultimately show ?thesis
    using w(2) fit rest
    by (simp add: frames_def uuid16 uuid_len_def frames_loop_frame r2 Suc_le_eq)
qed

lemma write_is_reshaped:
  assumes "8171 \<le> length d" and "take 1 d \<noteq> [0x16]"
  shows "write_is_reshaped rr r d"
proof -
  from plain_write_frames [OF assms, of rr r] obtain wire r' where
    w: "pad rr r (padder_new test_uuid) d traffic_new = (wire, padder_new test_uuid\<lparr>pd_uuid := None\<rparr>, plain 7, r')"
    "frames wire True = Some (map (Pair cmd_padding_continue) (reshape d))" "2 \<le> length (reshape d)" by blast
  have "list_all (\<lambda>(cmd, c). cmd = cmd_padding_continue \<and> length c \<le> max_frame_content)
      (map (Pair cmd_padding_continue) (reshape d))"
    using reshape_pieces [of d] by (simp add: list_all_iff const_defs)
  moreover have "concat_content (map (Pair cmd_padding_continue) (reshape d)) = d"
    by (simp add: concat_content_def comp_def reshape_concat)
  ultimately show ?thesis by (simp add: write_is_reshaped_def w)
qed

lemma large_write_is_reshaped_into_frames: "large_write_is_reshaped_into_frames rr r"
proof -
  have *: "write_is_reshaped rr r (map (\<lambda>i. of_nat (i mod 251)) [0 ..< size])" if s: "8171 \<le> size" for size
  proof (rule write_is_reshaped)
    have "0 < size" using s by simp
    then show "take 1 (map (\<lambda>i. of_nat (i mod 251)) [0 ..< size]) \<noteq> [0x16 :: u8]"
      by (subst upt_conv_Cons) simp_all
  qed (simp add: s)
  show ?thesis
    unfolding large_write_is_reshaped_into_frames_def list.pred_inject by (intro conjI TrueI *) simp_all
qed

end
