(* ===== verification/TestsGate.thy ===== *)
theory TestsGate
  imports GatedTls
begin

text \<open>
  The unit tests of \<^verbatim>\<open>src/outbound/record_gate.rs\<close>. What the peer wrote is the script of the
  socket; a read that waits for more than was written stalls.
\<close>

definition test_record :: "u8 \<Rightarrow> bytes \<Rightarrow> bytes" where
  "test_record kind payload = [kind, 0x03, 0x03] @ u16_be (of_nat (length payload)) @ payload"

text \<open>
  \<^verbatim>\<open>read_exact\<close> with at most so many polls: \<open>None\<close> if it is still waiting then, or has met
  the end of the stream or an error.
\<close>

fun gate_read_exact :: "nat \<Rightarrow> nat \<Rightarrow> record_gate \<Rightarrow> (bytes \<times> record_gate) option" where
  "gate_read_exact 0 want g = (if want = 0 then Some ([], g) else None)"
| "gate_read_exact (Suc polls) want g =
     (if want = 0 then Some ([], g)
      else case gate_poll_read want g of
        (Ready (Inr d), g) \<Rightarrow>
          if d = [] then None
          else map_option (\<lambda>(rest, g). (d @ rest, g)) (gate_read_exact polls (want - length d) g)
      | (Ready (Inl e), g) \<Rightarrow> None
      | (Pending, g) \<Rightarrow> gate_read_exact polls want g)"

definition passes_through_before_gating :: bool where
  "passes_through_before_gating \<longleftrightarrow>
     (let gate = gate_new [Chunk (str ''anything at all''), Stall]
      in map_option fst (gate_read_exact 5 15 gate) = Some (str ''anything at all''))"

definition hands_one_record_then_closes :: bool where
  "hands_one_record_then_closes \<longleftrightarrow>
     (let r1 = test_record 0x17 (str ''first record'');
          r2 = test_record 0x17 (str ''second record'');
          raw_tail = str ''RAW BYTES NOT A RECORD'';
          gate = start_gating (gate_new [Chunk (r1 @ r2 @ raw_tail), Stall, Stall, Stall])
      in case gate_read_exact 5 (length r1) gate of
           None \<Rightarrow> False
         | Some (data, gate) \<Rightarrow>
             data = r1 \<and>
             (case gate_poll_read 1 gate of
                (Ready _, gate) \<Rightarrow> False
              | (Pending, gate) \<Rightarrow>
                  (case gate_read_exact 5 (length r2) (gate_do_open gate) of
                     None \<Rightarrow> False
                   | Some (data, gate) \<Rightarrow> data = r2 \<and> fst (take_buffered gate) = raw_tail)))"

definition stop_gating_passes_everything_through :: bool where
  "stop_gating_passes_everything_through \<longleftrightarrow>
     (let r1 = test_record 0x17 (str ''first record'');
          r2 = test_record 0x17 (str ''second record'');
          gate = start_gating (gate_new [Chunk (r1 @ r2 @ str ''tail''), Stall])
      in case gate_read_exact 5 (length r1) gate of
           None \<Rightarrow> False
         | Some (data, gate) \<Rightarrow>
             (case gate_read_exact 5 (length r2 + 4) (stop_gating gate) of
                None \<Rightarrow> False
              | Some (rest, gate) \<Rightarrow>
                  take (length r2) rest = r2 \<and> drop (length r2) rest = str ''tail''))"

definition stop_gating_mid_record_keeps_bytes :: bool where
  "stop_gating_mid_record_keeps_bytes \<longleftrightarrow>
     (let r1 = test_record 0x17 (str ''0123456789'');
          gate = start_gating (gate_new [Chunk (r1 @ str ''after''), Stall])
      in case gate_read_exact 5 7 gate of
           None \<Rightarrow> False
         | Some (front, gate) \<Rightarrow>
             (case gate_read_exact 5 (length r1 - 7 + 5) (stop_gating gate) of
                None \<Rightarrow> False
              | Some (rest, gate) \<Rightarrow>
                  take (length r1) (front @ rest) = r1 \<and> drop (length r1) (front @ rest) = str ''after''))"

definition reassembles_fragmented_record :: bool where
  "reassembles_fragmented_record \<longleftrightarrow>
     (let expect = test_record 0x17 (str ''fragmented record payload'');
          gate = start_gating (gate_new (map (\<lambda>b. Chunk [b]) expect))
      in map_option fst (gate_read_exact 40 (length expect) gate) = Some expect)"

text \<open>What one read does: while not gating, at an open gate, at a closed one, and inside a record.\<close>

lemma read_passing:
  "\<not> g_gating g \<Longrightarrow> g_buf g = [] \<Longrightarrow> g_src g = Chunk c # s \<Longrightarrow>
     gate_poll_read cap g = (Ready (Inr (take cap c)), g\<lparr>g_src := if length c \<le> cap then s else Chunk (drop cap c) # s\<rparr>)"
  "\<not> g_gating g \<Longrightarrow> g_buf g \<noteq> [] \<Longrightarrow>
     gate_poll_read cap g = (Ready (Inr (take cap (g_buf g))), g\<lparr>g_buf := drop cap (g_buf g)\<rparr>)"
  by (auto simp: gate_poll_read_def hand_over_def min_def)

lemma loop_fill:
  assumes "g_remaining g = 0" and "g_open g" and "length (g_buf g) < 5" and "g_src g = Chunk c # s"
    and "c \<noteq> []" and "length c \<le> 16384"
  shows "gate_loop cap g = gate_loop cap (g\<lparr>g_src := s, g_buf := g_buf g @ c\<rparr>)"
  using assms by (subst gate_loop.simps) (simp add: poll_fill_def tls_record_header_len_def)

lemma loop_record:
  assumes "g_remaining g = 0" and "g_open g" and "5 \<le> length (g_buf g)"
  shows "gate_loop cap g =
    (let rl = record_len (g_buf g); n = min (min rl (length (g_buf g))) cap in
     (Ready (Inr (take n (g_buf g))),
      g\<lparr>g_buf := drop n (g_buf g), g_remaining := rl - n, g_open := False\<rparr>))"
proof -
  have "0 < record_len (g_buf g)" "g_buf g \<noteq> []" using assms(3) by (auto simp: record_len_def)
  then show ?thesis
    using assms by (subst gate_loop.simps, subst gate_loop.simps)
      (simp add: hand_over_def tls_record_header_len_def Let_def min_def)
qed

lemma loop_inside:
  assumes "0 < g_remaining g" and "g_buf g = []" and "g_src g = Chunk c # s" and "c \<noteq> []" and "length c \<le> 16384"
  shows "gate_loop cap g =
    (let n = min (min (g_remaining g) (length c)) cap in
     (Ready (Inr (take n c)), g\<lparr>g_src := s, g_buf := drop n c, g_remaining := g_remaining g - n\<rparr>))"
  using assms by (subst gate_loop.simps) (simp add: poll_fill_def hand_over_def Let_def min_def)

lemma read_closed:
  "g_gating g \<Longrightarrow> g_remaining g = 0 \<Longrightarrow> \<not> g_open g \<Longrightarrow>
     gate_poll_read cap g = (Pending, g\<lparr>g_wakes := Suc (g_wakes g)\<rparr>)"
  by (subst gate_poll_read_def, subst gate_loop.simps) simp

text \<open>A read that brings all that is wanted is the only one.\<close>

lemma read_at_once:
  "gate_poll_read want g = (Ready (Inr d), g') \<Longrightarrow> length d = want \<Longrightarrow> d \<noteq> [] \<Longrightarrow> 0 < k \<Longrightarrow>
     gate_read_exact k want g = Some (d, g')"
  by (cases k; cases "k - 1") auto

lemma record_of:
  "length p < 65531 \<Longrightarrow> record_len (test_record k p @ rest) = length (test_record k p)"
  "length (test_record k p) = 5 + length p"
proof -
  obtain x y where xy: "u16_be (of_nat (length p)) = [x, y]" "be_u16 x y = of_nat (length p)"
    by (metis be_u16_u16_be u16_be_def)
  show "length (test_record k p) = 5 + length p" by (simp add: test_record_def)
  show "record_len (test_record k p @ rest) = length (test_record k p)" if "length p < 65531"
    using that by (simp add: record_len_def test_record_def xy)
qed

text \<open>From an open gate, with everything in the socket, one record comes out.\<close>

lemma first_record:
  assumes "length p < 65531" and "length (test_record k p @ rest) \<le> 16384" and "0 < want"
    and "want \<le> length (test_record k p)" and "0 < polls"
  shows "gate_read_exact polls want (start_gating (gate_new (Chunk (test_record k p @ rest) # s)))
    = Some (take want (test_record k p),
        \<lparr>g_src = s, g_buf = drop want (test_record k p) @ rest, g_gating = True,
         g_remaining = length (test_record k p) - want, g_open = False, g_wakes = 0\<rparr>)"
proof -
  let ?r = "test_record k p"
  let ?g = "start_gating (gate_new (Chunk (?r @ rest) # s))"
  have ne: "?r @ rest \<noteq> []" "5 \<le> length (?r @ rest)" by (simp_all add: test_record_def)
  have "gate_poll_read want ?g = gate_loop want (?g\<lparr>g_src := s, g_buf := ?r @ rest\<rparr>)"
    using loop_fill [of ?g "?r @ rest" s want] ne assms(2)
    by (simp add: gate_poll_read_def start_gating_def gate_new_def)
  also have "\<dots> = (Ready (Inr (take want ?r)), \<lparr>g_src = s, g_buf = drop want ?r @ rest, g_gating = True,
      g_remaining = length ?r - want, g_open = False, g_wakes = 0\<rparr>)"
    using ne assms(4) record_of(1) [OF assms(1), of k rest]
    by (subst loop_record) (simp_all add: start_gating_def gate_new_def Let_def min_absorb1 min_absorb2)
  finally show ?thesis
    using assms(3,4,5) by (intro read_at_once) (auto simp: record_of(2) test_record_def)
qed

lemma passes_through_before_gating: passes_through_before_gating
proof -
  let ?g = "gate_new [Chunk (str ''anything at all''), Stall]"
  have "gate_poll_read 15 ?g = (Ready (Inr (take 15 (str ''anything at all''))), ?g\<lparr>g_src := [Stall]\<rparr>)"
    using read_passing(1) [of ?g "str ''anything at all''" "[Stall]" 15] by (simp add: gate_new_def)
  then have "gate_read_exact 5 15 ?g = Some (take 15 (str ''anything at all''), ?g\<lparr>g_src := [Stall]\<rparr>)"
    by (rule read_at_once) simp_all
  then show ?thesis by (simp add: passes_through_before_gating_def del: str_Cons)
qed

lemma hands_one_record_then_closes: hands_one_record_then_closes
proof -
  let ?a = "str ''first record''" and ?b = "str ''second record''" and ?t = "str ''RAW BYTES NOT A RECORD''"
  let ?r1 = "test_record 0x17 ?a" and ?r2 = "test_record 0x17 ?b" and ?s = "[Stall, Stall, Stall]"
  define g1 where "g1 = \<lparr>g_src = ?s, g_buf = ?r2 @ ?t, g_gating = True, g_remaining = 0, g_open = False, g_wakes = 0\<rparr>"
  have 1: "gate_read_exact 5 (length ?r1) (start_gating (gate_new (Chunk (?r1 @ ?r2 @ ?t) # ?s))) = Some (?r1, g1)"
    by (subst first_record) (simp_all add: record_of(2) g1_def)
  have 2: "gate_poll_read 1 g1 = (Pending, g1\<lparr>g_wakes := 1\<rparr>)"
    by (subst read_closed) (simp_all add: g1_def)
  let ?g2 = "gate_do_open (g1\<lparr>g_wakes := 1\<rparr>)"
  have "gate_poll_read (length ?r2) ?g2 = (Ready (Inr ?r2), ?g2\<lparr>g_buf := ?t, g_open := False\<rparr>)"
    using loop_record [of ?g2 "length ?r2"] record_of(1) [of ?b "0x17" ?t]
    by (simp add: gate_poll_read_def gate_do_open_def g1_def Let_def record_of(2))
  then have 3: "gate_read_exact 5 (length ?r2) ?g2 = Some (?r2, ?g2\<lparr>g_buf := ?t, g_open := False\<rparr>)"
    by (rule read_at_once) (simp_all add: test_record_def)
  show ?thesis
    unfolding hands_one_record_then_closes_def Let_def 1 option.case prod.case 2 poll.case 3
    by (simp add: take_buffered_def)
qed

lemma stop_gating_passes_everything_through: stop_gating_passes_everything_through
proof -
  let ?a = "str ''first record''" and ?b = "str ''second record''" and ?t = "str ''tail''"
  let ?r1 = "test_record 0x17 ?a" and ?r2 = "test_record 0x17 ?b"
  define g1 where "g1 = \<lparr>g_src = [Stall], g_buf = ?r2 @ ?t, g_gating = True, g_remaining = 0, g_open = False, g_wakes = 0\<rparr>"
  have 1: "gate_read_exact 5 (length ?r1) (start_gating (gate_new [Chunk (?r1 @ ?r2 @ ?t), Stall])) = Some (?r1, g1)"
    by (subst first_record) (simp_all add: record_of(2) g1_def)
  let ?n = "length ?r2 + 4"
  have "length (?r2 @ ?t) = ?n" by simp
  then have "gate_poll_read ?n (stop_gating g1) = (Ready (Inr (?r2 @ ?t)), (stop_gating g1)\<lparr>g_buf := []\<rparr>)"
    using read_passing(2) [of "stop_gating g1" ?n] by (simp add: stop_gating_def g1_def test_record_def del: str_Cons)
  then have 2: "gate_read_exact 5 ?n (stop_gating g1) = Some (?r2 @ ?t, (stop_gating g1)\<lparr>g_buf := []\<rparr>)"
    by (rule read_at_once) simp_all
  show ?thesis
    unfolding stop_gating_passes_everything_through_def Let_def 1 option.case prod.case 2 by simp
qed

lemma stop_gating_mid_record_keeps_bytes: stop_gating_mid_record_keeps_bytes
proof -
  let ?a = "str ''0123456789''" and ?t = "str ''after''"
  let ?r1 = "test_record 0x17 ?a"
  define g1 where "g1 = \<lparr>g_src = [Stall], g_buf = drop 7 ?r1 @ ?t, g_gating = True, g_remaining = length ?r1 - 7,
    g_open = False, g_wakes = 0\<rparr>"
  have 1: "gate_read_exact 5 7 (start_gating (gate_new [Chunk (?r1 @ ?t), Stall])) = Some (take 7 ?r1, g1)"
    by (subst first_record) (simp_all add: record_of(2) g1_def)
  let ?n = "length ?r1 - 7 + 5"
  have l: "length (drop 7 ?r1 @ ?t) = ?n" by simp
  then have "drop 7 ?r1 @ ?t \<noteq> []" by force
  with l have "gate_poll_read ?n (stop_gating g1) = (Ready (Inr (drop 7 ?r1 @ ?t)), (stop_gating g1)\<lparr>g_buf := []\<rparr>)"
    using read_passing(2) [of "stop_gating g1" ?n] by (simp add: stop_gating_def g1_def del: str_Cons)
  then have 2: "gate_read_exact 5 ?n (stop_gating g1) = Some (drop 7 ?r1 @ ?t, (stop_gating g1)\<lparr>g_buf := []\<rparr>)"
    by (rule read_at_once) simp_all
  have "take 7 ?r1 @ drop 7 ?r1 @ ?t = ?r1 @ ?t" by (metis append_assoc append_take_drop_id)
  then show ?thesis
    unfolding stop_gating_mid_record_keeps_bytes_def Let_def 1 option.case prod.case 2 by simp
qed

text \<open>Inside a record, bytes that arrive one at a time are handed over one at a time.\<close>

lemma trickle:
  "g_gating g \<Longrightarrow> g_buf g = [] \<Longrightarrow> g_remaining g = length bs \<Longrightarrow> g_src g = map (\<lambda>b. Chunk [b]) bs \<Longrightarrow> length bs \<le> k \<Longrightarrow>
     map_option fst (gate_read_exact k (length bs) g) = Some bs"
proof (induction bs arbitrary: g k)
  case Nil
  then show ?case by (cases k) simp_all
next
  case (Cons b bs)
  then obtain k' where k: "k = Suc k'" by (cases k) auto
  let ?g = "g\<lparr>g_src := map (\<lambda>b. Chunk [b]) bs, g_remaining := length bs\<rparr>"
  have "gate_poll_read (length (b # bs)) g = (Ready (Inr [b]), ?g)"
    using loop_inside [of g "[b]" "map (\<lambda>b. Chunk [b]) bs" "length (b # bs)"] Cons.prems
    by (simp add: gate_poll_read_def Let_def)
  moreover have "map_option fst (gate_read_exact k' (length bs) ?g) = Some bs"
    using Cons.prems k by (intro Cons.IH) simp_all
  ultimately show ?case by (auto simp: k)
qed

lemma reassembles_fragmented_record: reassembles_fragmented_record
proof -
  let ?p = "str ''fragmented record payload''"
  let ?r = "test_record 0x17 ?p" and ?c = "\<lambda>b. Chunk [b]"
  have r: "?r = [0x17, 3, 3, 0, 25] @ ?p" by (simp add: test_record_def u16_be_def)
  have len: "length ?r = 30" by (simp add: record_of(2))
  let ?g0 = "start_gating (gate_new (map ?c ?r))"
  let ?g1 = "\<lparr>g_src = map ?c ?p, g_buf = [], g_gating = True, g_remaining = 25, g_open = False, g_wakes = 0\<rparr>"
  have "gate_poll_read 30 ?g0 = (Ready (Inr [0x17, 3, 3, 0, 25]), ?g1)"
    unfolding r
    by (simp add: gate_poll_read_def start_gating_def gate_new_def loop_fill loop_record record_len_def be_u16_def
        Let_def del: str_Cons)
  then have "gate_read_exact (Suc 39) 30 ?g0
      = map_option (\<lambda>(rest, g). ([0x17, 3, 3, 0, 25] @ rest, g)) (gate_read_exact 39 25 ?g1)"
    by (subst gate_read_exact.simps(2)) simp
  moreover have lp: "length ?p = 25" by simp
  have "map_option fst (gate_read_exact 39 25 ?g1) = Some ?p"
    using trickle [of ?g1 ?p 39] unfolding lp by (simp del: str_Cons)
  then obtain g2 where "gate_read_exact 39 25 ?g1 = Some (?p, g2)" by (auto simp del: str_Cons)
  ultimately have "map_option fst (gate_read_exact (Suc 39) 30 ?g0) = Some ?r" unfolding r by simp
  moreover have "Suc 39 = 40" by simp
  ultimately show ?thesis unfolding reassembles_fragmented_record_def Let_def len by metis
qed

end
