(* ===== verification/TestsStream.thy ===== *)
theory TestsStream
  imports TestsVision ConnRelay
begin

text \<open>
  The tests of \<^verbatim>\<open>VisionStream\<close> in \<^verbatim>\<open>src/outbound/vision.rs\<close>, over the duplex stream and
  over their test double \<^verbatim>\<open>SplitInner\<close>, which tells reads and writes through TLS from those
  below it. They hold for every generator of the padding.
\<close>

section \<open>The streams of the tests\<close>

text \<open>
  One end of a duplex stream of 64 KiB: what the peer has written, and room for what the test
  writes, which is never more.
\<close>

definition test_duplex :: "bytes list \<Rightarrow> duplex" where
  "test_duplex chunks =
     \<lparr>dx_in = map Chunk chunks, dx_out = \<lparr>wh_answers = replicate 9 (Accept 65536), wh_sent = [], wh_shut = False\<rparr>\<rparr>"

record split_inner =
  sp_tls :: duplex
  sp_raw :: duplex
  sp_gate_stopped :: bool

definition via_tls :: "(duplex \<Rightarrow> 'a \<times> duplex) \<Rightarrow> split_inner \<Rightarrow> 'a \<times> split_inner" where
  "via_tls f s = (case f (sp_tls s) of (r, d) \<Rightarrow> (r, s\<lparr>sp_tls := d\<rparr>))"

definition via_raw :: "(duplex \<Rightarrow> 'a \<times> duplex) \<Rightarrow> split_inner \<Rightarrow> 'a \<times> split_inner" where
  "via_raw f s = (case f (sp_raw s) of (r, d) \<Rightarrow> (r, s\<lparr>sp_raw := d\<rparr>))"

text \<open>\<^verbatim>\<open>open_record_gate\<close> and \<^verbatim>\<open>take_buffered_raw\<close> keep the defaults of the trait.\<close>

definition split_ops :: "split_inner stream_ops" where
  "split_ops =
     \<lparr>so_read = (\<lambda>cap. via_tls (duplex_read cap)), so_write = (\<lambda>d. via_tls (duplex_put (sock_write d))),
      so_flush = via_tls (duplex_put sock_flush), so_shutdown = via_tls (duplex_put sock_shutdown),
      so_open = (\<lambda>s. s), so_stop = (\<lambda>s. s\<lparr>sp_gate_stopped := True\<rparr>), so_take = Pair [],
      so_read_direct = (\<lambda>cap. via_raw (duplex_read cap)), so_write_direct = (\<lambda>d. via_raw (duplex_put (sock_write d))),
      so_flush_direct = via_raw (duplex_put sock_flush), so_shutdown_direct = via_raw (duplex_put sock_shutdown)\<rparr>"

interpretation split: direct_stream split_ops
proof
  fix cap d n and i :: split_inner
  show "length (got (fst (so_read split_ops cap i))) \<le> cap" "length (got (fst (so_read_direct split_ops cap i))) \<le> cap"
    using src_read_cap [of cap "dx_in (sp_tls i)"] src_read_cap [of cap "dx_in (sp_raw i)"]
    by (auto simp: split_ops_def via_tls_def via_raw_def duplex_read_def split: prod.splits)
  show "fst (so_write split_ops d i) = Ready (Inr n) \<Longrightarrow> n \<le> length d"
    "fst (so_write_direct split_ops d i) = Ready (Inr n) \<Longrightarrow> n \<le> length d"
    by (auto simp: split_ops_def via_tls_def via_raw_def duplex_put_def sock_write_def
        split: prod.splits list.splits wr_answer.splits)
qed

text \<open>
  \<^verbatim>\<open>read_exact\<close> with at most so many reads, and \<^verbatim>\<open>write_all\<close>, \<^verbatim>\<open>flush\<close> and \<^verbatim>\<open>shutdown\<close> that are
  ready at once: \<open>None\<close> otherwise.
\<close>

fun vs_read_exact :: "'i stream_ops \<Rightarrow> nat \<Rightarrow> nat \<Rightarrow> ('i, 'r) vision_over \<Rightarrow> (bytes \<times> ('i, 'r) vision_over) option" where
  "vs_read_exact S 0 want v = (if want = 0 then Some ([], v) else None)"
| "vs_read_exact S (Suc reads) want v =
     (if want = 0 then Some ([], v)
      else case read_on S want v of
        Some (Ready (Inr d), v) \<Rightarrow>
          if d = [] then None
          else map_option (\<lambda>(rest, v). (d @ rest, v)) (vs_read_exact S reads (want - length d) v)
      | _ \<Rightarrow> None)"

definition vs_write_all :: "'i stream_ops \<Rightarrow> 'r rng \<Rightarrow> bytes \<Rightarrow> ('i, 'r) vision_over \<Rightarrow> ('i, 'r) vision_over option" where
  "vs_write_all S rr b v =
     (case write_on S rr b v of
        (Ready (Inr n), v) \<Rightarrow> if n = length b then Some v else None
      | _ \<Rightarrow> None)"

definition vs_flush :: "'i stream_ops \<Rightarrow> ('i, 'r) vision_over \<Rightarrow> ('i, 'r) vision_over option" where
  "vs_flush S v = (case flush_on S v of (Ready (Inr _), v) \<Rightarrow> Some v | _ \<Rightarrow> None)"

definition vs_shutdown :: "'i stream_ops \<Rightarrow> ('i, 'r) vision_over \<Rightarrow> ('i, 'r) vision_over option" where
  "vs_shutdown S v = (case shutdown_on S v of (Ready (Inr _), v) \<Rightarrow> Some v | _ \<Rightarrow> None)"

definition on_inner :: "('i \<Rightarrow> 'i) \<Rightarrow> ('i, 'r) vision_over \<Rightarrow> ('i, 'r) vision_over" where
  "on_inner f v = v\<lparr>vs_inner := f (vs_inner v)\<rparr>"

text \<open>The peer of one end writes.\<close>

definition peer_writes :: "bytes \<Rightarrow> duplex \<Rightarrow> duplex" where
  "peer_writes b d = d\<lparr>dx_in := dx_in d @ [Chunk b]\<rparr>"

definition sent :: "duplex \<Rightarrow> bytes" where "sent d = wh_sent (dx_out d)"

section \<open>Reading\<close>

definition stream_read_unpads_then_passes_through :: "'r rng \<Rightarrow> 'r \<Rightarrow> bool" where
  "stream_read_unpads_then_passes_through rr r \<longleftrightarrow>
     (let (f1, r) = xtls_padding rr r (str ''hello'') cmd_padding_continue (Some test_uuid) False;
          (f2, r) = xtls_padding rr r (str ''world'') cmd_padding_end None False;
          vs = vision_new (test_duplex [f1 @ f2 @ str ''direct tail'']) test_uuid r
      in map_option fst (vs_read_exact duplex_ops 9 21 vs) = Some (str ''helloworlddirect tail''))"

definition stream_skips_response_header_with_addons :: "'r rng \<Rightarrow> 'r \<Rightarrow> bool" where
  "stream_skips_response_header_with_addons rr r \<longleftrightarrow>
     (let (f, r) = xtls_padding rr r (str ''payload'') cmd_padding_end (Some test_uuid) False;
          vs = vision_client (test_duplex [[0x00, 0x03, 0xAA, 0xBB, 0xCC] @ f]) test_uuid r
      in map_option fst (vs_read_exact duplex_ops 9 7 vs) = Some (str ''payload''))"

definition end_keeps_reading_through_tls :: "'r rng \<Rightarrow> 'r \<Rightarrow> bool" where
  "end_keeps_reading_through_tls rr r \<longleftrightarrow>
     (let (f, r) = xtls_padding rr r (str ''hello'') cmd_padding_end (Some test_uuid) False;
          vs = vision_new \<lparr>sp_tls = test_duplex [f], sp_raw = test_duplex [], sp_gate_stopped = False\<rparr> test_uuid r
      in case vs_read_exact split_ops 9 5 vs of
           None \<Rightarrow> False
         | Some (data, vs) \<Rightarrow>
             data = str ''hello'' \<and> \<not> is_direct (vs_unpadder vs) \<and>
             (let vs = on_inner (\<lambda>i. i\<lparr>sp_raw := peer_writes (str ''WRONG: raw socket bytes'') (sp_raw i),
                         sp_tls := peer_writes (str '' after end via tls'') (sp_tls i)\<rparr>) vs
              in map_option fst (vs_read_exact split_ops 9 18 vs) = Some (str '' after end via tls'')))"

definition end_stops_record_gating :: "'r rng \<Rightarrow> 'r \<Rightarrow> bool" where
  "end_stops_record_gating rr r \<longleftrightarrow>
     (let (f1, r) = xtls_padding rr r (str ''pad'') cmd_padding_continue (Some test_uuid) False;
          (f2, r) = xtls_padding rr r (str ''end'') cmd_padding_end None False;
          vs = vision_new \<lparr>sp_tls = test_duplex [f1], sp_raw = test_duplex [], sp_gate_stopped = False\<rparr> test_uuid r
      in case vs_read_exact split_ops 9 3 vs of
           None \<Rightarrow> False
         | Some (data, vs) \<Rightarrow>
             data = str ''pad'' \<and> \<not> sp_gate_stopped (vs_inner vs) \<and>
             (case vs_read_exact split_ops 9 3 (on_inner (\<lambda>i. i\<lparr>sp_tls := peer_writes f2 (sp_tls i)\<rparr>) vs) of
                None \<Rightarrow> False
              | Some (data, vs) \<Rightarrow> data = str ''end'' \<and> sp_gate_stopped (vs_inner vs)))"

definition direct_switches_to_raw_socket :: "'r rng \<Rightarrow> 'r \<Rightarrow> bool" where
  "direct_switches_to_raw_socket rr r \<longleftrightarrow>
     (let (f, r) = xtls_padding rr r (str ''hello'') cmd_padding_direct (Some test_uuid) False;
          vs = vision_new \<lparr>sp_tls = test_duplex [f], sp_raw = test_duplex [str '' raw tail''],
                           sp_gate_stopped = False\<rparr> test_uuid r
      in case vs_read_exact split_ops 9 14 vs of
           None \<Rightarrow> False
         | Some (data, vs) \<Rightarrow> data = str ''hello raw tail'' \<and> is_direct (vs_unpadder vs))"

text \<open>
  A read of the stream that brings frames: what they deframe to is handed out, and the stream
  below is told about the end of padding.
\<close>

lemma absorb_frames:
  assumes "feed (vs_header v) (vs_read_raw v @ d) = (Inr True, h, x)"
    and "unpad (vs_unpadder v) x [] = (Inr (), u, b, out)" and "out \<noteq> []"
    and "vs_read_out v = []" and "so_take S i = ([], i)" and "\<not> is_done (vs_unpadder v)" and "\<not> is_direct (vs_unpadder v)"
  shows "absorb_on S d (v\<lparr>vs_inner := i\<rparr>) = (None,
    v\<lparr>vs_header := h, vs_unpadder := u, vs_read_raw := b, vs_read_out := out,
      vs_traffic := traffic_filter (vs_traffic v) out,
      vs_inner := (if is_done u \<and> \<not> is_direct u then so_stop S i else i)\<rparr>)"
  using assms by (cases v) (simp add: absorb_on_def Let_def)

text \<open>The stream behind such a read of which \<open>n\<close> bytes were asked for.\<close>

definition behind_read ::
  "'i stream_ops \<Rightarrow> 'i \<Rightarrow> response_header \<Rightarrow> unpadder \<Rightarrow> bytes \<Rightarrow> bytes \<Rightarrow> nat \<Rightarrow> ('i, 'r) vision_over \<Rightarrow> ('i, 'r) vision_over" where
  "behind_read S i h u b out n v =
     v\<lparr>vs_header := h, vs_unpadder := u, vs_read_raw := b, vs_read_out := drop n out,
       vs_traffic := traffic_filter (vs_traffic v) out,
       vs_inner := (if is_done u \<and> \<not> is_direct u then so_stop S i else i)\<rparr>"

lemma behind_fields:
  "vs_read_out (behind_read S i h u b out n v) = drop n out" "vs_unpadder (behind_read S i h u b out n v) = u"
  "vs_read_raw (behind_read S i h u b out n v) = b" "vs_header (behind_read S i h u b out n v) = h"
  "vs_inner (behind_read S i h u b out n v) = (if is_done u \<and> \<not> is_direct u then so_stop S i else i)"
  "vs_traffic (behind_read S i h u b out n v) = traffic_filter (vs_traffic v) out"
  "vs_padder (behind_read S i h u b out n v) = vs_padder v" "vs_rng (behind_read S i h u b out n v) = vs_rng v"
  "vs_write_pending (behind_read S i h u b out n v) = vs_write_pending v"
  "vs_uplink_raw (behind_read S i h u b out n v) = vs_uplink_raw v"
  by (simp_all add: behind_read_def)

lemma read_frames:
  assumes "so_read S read_chunk (so_open S (vs_inner v)) = (Ready (Inr d), i)" and "d \<noteq> []"
    and "so_take S i = ([], i)" and "vs_read_out v = []"
    and "\<not> is_done (vs_unpadder v) \<and> \<not> is_direct (vs_unpadder v)"
    and "feed (vs_header v) (vs_read_raw v @ d) = (Inr True, h, x)"
    and "unpad (vs_unpadder v) x [] = (Inr (), u, b, out)" and "out \<noteq> []"
  shows "read_on S cap v = Some (Ready (Inr (take cap out)), behind_read S i h u b out cap v)"
proof -
  let ?w = "v\<lparr>vs_header := h, vs_unpadder := u, vs_read_raw := b, vs_read_out := out,
      vs_traffic := traffic_filter (vs_traffic v) out,
      vs_inner := (if is_done u \<and> \<not> is_direct u then so_stop S i else i)\<rparr>"
  have "absorb_on S d (v\<lparr>vs_inner := i\<rparr>) = (None, ?w)"
    by (rule absorb_frames [OF assms(6,7,8,4,3)]) (use assms(5) in auto)
  then have "read_on S cap v = read_on S cap ?w"
    using assms(1,2,4,5) by (subst read_on.simps) simp
  also have "\<dots> = Some (Ready (Inr (take cap out)), ?w\<lparr>vs_read_out := drop cap out\<rparr>)"
    using assms(8) by (subst read_on.simps) (simp add: Let_def min_def)
  finally show ?thesis by (simp add: behind_read_def)
qed

text \<open>Reads of the two streams, when the peer has written.\<close>

lemma test_reads:
  "dx_in s = Chunk d # cs \<Longrightarrow> length d \<le> 16384 \<Longrightarrow> so_read duplex_ops read_chunk (so_open duplex_ops s) = (Ready (Inr d), s\<lparr>dx_in := cs\<rparr>)"
  "dx_in (sp_tls i) = Chunk d # cs \<Longrightarrow> length d \<le> 16384 \<Longrightarrow>
     so_read split_ops read_chunk (so_open split_ops i) = (Ready (Inr d), i\<lparr>sp_tls := (sp_tls i)\<lparr>dx_in := cs\<rparr>\<rparr>)"
  "so_take duplex_ops s = ([], s)" "so_take split_ops i = ([], i)"
  "so_stop duplex_ops s = s" "so_stop split_ops i = i\<lparr>sp_gate_stopped := True\<rparr>"
  by (simp_all add: duplex_ops_def split_ops_def duplex_read_def via_tls_def read_chunk_def)

text \<open>What a test reads at once.\<close>

lemma read_exact_once:
  assumes "read_on S want v = Some (Ready (Inr d), v')" and "length d = want" and "0 < want" and "0 < k"
  shows "vs_read_exact S k want v = Some (d, v')"
proof -
  obtain l where k: "k = Suc l" using assms(4) by (cases k) auto
  have "vs_read_exact S l 0 v' = Some ([], v')" by (cases l) simp_all
  with assms k show ?thesis by auto
qed

text \<open>A read that is satisfied by the frames of one chunk, for either stream.\<close>

lemma frames_read_exact:
  assumes "so_read S read_chunk (so_open S (vs_inner v)) = (Ready (Inr d), i)" and "d \<noteq> []"
    and "so_take S i = ([], i)" and "vs_read_out v = []"
    and "\<not> is_done (vs_unpadder v) \<and> \<not> is_direct (vs_unpadder v)"
    and "feed (vs_header v) (vs_read_raw v @ d) = (Inr True, h, x)"
    and "unpad (vs_unpadder v) x [] = (Inr (), u, b, out)" and "out \<noteq> []" and "0 < k" and "length out = want"
  shows "vs_read_exact S k want v = Some (out, behind_read S i h u b out want v)"
proof -
  have "0 < want" using assms(8,10) by (cases out) auto
  with read_exact_once [OF read_frames [OF assms(1-8), of want], of k] assms(9,10) show ?thesis by simp
qed

lemma duplex_read_exact:
  assumes "dx_in (vs_inner v) = Chunk d # cs" and "length d \<le> 16384" and "d \<noteq> []" and "vs_read_out v = []"
    and "\<not> is_done (vs_unpadder v) \<and> \<not> is_direct (vs_unpadder v)"
    and "feed (vs_header v) (vs_read_raw v @ d) = (Inr True, h, x)"
    and "unpad (vs_unpadder v) x [] = (Inr (), u, b, out)" and "out \<noteq> []" and "0 < k" and "length out = want"
  shows "\<exists>v'. vs_read_exact duplex_ops k want v = Some (out, v')"
  using frames_read_exact [OF test_reads(1) [OF assms(1,2)] assms(3) test_reads(3) assms(4-10)] by blast

lemma split_read_exact:
  assumes "dx_in (sp_tls (vs_inner v)) = Chunk d # cs" and "length d \<le> 16384" and "d \<noteq> []" and "vs_read_out v = []"
    and "\<not> is_done (vs_unpadder v) \<and> \<not> is_direct (vs_unpadder v)"
    and "feed (vs_header v) (vs_read_raw v @ d) = (Inr True, h, x)"
    and "unpad (vs_unpadder v) x [] = (Inr (), u, b, out)" and "out \<noteq> []" and "0 < k" and "length out = want"
  obtains v' where "vs_read_exact split_ops k want v = Some (out, v')"
    "v' = behind_read split_ops ((vs_inner v)\<lparr>sp_tls := (sp_tls (vs_inner v))\<lparr>dx_in := cs\<rparr>\<rparr>) h u b out want v"
  using frames_read_exact [OF test_reads(2) [OF assms(1,2)] assms(3) test_reads(4) assms(4-10)] by blast

lemma new_stream:
  "vs_inner (vision_new i uuid r) = i" "vs_read_out (vision_new i uuid r) = []" "vs_read_raw (vision_new i uuid r) = []"
  "vs_unpadder (vision_new i uuid r) = unpadder_new" "vs_header (vision_new i uuid r) = already_consumed"
  "vs_inner (vision_client i uuid r) = i" "vs_read_out (vision_client i uuid r) = []" "vs_read_raw (vision_client i uuid r) = []"
  "vs_unpadder (vision_client i uuid r) = unpadder_new" "vs_header (vision_client i uuid r) = response_header_new"
  "\<not> is_done unpadder_new \<and> \<not> is_direct unpadder_new"
  by (simp_all add: vision_new_def vision_client_def unpadder_new_def is_done_def is_direct_def)

lemma test_frame:
  assumes "rng_ok rr" and "length d \<le> 8171" and "\<And>i. u = Some i \<Longrightarrow> length i = 16"
  obtains n r' where "xtls_padding rr r d c u l = (frame_bytes d c n u, r')" "n < 65536"
    "length (frame_bytes d c n u) \<le> length d + 1421" "frame_bytes d c n u \<noteq> []"
proof -
  obtain n r' where n: "xtls_padding_into rr r [] d c u l = ([] @ frame_bytes d c n u, r')" "n < 65536"
    "(n, r') = padding_len rr r (length d) l" by (rule framed)
  have "fst (rr r 500) < 500" "fst (rr r 256) < 256" using assms(1) by (simp_all add: rng_ok_def)
  then have "n \<le> 1400"
    using n(3) by (auto simp: padding_len_def const_defs Let_def split: prod.splits if_splits)
  moreover have "length (case u of Some i \<Rightarrow> i | None \<Rightarrow> []) \<le> 16" using assms(3) by (cases u) auto
  ultimately have "length (frame_bytes d c n u) \<le> length d + 1421" by (simp add: frame_bytes_def)
  moreover have "frame_bytes d c n u \<noteq> []" by (simp add: frame_bytes_def)
  ultimately show thesis using n that by (simp add: xtls_padding_def)
qed

lemma done_header: "feed already_consumed b = (Inr True, already_consumed, b)"
  by (simp add: feed_def already_consumed_def)

text \<open>The unpadder behind a first frame with the UUID, and behind one more.\<close>

lemma first_unpad:
  assumes "length d < 65536" and "n < 65536" and "c \<in> {0, 1, 2}"
  shows "unpad unpadder_new (frame_bytes d c n (Some test_uuid) @ w) [] = unpad (after_command unpadder_new c) w d"
  using unpad_one(1) [OF assms(1,2) _ assms(3), of unpadder_new "Some test_uuid" w "[]"]
  by (simp add: unpadder_new_def uuid16)

lemma stream_read_unpads_then_passes_through:
  assumes rng: "rng_ok rr"
  shows "stream_read_unpads_then_passes_through rr r"
proof -
  let ?a = "str ''hello''" and ?b = "str ''world''" and ?t = "str ''direct tail''"
  obtain n r1 where f: "xtls_padding rr r ?a cmd_padding_continue (Some test_uuid) False
      = (frame_bytes ?a cmd_padding_continue n (Some test_uuid), r1)" "n < 65536"
    "length (frame_bytes ?a cmd_padding_continue n (Some test_uuid)) \<le> length ?a + 1421"
    "frame_bytes ?a cmd_padding_continue n (Some test_uuid) \<noteq> []"
    by (rule test_frame [OF rng, of ?a "Some test_uuid" r cmd_padding_continue False]) (auto simp: uuid16)
  obtain m r2 where g: "xtls_padding rr r1 ?b cmd_padding_end None False = (frame_bytes ?b cmd_padding_end m None, r2)"
    "m < 65536" "length (frame_bytes ?b cmd_padding_end m None) \<le> length ?b + 1421"
    by (rule test_frame [OF rng, of ?b None r1 cmd_padding_end False]) auto
  let ?w = "frame_bytes ?a cmd_padding_continue n (Some test_uuid) @ frame_bytes ?b cmd_padding_end m None @ ?t"
  let ?vs = "vision_new (test_duplex [?w]) test_uuid r2"
  let ?u = "after_command (after_command unpadder_new cmd_padding_continue) cmd_padding_end"
  have "unpad unpadder_new ?w [] = unpad (after_command unpadder_new cmd_padding_continue) (frame_bytes ?b cmd_padding_end m None @ ?t) ?a"
    by (rule first_unpad) (simp_all add: f(2) cmd_padding_continue_def)
  also have "\<dots> = unpad ?u ?t (?a @ ?b)"
    by (rule unpad_one(1)) (simp_all add: g(2) after_command_def cmd_padding_continue_def cmd_padding_end_def)
  also have "\<dots> = (Inr (), ?u, [], str ''helloworlddirect tail'')"
    by (simp add: unpad_done after_command_def cmd_padding_end_def)
  finally have un: "unpad unpadder_new ?w [] = (Inr (), ?u, [], str ''helloworlddirect tail'')" .
  have "length ?w \<le> 16384" using f(3) g(3) by simp
  then have "\<exists>v'. vs_read_exact duplex_ops 9 21 ?vs = Some (str ''helloworlddirect tail'', v')"
    using f(4) un
    by (intro duplex_read_exact [where d = ?w and cs = "[]" and h = already_consumed and x = ?w])
      (simp_all add: new_stream test_duplex_def done_header)
  then show ?thesis
    by (auto simp: stream_read_unpads_then_passes_through_def f(1) g(1) simp del: str_Cons)
qed

lemma stream_skips_response_header_with_addons:
  assumes rng: "rng_ok rr"
  shows "stream_skips_response_header_with_addons rr r"
proof -
  let ?a = "str ''payload''"
  obtain n r1 where f: "xtls_padding rr r ?a cmd_padding_end (Some test_uuid) False
      = (frame_bytes ?a cmd_padding_end n (Some test_uuid), r1)" "n < 65536"
    "length (frame_bytes ?a cmd_padding_end n (Some test_uuid)) \<le> length ?a + 1421"
    by (rule test_frame [OF rng, of ?a "Some test_uuid" r cmd_padding_end False]) (auto simp: uuid16)
  let ?f = "frame_bytes ?a cmd_padding_end n (Some test_uuid)"
  let ?w = "[0x00, 0x03, 0xAA, 0xBB, 0xCC] @ ?f"
  let ?vs = "vision_client (test_duplex [?w]) test_uuid r1"
  let ?u = "after_command unpadder_new cmd_padding_end"
  have "unpad unpadder_new ?f [] = unpad ?u [] ?a"
    using first_unpad [of ?a n cmd_padding_end "[]"] f(2) by (simp add: cmd_padding_end_def)
  then have un: "unpad unpadder_new ?f [] = (Inr (), ?u, [], ?a)" by (simp add: unpad_empty)
  have fd: "feed response_header_new ?w = (Inr True, response_header_new\<lparr>rh_done := True\<rparr>, ?f)"
    by (simp add: feed_def response_header_new_def const_defs Let_def del: str_Cons)
  have "length ?w \<le> 16384" using f(3) by simp
  then have "\<exists>v'. vs_read_exact duplex_ops 9 7 ?vs = Some (?a, v')"
    using fd un
    by (intro duplex_read_exact [where d = ?w and cs = "[]" and h = "response_header_new\<lparr>rh_done := True\<rparr>" and x = ?f])
      (simp_all add: new_stream test_duplex_def)
  then show ?thesis
    by (auto simp: stream_skips_response_header_with_addons_def f(1) simp del: str_Cons append.simps)
qed

text \<open>Behind the end of padding a read goes through TLS, behind the switch it goes below.\<close>

lemma read_after_end:
  assumes "is_done (vs_unpadder v)" and "\<not> is_direct (vs_unpadder v)" and "vs_read_raw v = []" and "vs_read_out v = []"
    and "dx_in (sp_tls (vs_inner v)) = Chunk d # cs" and "0 < length d" and "length d = want" and "0 < k"
  shows "map_option fst (vs_read_exact split_ops k want v) = Some d"
proof -
  have "so_read split_ops want (vs_inner v) = (Ready (Inr d), (vs_inner v)\<lparr>sp_tls := (sp_tls (vs_inner v))\<lparr>dx_in := cs\<rparr>\<rparr>)"
    using assms(5,7) by (simp add: split_ops_def via_tls_def duplex_read_def)
  then have "\<exists>v'. read_on split_ops want v = Some (Ready (Inr d), v')"
    using assms(1-4) by (subst read_on.simps) simp
  then show ?thesis using read_exact_once [of split_ops want v d _ k] assms(6-8) by auto
qed

lemma read_below:
  assumes "is_direct (vs_unpadder v)" and "vs_read_out v = []"
    and "dx_in (sp_raw (vs_inner v)) = Chunk d # cs" and "0 < length d" and "length d = want" and "0 < k"
  shows "\<exists>v'. vs_read_exact split_ops k want v = Some (d, v') \<and> vs_unpadder v' = vs_unpadder v"
proof -
  have "so_read_direct split_ops want (vs_inner v) = (Ready (Inr d), (vs_inner v)\<lparr>sp_raw := (sp_raw (vs_inner v))\<lparr>dx_in := cs\<rparr>\<rparr>)"
    using assms(3,5) by (simp add: split_ops_def via_raw_def duplex_read_def)
  then have "\<exists>v'. read_on split_ops want v = Some (Ready (Inr d), v') \<and> vs_unpadder v' = vs_unpadder v"
    using assms(1,2) by (subst read_on.simps) simp
  then show ?thesis using read_exact_once [of split_ops want v d _ k] assms(4-6) by blast
qed

lemma test_split_frame:
  assumes "rng_ok rr" and "length d \<le> 8171" and "0 < length d" and "c \<in> {0, 1, 2}"
  obtains n r' where
    "xtls_padding rr r d c (Some test_uuid) l = (frame_bytes d c n (Some test_uuid), r')"
    "length (frame_bytes d c n (Some test_uuid)) \<le> 16384" "frame_bytes d c n (Some test_uuid) \<noteq> []"
    "unpad unpadder_new (frame_bytes d c n (Some test_uuid)) [] = (Inr (), after_command unpadder_new c, [], d)"
proof -
  obtain n r' where f: "xtls_padding rr r d c (Some test_uuid) l = (frame_bytes d c n (Some test_uuid), r')" "n < 65536"
    "length (frame_bytes d c n (Some test_uuid)) \<le> length d + 1421" "frame_bytes d c n (Some test_uuid) \<noteq> []"
    by (rule test_frame [OF assms(1,2), of "Some test_uuid" r c l]) (auto simp: uuid16)
  have "unpad unpadder_new (frame_bytes d c n (Some test_uuid)) [] = (Inr (), after_command unpadder_new c, [], d)"
    using first_unpad [of d n c "[]"] f(2) assms(2,4) by (simp add: unpad_empty)
  with f assms(2) that show thesis by simp
qed

lemma end_keeps_reading_through_tls:
  assumes rng: "rng_ok rr"
  shows "end_keeps_reading_through_tls rr r"
proof -
  let ?a = "str ''hello''" and ?b = "str '' after end via tls''" and ?u = "after_command unpadder_new cmd_padding_end"
  obtain n r1 where f: "xtls_padding rr r ?a cmd_padding_end (Some test_uuid) False
      = (frame_bytes ?a cmd_padding_end n (Some test_uuid), r1)"
    "length (frame_bytes ?a cmd_padding_end n (Some test_uuid)) \<le> 16384" "frame_bytes ?a cmd_padding_end n (Some test_uuid) \<noteq> []"
    "unpad unpadder_new (frame_bytes ?a cmd_padding_end n (Some test_uuid)) [] = (Inr (), ?u, [], ?a)"
    by (rule test_split_frame [OF rng, of ?a cmd_padding_end r False]) (simp_all add: cmd_padding_end_def)
  let ?f = "frame_bytes ?a cmd_padding_end n (Some test_uuid)"
  let ?i = "\<lparr>sp_tls = test_duplex [?f], sp_raw = test_duplex [], sp_gate_stopped = False\<rparr>"
  have u: "is_done ?u" "\<not> is_direct ?u"
    by (simp_all add: after_command_def is_done_def is_direct_def cmd_padding_end_def unpadder_new_def)
  obtain v1 where v: "vs_read_exact split_ops 9 5 (vision_new ?i test_uuid r1) = Some (?a, v1)"
    "v1 = behind_read split_ops (?i\<lparr>sp_tls := (sp_tls ?i)\<lparr>dx_in := []\<rparr>\<rparr>) already_consumed ?u [] ?a 5 (vision_new ?i test_uuid r1)"
    by (rule split_read_exact [where d = ?f and cs = "[]" and v = "vision_new ?i test_uuid r1" and k = 9 and want = 5
          and h = already_consumed and x = ?f and u = ?u and b = "[]" and out = ?a])
      (use f(2-4) u in \<open>simp_all add: new_stream test_duplex_def done_header\<close>)
  have v1: "vs_read_out v1 = []" "vs_unpadder v1 = ?u" "vs_read_raw v1 = []" "dx_in (sp_tls (vs_inner v1)) = []"
    using u by (simp_all add: v(2) behind_fields test_reads)
  let ?v2 = "on_inner (\<lambda>i. i\<lparr>sp_raw := peer_writes (str ''WRONG: raw socket bytes'') (sp_raw i),
      sp_tls := peer_writes ?b (sp_tls i)\<rparr>) v1"
  have "map_option fst (vs_read_exact split_ops 9 18 ?v2) = Some ?b"
    by (rule read_after_end [where cs = "[]"]) (use v1 u in \<open>simp_all add: on_inner_def peer_writes_def\<close>)
  then show ?thesis
    unfolding end_keeps_reading_through_tls_def f(1) Let_def prod.case v(1) option.case using v1(2) u by simp
qed

lemma end_stops_record_gating:
  assumes rng: "rng_ok rr"
  shows "end_stops_record_gating rr r"
proof -
  let ?a = "str ''pad''" and ?b = "str ''end''"
  let ?u = "after_command unpadder_new cmd_padding_continue" and ?w = "after_command (after_command unpadder_new cmd_padding_continue) cmd_padding_end"
  obtain n r1 where f: "xtls_padding rr r ?a cmd_padding_continue (Some test_uuid) False
      = (frame_bytes ?a cmd_padding_continue n (Some test_uuid), r1)"
    "length (frame_bytes ?a cmd_padding_continue n (Some test_uuid)) \<le> 16384" "frame_bytes ?a cmd_padding_continue n (Some test_uuid) \<noteq> []"
    "unpad unpadder_new (frame_bytes ?a cmd_padding_continue n (Some test_uuid)) [] = (Inr (), ?u, [], ?a)"
    by (rule test_split_frame [OF rng, of ?a cmd_padding_continue r False]) (simp_all add: cmd_padding_continue_def)
  obtain m r2 where g: "xtls_padding rr r1 ?b cmd_padding_end None False = (frame_bytes ?b cmd_padding_end m None, r2)"
    "m < 65536" "length (frame_bytes ?b cmd_padding_end m None) \<le> length ?b + 1421" "frame_bytes ?b cmd_padding_end m None \<noteq> []"
    by (rule test_frame [OF rng, of ?b None r1 cmd_padding_end False]) auto
  let ?f = "frame_bytes ?a cmd_padding_continue n (Some test_uuid)" and ?g = "frame_bytes ?b cmd_padding_end m None"
  have ung: "unpad ?u ?g [] = (Inr (), ?w, [], ?b)"
    using unpad_one(2) [of ?b m ?u cmd_padding_end None "[]"] g(2)
    by (simp add: after_command_def cmd_padding_continue_def cmd_padding_end_def)
  have u: "\<not> is_done ?u" "\<not> is_direct ?u" "is_done ?w" "\<not> is_direct ?w"
    by (simp_all add: after_command_def is_done_def is_direct_def cmd_padding_end_def cmd_padding_continue_def unpadder_new_def)
  let ?i = "\<lparr>sp_tls = test_duplex [?f], sp_raw = test_duplex [], sp_gate_stopped = False\<rparr>"
  obtain v1 where v: "vs_read_exact split_ops 9 3 (vision_new ?i test_uuid r2) = Some (?a, v1)"
    "v1 = behind_read split_ops (?i\<lparr>sp_tls := (sp_tls ?i)\<lparr>dx_in := []\<rparr>\<rparr>) already_consumed ?u [] ?a 3 (vision_new ?i test_uuid r2)"
    by (rule split_read_exact [where d = ?f and cs = "[]" and v = "vision_new ?i test_uuid r2" and k = 9 and want = 3
          and h = already_consumed and x = ?f and u = ?u and b = "[]" and out = ?a])
      (use f(2-4) u in \<open>simp_all add: new_stream test_duplex_def done_header\<close>)
  have v1: "vs_read_out v1 = []" "vs_unpadder v1 = ?u" "vs_read_raw v1 = []" "vs_header v1 = already_consumed"
    "dx_in (sp_tls (vs_inner v1)) = []" "\<not> sp_gate_stopped (vs_inner v1)"
    using u by (simp_all add: v(2) behind_fields)
  let ?v2 = "on_inner (\<lambda>i. i\<lparr>sp_tls := peer_writes ?g (sp_tls i)\<rparr>) v1"
  obtain v3 where v3: "vs_read_exact split_ops 9 3 ?v2 = Some (?b, v3)"
    "v3 = behind_read split_ops ((vs_inner ?v2)\<lparr>sp_tls := (sp_tls (vs_inner ?v2))\<lparr>dx_in := []\<rparr>\<rparr>) already_consumed ?w [] ?b 3 ?v2"
    by (rule split_read_exact [where d = ?g and cs = "[]" and v = ?v2 and k = 9 and want = 3
          and h = already_consumed and x = ?g and u = ?w and b = "[]" and out = ?b])
      (use v1 u g(3,4) ung in \<open>simp_all add: on_inner_def peer_writes_def done_header\<close>)
  have "sp_gate_stopped (vs_inner v3)" using u by (simp add: v3(2) behind_fields test_reads)
  then show ?thesis
    unfolding end_stops_record_gating_def f(1) g(1) Let_def prod.case v(1) option.case v3(1) using v1(6) by simp
qed

lemma direct_switches_to_raw_socket:
  assumes rng: "rng_ok rr"
  shows "direct_switches_to_raw_socket rr r"
proof -
  let ?a = "str ''hello''" and ?b = "str '' raw tail''" and ?u = "after_command unpadder_new cmd_padding_direct"
  obtain n r1 where f: "xtls_padding rr r ?a cmd_padding_direct (Some test_uuid) False
      = (frame_bytes ?a cmd_padding_direct n (Some test_uuid), r1)"
    "length (frame_bytes ?a cmd_padding_direct n (Some test_uuid)) \<le> 16384" "frame_bytes ?a cmd_padding_direct n (Some test_uuid) \<noteq> []"
    "unpad unpadder_new (frame_bytes ?a cmd_padding_direct n (Some test_uuid)) [] = (Inr (), ?u, [], ?a)"
    by (rule test_split_frame [OF rng, of ?a cmd_padding_direct r False]) (simp_all add: cmd_padding_direct_def)
  let ?f = "frame_bytes ?a cmd_padding_direct n (Some test_uuid)"
  let ?i = "\<lparr>sp_tls = test_duplex [?f], sp_raw = test_duplex [?b], sp_gate_stopped = False\<rparr>"
  let ?vs = "vision_new ?i test_uuid r1"
  have u: "is_direct ?u" by (simp add: after_command_def is_direct_def cmd_padding_direct_def)
  have "dx_in (sp_tls (vs_inner ?vs)) = [Chunk ?f]" by (simp add: new_stream test_duplex_def)
  note rd = test_reads(2) [OF this f(2)]
  let ?i1 = "?i\<lparr>sp_tls := (sp_tls ?i)\<lparr>dx_in := []\<rparr>\<rparr>"
  define v1 where "v1 = behind_read split_ops ?i1 already_consumed ?u [] ?a 14 ?vs"
  have "read_on split_ops 14 ?vs = Some (Ready (Inr (take 14 ?a)), v1)"
    unfolding v1_def
    by (rule read_frames [where d = ?f and x = ?f])
      (use rd f(3,4) in \<open>simp_all add: new_stream done_header test_reads\<close>)
  then have v1: "read_on split_ops 14 ?vs = Some (Ready (Inr ?a), v1)" "vs_read_out v1 = []" "vs_unpadder v1 = ?u"
    "dx_in (sp_raw (vs_inner v1)) = [Chunk ?b]"
    using u by (simp_all add: v1_def behind_fields test_duplex_def)
  obtain v2 where v2: "vs_read_exact split_ops 8 9 v1 = Some (?b, v2)" "vs_unpadder v2 = ?u"
    using read_below [of v1 ?b "[]" 9 8] v1 u by auto
  have "vs_read_exact split_ops (Suc 8) 14 ?vs = Some (?a @ ?b, v2)"
    by (subst vs_read_exact.simps(2)) (use v1(1) v2(1) in simp)
  then have "vs_read_exact split_ops 9 14 ?vs = Some (str ''hello raw tail'', v2)" by simp
  then show ?thesis
    unfolding direct_switches_to_raw_socket_def f(1) Let_def prod.case option.case using v2(2) u by simp
qed

section \<open>Writing\<close>

definition stream_write_is_unpaddable :: "'r rng \<Rightarrow> 'r \<Rightarrow> bool" where
  "stream_write_is_unpaddable rr r \<longleftrightarrow>
     (let vs = vision_new (test_duplex []) test_uuid r in
      case Option.bind (vs_write_all duplex_ops rr (str ''first'') vs) (\<lambda>vs.
           Option.bind (vs_write_all duplex_ops rr (str ''second'') vs) (\<lambda>vs. vs_flush duplex_ops vs)) of
        None \<Rightarrow> False
      | Some vs \<Rightarrow> map_option snd (unpad_all (take 8192 (sent (vs_inner vs)))) = Some (str ''firstsecond''))"

definition stream_strips_vless_response_header_lazily :: "'r rng \<Rightarrow> 'r \<Rightarrow> bool" where
  "stream_strips_vless_response_header_lazily rr r \<longleftrightarrow>
     (let vs = vision_client (test_duplex []) test_uuid r in
      case Option.bind (vs_write_all duplex_ops rr (str ''uplink first'') vs) (\<lambda>vs. vs_flush duplex_ops vs) of
        None \<Rightarrow> False
      | Some vs \<Rightarrow>
          0 < length (take 4096 (sent (vs_inner vs))) \<and>
          (let (f, r) = xtls_padding rr (vs_rng vs) (str ''downlink'') cmd_padding_end (Some test_uuid) False;
               vs = on_inner (peer_writes ([0x00, 0x00] @ f)) (vs\<lparr>vs_rng := r\<rparr>)
           in map_option fst (vs_read_exact duplex_ops 9 8 vs) = Some (str ''downlink'')))"

definition first_write_merges_header_and_payload :: "'r rng \<Rightarrow> 'r \<Rightarrow> bool" where
  "first_write_merges_header_and_payload rr r \<longleftrightarrow>
     (let vs = vision_client (test_duplex []) test_uuid r in
      case write_first_on duplex_ops rr (str ''HDR'') (str ''client hello'') vs of
        Some (Inr _, vs) \<Rightarrow>
          (case Option.bind (vs_write_all duplex_ops rr (str '' and more'') vs) (\<lambda>vs. vs_flush duplex_ops vs) of
             None \<Rightarrow> False
           | Some vs \<Rightarrow>
               let raw = take 8192 (sent (vs_inner vs)) in
               take 3 raw = str ''HDR'' \<and> map_option snd (unpad_all (drop 3 raw)) = Some (str ''client hello and more''))
      | _ \<Rightarrow> False)"

definition first_write_without_payload_sends_camouflage :: "'r rng \<Rightarrow> 'r \<Rightarrow> bool" where
  "first_write_without_payload_sends_camouflage rr r \<longleftrightarrow>
     (let vs = vision_client (test_duplex []) test_uuid r in
      case write_first_on duplex_ops rr (str ''HDR'') [] vs of
        Some (Inr _, vs) \<Rightarrow>
          let raw = take 8192 (sent (vs_inner vs)) in
          take 3 raw = str ''HDR'' \<and> slice 3 (3 + uuid_len) raw = test_uuid \<and>
          raw ! (3 + uuid_len) = cmd_padding_continue \<and> map_option snd (unpad_all (drop 3 raw)) = Some [] \<and>
          (case Option.bind (vs_write_all duplex_ops rr (str ''later'') vs) (\<lambda>vs. vs_flush duplex_ops vs) of
             None \<Rightarrow> False
           | Some vs \<Rightarrow> map_option snd (unpad_all (drop 3 (take 8192 (sent (vs_inner vs))))) = Some (str ''later''))
      | _ \<Rightarrow> False)"

definition first_payload_feeds_tls_sniffing :: "'r rng \<Rightarrow> 'r \<Rightarrow> bool" where
  "first_payload_feeds_tls_sniffing rr r \<longleftrightarrow>
     (let vs = vision_client (test_duplex []) test_uuid r in
      case write_first_on duplex_ops rr (str ''HDR'') test_client_hello vs of
        Some (Inr _, vs) \<Rightarrow>
          is_tls (vs_traffic vs) \<and>
          (case vs_write_all duplex_ops rr test_app_data vs of
             None \<Rightarrow> False | Some vs \<Rightarrow> padding_done (vs_padder vs))
      | _ \<Rightarrow> False)"

text \<open>A stream that takes what it is given: a write of the Vision stream sends its frames at once.\<close>

lemma drain_whole:
  assumes "so_write S (vs_write_pending v) (vs_inner v) = (Ready (Inr (length (vs_write_pending v))), i)"
    and "vs_write_pending v \<noteq> []"
  shows "drain_on S v = (Ready (Inr ()), v\<lparr>vs_inner := i, vs_write_pending := []\<rparr>)"
  using assms by (subst drain_on.simps) (simp add: drain_on.simps)

lemma write_whole:
  assumes "vs_write_pending v = []" and "pd_padding (vs_padder v)" and "\<not> wants_direct (vs_padder v)"
    and "pad rr (vs_rng v) (vs_padder v) b (vs_traffic v) = (out, p, ts, r)" and "out \<noteq> []" and "\<not> wants_direct p"
    and "so_write S out (vs_inner v) = (Ready (Inr (length out)), i)"
  shows "vs_write_all S rr b v = Some (v\<lparr>vs_padder := p, vs_traffic := ts, vs_rng := r, vs_inner := i\<rparr>)"
proof -
  let ?w = "v\<lparr>vs_padder := p, vs_traffic := ts, vs_write_pending := out, vs_rng := r\<rparr>"
  have p: "pad_into rr (vs_rng v) (vs_padder v) b (vs_traffic v) [] = (p, ts, out, r)"
    using assms(4) by (auto simp: pad_def Let_def split: prod.splits)
  have "settle_on S v = (Ready (Inr ()), v)"
    using assms(1,3) by (simp add: settle_on_def drain_on.simps)
  moreover have "settle_on S ?w = (Ready (Inr ()), ?w\<lparr>vs_inner := i, vs_write_pending := []\<rparr>)"
    using drain_whole [of S ?w i] assms(5-7) by (simp add: settle_on_def)
  ultimately show ?thesis
    using assms(1,2) p by (cases v) (simp add: vs_write_all_def write_on_def padding_done_def Let_def)
qed

lemma flush_whole:
  assumes "vs_write_pending v = []" and "\<not> wants_direct (vs_padder v)" and "\<not> vs_uplink_raw v"
    and "so_flush S (vs_inner v) = (Ready (Inr ()), i)"
  shows "vs_flush S v = Some (v\<lparr>vs_inner := i\<rparr>)"
  using assms by (simp add: vs_flush_def flush_on_def settle_on_def drain_on.simps)

text \<open>A duplex stream with room for so many more calls.\<close>

definition roomy :: "nat \<Rightarrow> bytes \<Rightarrow> duplex \<Rightarrow> bool" where
  "roomy k b d \<longleftrightarrow> wh_answers (dx_out d) = replicate k (Accept 65536) \<and> wh_sent (dx_out d) = b \<and> \<not> wh_shut (dx_out d)"

lemma roomy_start: "roomy 9 [] (test_duplex cs)"
  by (simp add: roomy_def test_duplex_def)

lemma roomy_write:
  assumes "roomy (Suc k) b d" and "length x \<le> 65536"
  shows "\<exists>d'. duplex_put (sock_write x) d = (Ready (Inr (length x)), d') \<and> roomy k (b @ x) d' \<and> dx_in d' = dx_in d"
  using assms by (simp add: duplex_put_def sock_write_def roomy_def min_def)

lemma roomy_flush:
  assumes "roomy (Suc k) b d"
  shows "\<exists>d'. duplex_put sock_flush d = (Ready (Inr ()), d') \<and> roomy k b d' \<and> dx_in d' = dx_in d"
  using assms by (simp add: duplex_put_def sock_flush_def roomy_def)

lemma frame_short:
  assumes "rng_ok rr" and "(n, r') = padding_len rr r c l" and "\<And>i. u = Some i \<Longrightarrow> length i = 16"
  shows "length (frame_bytes d x n u) \<le> length d + 1421" and "n < 65536"
proof -
  have "fst (rr r 500) < 500" "fst (rr r 256) < 256" using assms(1) by (simp_all add: rng_ok_def)
  then have "n \<le> 1400"
    using assms(2) by (auto simp: padding_len_def const_defs Let_def split: prod.splits if_splits)
  moreover have "length (case u of Some i \<Rightarrow> i | None \<Rightarrow> []) \<le> 16" using assms(3) by (cases u) auto
  ultimately show "length (frame_bytes d x n u) \<le> length d + 1421" "n < 65536" by (simp_all add: frame_bytes_def)
qed

text \<open>The write side of a test: what it has sent, and room for \<open>k\<close> more calls.\<close>

definition sends_now :: "nat \<Rightarrow> bytes \<Rightarrow> (duplex, 'r) vision_over \<Rightarrow> bool" where
  "sends_now k b v \<longleftrightarrow> vs_write_pending v = [] \<and> \<not> vs_uplink_raw v \<and> pd_padding (vs_padder v) \<and>
     \<not> wants_direct (vs_padder v) \<and> roomy k b (vs_inner v)"

lemma plain_up:
  assumes "rng_ok rr" and "sends_now (Suc k) b v" and "vs_traffic v = plain j" and "2 < j" and "length d < 8171"
    and "take 1 d \<noteq> [0x16]" and "\<And>i. pd_uuid (vs_padder v) = Some i \<Longrightarrow> length i = 16"
  obtains n v' where "vs_write_all duplex_ops rr d v = Some v'" "n < 65536"
    "length (frame_bytes d cmd_padding_continue n (pd_uuid (vs_padder v))) \<le> length d + 1421"
    "sends_now k (b @ frame_bytes d cmd_padding_continue n (pd_uuid (vs_padder v))) v'" "vs_traffic v' = plain (j - 1)"
    "pd_uuid (vs_padder v') = None" "dx_in (vs_inner v') = dx_in (vs_inner v)" "vs_read_raw v' = vs_read_raw v"
    "vs_read_out v' = vs_read_out v" "vs_unpadder v' = vs_unpadder v" "vs_header v' = vs_header v"
proof -
  let ?p = "vs_padder v" and ?f = "\<lambda>n. frame_bytes d cmd_padding_continue n (pd_uuid (vs_padder v))"
  have v: "vs_write_pending v = []" "pd_padding ?p" "\<not> wants_direct ?p" "roomy (Suc k) b (vs_inner v)" "\<not> vs_uplink_raw v"
    using assms(2) by (simp_all add: sends_now_def)
  have j: "0 < j" using assms(4) by simp
  obtain n r' where n: "n < 65536" "(n, r') = padding_len rr (vs_rng v) (length d) False"
    "pad rr (vs_rng v) ?p d (plain j) = (?f n, ?p\<lparr>pd_uuid := None\<rparr>, plain (j - 1), r')"
    by (rule pad_plain [OF v(2) assms(5) j assms(6), of rr "vs_rng v"]) (use assms(4) in auto)
  have len: "length (?f n) \<le> length d + 1421" by (rule frame_short(1) [OF assms(1) n(2) assms(7)])
  then have "length (?f n) \<le> 65536" using assms(5) by simp
  from roomy_write [OF v(4) this] obtain i where i: "duplex_put (sock_write (?f n)) (vs_inner v) = (Ready (Inr (length (?f n))), i)"
    "roomy k (b @ ?f n) i" "dx_in i = dx_in (vs_inner v)" by blast
  let ?v = "v\<lparr>vs_padder := ?p\<lparr>pd_uuid := None\<rparr>, vs_traffic := plain (j - 1), vs_rng := r', vs_inner := i\<rparr>"
  have w: "vs_write_all duplex_ops rr d v = Some ?v"
    by (rule write_whole [OF v(1,2,3) n(3) [folded assms(3)]])
      (use v(3) i(1) in \<open>simp_all add: duplex_ops_def wants_direct_def frame_bytes_def\<close>)
  show thesis
    by (rule that [OF w n(1) len]) (use v i(2,3) in \<open>simp_all add: sends_now_def wants_direct_def\<close>)
qed

lemma flush_now:
  assumes "sends_now (Suc k) b v"
  obtains i where "vs_flush duplex_ops v = Some (v\<lparr>vs_inner := i\<rparr>)" "roomy k b i" "dx_in i = dx_in (vs_inner v)"
proof -
  have v: "vs_write_pending v = []" "\<not> wants_direct (vs_padder v)" "roomy (Suc k) b (vs_inner v)" "\<not> vs_uplink_raw v"
    using assms by (simp_all add: sends_now_def)
  from roomy_flush [OF v(3)] obtain i where "duplex_put sock_flush (vs_inner v) = (Ready (Inr ()), i)" "roomy k b i"
    "dx_in i = dx_in (vs_inner v)" by blast
  then show thesis using flush_whole [OF v(1,2,4), of duplex_ops i] that by (simp add: duplex_ops_def)
qed

lemma two_frames:
  assumes "length a < 65536" and "length d < 65536" and "n < 65536" and "m < 65536"
  shows "map_option snd (unpad_all (frame_bytes a cmd_padding_continue n (Some test_uuid) @ frame_bytes d cmd_padding_continue m None))
    = Some (a @ d)"
proof -
  let ?u = "after_command unpadder_new cmd_padding_continue"
  have "unpad unpadder_new (frame_bytes a cmd_padding_continue n (Some test_uuid) @ frame_bytes d cmd_padding_continue m None) []
      = unpad ?u (frame_bytes d cmd_padding_continue m None) a"
    by (rule first_unpad) (simp_all add: assms cmd_padding_continue_def)
  also have "\<dots> = (Inr (), after_command ?u cmd_padding_continue, [], a @ d)"
    by (rule unpad_one(2)) (simp_all add: assms after_command_def cmd_padding_continue_def)
  finally show ?thesis by (simp add: unpad_all_def)
qed

lemma stream_write_is_unpaddable:
  assumes rng: "rng_ok rr"
  shows "stream_write_is_unpaddable rr r"
proof -
  let ?a = "str ''first''" and ?b = "str ''second''" and ?vs = "vision_new (test_duplex []) test_uuid r"
  have s: "sends_now 9 [] ?vs" "vs_traffic ?vs = plain 8" "pd_uuid (vs_padder ?vs) = Some test_uuid"
    using roomy_start [of "[]"] by (simp_all add: sends_now_def vision_new_def padder_new_def wants_direct_def plain_new)
  have n9: "sends_now (Suc 8) [] ?vs" using s(1) by simp
  obtain n v1 where v1: "vs_write_all duplex_ops rr ?a ?vs = Some v1" "n < 65536"
    "length (frame_bytes ?a cmd_padding_continue n (Some test_uuid)) \<le> length ?a + 1421"
    "sends_now 8 (frame_bytes ?a cmd_padding_continue n (Some test_uuid)) v1" "vs_traffic v1 = plain 7" "pd_uuid (vs_padder v1) = None"
    by (rule plain_up [OF rng n9 s(2), of ?a]) (auto simp: s(3) uuid16)
  have n8: "sends_now (Suc 7) (frame_bytes ?a cmd_padding_continue n (Some test_uuid)) v1" using v1(4) by simp
  obtain m v2 where v2: "vs_write_all duplex_ops rr ?b v1 = Some v2" "m < 65536"
    "length (frame_bytes ?b cmd_padding_continue m None) \<le> length ?b + 1421"
    "sends_now 7 (frame_bytes ?a cmd_padding_continue n (Some test_uuid) @ frame_bytes ?b cmd_padding_continue m None) v2"
    by (rule plain_up [OF rng n8 v1(5), of ?b]) (auto simp: v1(6))
  let ?w = "frame_bytes ?a cmd_padding_continue n (Some test_uuid) @ frame_bytes ?b cmd_padding_continue m None"
  have n7: "sends_now (Suc 6) ?w v2" using v2(4) by simp
  obtain i where i: "vs_flush duplex_ops v2 = Some (v2\<lparr>vs_inner := i\<rparr>)" "roomy 6 ?w i"
    by (rule flush_now [OF n7])
  have "length ?w \<le> 8192" using v1(3) v2(3) by simp
  then have t: "take 8192 (sent i) = ?w" using i(2) by (simp add: sent_def roomy_def del: str_Cons)
  have "map_option snd (unpad_all ?w) = Some (?a @ ?b)"
    by (rule two_frames) (use v1(2) v2(2) in simp_all)
  then show ?thesis
    unfolding stream_write_is_unpaddable_def Let_def by (simp add: v1(1) v2(1) i(1) t del: str_Cons) simp
qed

lemma new_sends:
  "sends_now (Suc 8) [] (vision_new (test_duplex cs) test_uuid r)"
  "vs_traffic (vision_new i test_uuid r) = plain 8" "pd_uuid (vs_padder (vision_new i test_uuid r)) = Some test_uuid"
  "sends_now (Suc 8) [] (vision_client (test_duplex cs) test_uuid r)"
  "vs_traffic (vision_client i test_uuid r) = plain 8" "pd_uuid (vs_padder (vision_client i test_uuid r)) = Some test_uuid"
  using roomy_start [of cs]
  by (simp_all add: sends_now_def vision_client_def vision_new_def padder_new_def wants_direct_def plain_new)

lemma stream_strips_vless_response_header_lazily:
  assumes rng: "rng_ok rr"
  shows "stream_strips_vless_response_header_lazily rr r"
proof -
  let ?a = "str ''uplink first''" and ?b = "str ''downlink''" and ?vs = "vision_client (test_duplex []) test_uuid r"
  let ?u = "after_command unpadder_new cmd_padding_end"
  obtain n v1 where v1: "vs_write_all duplex_ops rr ?a ?vs = Some v1"
    "sends_now 8 (frame_bytes ?a cmd_padding_continue n (Some test_uuid)) v1" "dx_in (vs_inner v1) = []" "vs_read_raw v1 = []"
    "vs_read_out v1 = []" "vs_unpadder v1 = unpadder_new" "vs_header v1 = response_header_new"
    by (rule plain_up [OF rng new_sends(4,5), of ?a "[]" r]) (auto simp: new_sends new_stream uuid16 test_duplex_def)
  let ?w = "frame_bytes ?a cmd_padding_continue n (Some test_uuid)"
  have n8: "sends_now (Suc 7) ?w v1" using v1(2) by simp
  obtain i where i: "vs_flush duplex_ops v1 = Some (v1\<lparr>vs_inner := i\<rparr>)" "roomy 7 ?w i" "dx_in i = []"
    by (rule flush_now [OF n8]) (simp add: v1(3))
  have sent: "take 4096 (sent i) \<noteq> []" using i(2) by (simp add: sent_def roomy_def frame_bytes_def)
  obtain m r2 where f: "xtls_padding rr (vs_rng v1) ?b cmd_padding_end (Some test_uuid) False
      = (frame_bytes ?b cmd_padding_end m (Some test_uuid), r2)" "m < 65536"
    "length (frame_bytes ?b cmd_padding_end m (Some test_uuid)) \<le> length ?b + 1421"
    by (rule test_frame [OF rng, of ?b "Some test_uuid" "vs_rng v1" cmd_padding_end False]) (auto simp: uuid16)
  let ?f = "frame_bytes ?b cmd_padding_end m (Some test_uuid)"
  let ?d = "[0x00, 0x00] @ ?f"
  let ?v2 = "on_inner (peer_writes ?d) (v1\<lparr>vs_inner := i, vs_rng := r2\<rparr>)"
  have un: "unpad unpadder_new ?f [] = (Inr (), ?u, [], ?b)"
    using first_unpad [of ?b m cmd_padding_end "[]"] f(2) by (simp add: cmd_padding_end_def unpad_empty)
  have fd: "feed response_header_new ?d = (Inr True, response_header_new\<lparr>rh_done := True\<rparr>, ?f)"
    by (simp add: feed_def response_header_new_def const_defs Let_def del: str_Cons)
  have "length ?d \<le> 16384" using f(3) by simp
  then have "\<exists>v'. vs_read_exact duplex_ops 9 8 ?v2 = Some (?b, v')"
    using fd un v1 i(3)
    by (intro duplex_read_exact [where d = ?d and cs = "[]" and h = "response_header_new\<lparr>rh_done := True\<rparr>" and x = ?f])
      (simp_all add: on_inner_def peer_writes_def new_stream)
  then obtain v' where "vs_read_exact duplex_ops 9 8 ?v2 = Some (?b, v')" by blast
  then show ?thesis
    using sent unfolding stream_strips_vless_response_header_lazily_def Let_def v1(1) Option.bind.simps i(1) option.case
    by (simp add: f(1) del: str_Cons append.simps length_take)
qed

text \<open>The first write: the header and the frame at once, then the flush.\<close>

lemma first_write_now:
  assumes "first_frame rr payload (vision_client (test_duplex []) test_uuid r) = (frame, p, ts, g)" and "frame \<noteq> []"
    and "length frame \<le> 8192" and "pd_padding p" and "\<not> wants_direct p"
  obtains i where "write_first_on duplex_ops rr (str ''HDR'') payload (vision_client (test_duplex []) test_uuid r)
      = Some (Inr (), (vision_client i test_uuid g)\<lparr>vs_padder := p, vs_traffic := ts\<rparr>)"
    "sends_now 7 (str ''HDR'' @ frame) ((vision_client i test_uuid g)\<lparr>vs_padder := p, vs_traffic := ts\<rparr>)"
proof -
  let ?x = "str ''HDR'' @ frame" and ?v = "vision_client (test_duplex []) test_uuid r"
  have "length ?x \<le> 65536" using assms(3) by simp
  from roomy_write [of 8 "[]" "test_duplex []", OF _ this] roomy_start obtain j where
    j: "duplex_put (sock_write ?x) (test_duplex []) = (Ready (Inr (length ?x)), j)" "roomy 8 ?x j" by auto
  then have "write_all_on duplex_ops ?x (test_duplex []) = Some (Inr (), j)"
    using assms(2) by (subst write_all_on.simps) (simp add: duplex_ops_def write_all_on.simps del: str_Cons)
  moreover obtain i where i: "duplex_put sock_flush j = (Ready (Inr ()), i)" "roomy 7 ?x i"
    using roomy_flush [of 7 ?x j] j(2) by auto
  then have "flush_all_on duplex_ops j = Some (Inr (), i)"
    by (subst flush_all_on.simps) (simp add: duplex_ops_def)
  moreover have "?v\<lparr>vs_padder := p, vs_traffic := ts, vs_rng := g, vs_inner := i\<rparr>
      = (vision_client i test_uuid g)\<lparr>vs_padder := p, vs_traffic := ts\<rparr>"
    by (simp add: vision_client_def vision_new_def)
  moreover have "vs_inner ?v = test_duplex []" by (simp add: new_stream)
  ultimately have "write_first_on duplex_ops rr (str ''HDR'') payload ?v
      = Some (Inr (), (vision_client i test_uuid g)\<lparr>vs_padder := p, vs_traffic := ts\<rparr>)"
    by (simp add: write_first_on_eq [OF assms(1)] del: str_Cons)
  then show thesis
    by (rule that) (use i(2) assms(4,5) in \<open>simp add: sends_now_def vision_client_def vision_new_def del: str_Cons\<close>)
qed

lemma first_write_merges_header_and_payload:
  assumes rng: "rng_ok rr"
  shows "first_write_merges_header_and_payload rr r"
proof -
  let ?a = "str ''client hello''" and ?b = "str '' and more''" and ?p = "padder_new test_uuid"
  obtain n r1 where f: "(n, r1) = padding_len rr r (length ?a) False" "n < 65536" "pad rr r ?p ?a (plain 8) =
      (frame_bytes ?a cmd_padding_continue n (Some test_uuid), ?p\<lparr>pd_uuid := None\<rparr>, plain 7, r1)"
    by (rule pad_plain [of ?p ?a 8 rr r]) (auto simp: padder_start)
  let ?f = "frame_bytes ?a cmd_padding_continue n (Some test_uuid)"
  have len: "length ?f \<le> length ?a + 1421" by (rule frame_short(1) [OF rng f(1)]) (simp add: uuid16)
  have ff: "first_frame rr ?a (vision_client (test_duplex []) test_uuid r) = (?f, ?p\<lparr>pd_uuid := None\<rparr>, plain 7, r1)"
    using f(3) by (simp add: first_frame_def vision_client_def vision_new_def plain_new)
  obtain i where i: "write_first_on duplex_ops rr (str ''HDR'') ?a (vision_client (test_duplex []) test_uuid r)
      = Some (Inr (), (vision_client i test_uuid r1)\<lparr>vs_padder := ?p\<lparr>pd_uuid := None\<rparr>, vs_traffic := plain 7\<rparr>)"
    "sends_now 7 (str ''HDR'' @ ?f) ((vision_client i test_uuid r1)\<lparr>vs_padder := ?p\<lparr>pd_uuid := None\<rparr>, vs_traffic := plain 7\<rparr>)"
    by (rule first_write_now [OF ff]) (use len in \<open>simp_all add: frame_bytes_def padder_start padder_new_def wants_direct_def\<close>)
  let ?v = "(vision_client i test_uuid r1)\<lparr>vs_padder := ?p\<lparr>pd_uuid := None\<rparr>, vs_traffic := plain 7\<rparr>"
  have n7: "sends_now (Suc 6) (str ''HDR'' @ ?f) ?v" using i(2) by (simp del: str_Cons)
  have t: "vs_traffic ?v = plain 7" by simp
  obtain m v2 where v2: "vs_write_all duplex_ops rr ?b ?v = Some v2" "m < 65536"
    "length (frame_bytes ?b cmd_padding_continue m None) \<le> length ?b + 1421"
    "sends_now 6 ((str ''HDR'' @ ?f) @ frame_bytes ?b cmd_padding_continue m None) v2"
    by (rule plain_up [OF rng n7 t, of ?b]) auto
  let ?w = "?f @ frame_bytes ?b cmd_padding_continue m None"
  have n6: "sends_now (Suc 5) (str ''HDR'' @ ?w) v2" using v2(4) by (simp del: str_Cons)
  obtain j where j: "vs_flush duplex_ops v2 = Some (v2\<lparr>vs_inner := j\<rparr>)" "roomy 5 (str ''HDR'' @ ?w) j"
    by (rule flush_now [OF n6])
  have "length (str ''HDR'' @ ?w) \<le> 8192" using len v2(3) by simp
  then have s: "take 8192 (sent j) = str ''HDR'' @ ?w" using j(2) by (simp add: sent_def roomy_def del: str_Cons)
  have "map_option snd (unpad_all ?w) = Some (?a @ ?b)" by (rule two_frames) (use f(2) v2(2) in simp_all)
  then show ?thesis
    unfolding first_write_merges_header_and_payload_def Let_def i(1) option.case prod.case sum.case v2(1) Option.bind.simps j(1)
    by (simp add: s)
qed

lemma first_write_without_payload_sends_camouflage:
  assumes rng: "rng_ok rr"
  shows "first_write_without_payload_sends_camouflage rr r"
proof -
  let ?b = "str ''later''" and ?p = "padder_new test_uuid"
  let ?fr = "\<lambda>n. frame_bytes [] cmd_padding_continue n (Some test_uuid)"
  obtain n r1 where f: "xtls_padding_into rr r [] [] cmd_padding_continue (Some test_uuid) True = ([] @ ?fr n, r1)" "n < 65536"
    "(n, r1) = padding_len rr r (length ([] :: bytes)) True" by (rule framed)
  have len: "length (?fr n) \<le> 1421" using frame_short(1) [OF rng f(3), of "Some test_uuid" "[]" cmd_padding_continue] by (simp add: uuid16)
  have ff: "first_frame rr [] (vision_client (test_duplex []) test_uuid r) = (?fr n, ?p\<lparr>pd_uuid := None\<rparr>, plain 8, r1)"
    using f(1) by (simp add: first_frame_def camouflage_def xtls_padding_def vision_client_def vision_new_def plain_new padder_start)
  let ?vs = "\<lambda>i. (vision_client i test_uuid r1)\<lparr>vs_padder := ?p\<lparr>pd_uuid := None\<rparr>, vs_traffic := plain 8\<rparr>"
  obtain i where i: "write_first_on duplex_ops rr (str ''HDR'') [] (vision_client (test_duplex []) test_uuid r) = Some (Inr (), ?vs i)"
    "sends_now 7 (str ''HDR'' @ ?fr n) (?vs i)"
    by (rule first_write_now [OF ff]) (use len in \<open>simp_all add: frame_bytes_def padder_start padder_new_def wants_direct_def\<close>)
  have "length (str ''HDR'' @ ?fr n) \<le> 8192" using len by simp
  moreover have "sent (vs_inner (?vs i)) = str ''HDR'' @ ?fr n"
    using i(2) by (simp add: sends_now_def roomy_def sent_def del: str_Cons)
  ultimately have s1: "take 8192 (sent (vs_inner (?vs i))) = str ''HDR'' @ ?fr n" by simp
  have un: "map_option snd (unpad_all (?fr n)) = Some []"
    using first_unpad [of "[]" n cmd_padding_continue "[]"] f(2) by (simp add: unpad_all_def cmd_padding_continue_def unpad_empty)
  have n7: "sends_now (Suc 6) (str ''HDR'' @ ?fr n) (?vs i)" using i(2) by (simp del: str_Cons)
  have t: "vs_traffic (?vs i) = plain 8" by simp
  obtain m v2 where v2: "vs_write_all duplex_ops rr ?b (?vs i) = Some v2" "m < 65536"
    "length (frame_bytes ?b cmd_padding_continue m None) \<le> length ?b + 1421"
    "sends_now 6 ((str ''HDR'' @ ?fr n) @ frame_bytes ?b cmd_padding_continue m None) v2"
    by (rule plain_up [OF rng n7 t, of ?b]) auto
  let ?w = "?fr n @ frame_bytes ?b cmd_padding_continue m None"
  have n6: "sends_now (Suc 5) (str ''HDR'' @ ?w) v2" using v2(4) by (simp del: str_Cons)
  obtain j where j: "vs_flush duplex_ops v2 = Some (v2\<lparr>vs_inner := j\<rparr>)" "roomy 5 (str ''HDR'' @ ?w) j"
    by (rule flush_now [OF n6])
  have "length (str ''HDR'' @ ?w) \<le> 8192" using len v2(3) by simp
  then have s2: "take 8192 (sent j) = str ''HDR'' @ ?w" using j(2) by (simp add: sent_def roomy_def del: str_Cons)
  have un2: "map_option snd (unpad_all ?w) = Some ([] @ ?b)" by (rule two_frames) (use f(2) v2(2) in simp_all)
  have "slice 3 (3 + uuid_len) (str ''HDR'' @ ?fr n) = test_uuid"
    by (simp add: slice_def uuid_len_def frame_bytes_def uuid16)
  moreover have "(str ''HDR'' @ ?fr n) ! (3 + uuid_len) = cmd_padding_continue"
    using frame_at(2) [OF uuid16, of "[]" cmd_padding_continue n] by (simp add: uuid_len_def)
  moreover have "take 3 (str ''HDR'' @ ?fr n) = str ''HDR''" "drop 3 (str ''HDR'' @ ?fr n) = ?fr n" "drop 3 (str ''HDR'' @ ?w) = ?w"
    by simp_all
  ultimately show ?thesis
    unfolding first_write_without_payload_sends_camouflage_def Let_def i(1) option.case prod.case sum.case v2(1)
      Option.bind.simps j(1) s1
    using un un2 s2 by (simp del: str_Cons)
qed

lemma first_payload_feeds_tls_sniffing:
  assumes rng: "rng_ok rr"
  shows "first_payload_feeds_tls_sniffing rr r"
proof -
  let ?p = "padder_new test_uuid" and ?ts = "(plain 7)\<lparr>is_tls := True\<rparr>"
  let ?fr = "\<lambda>n. frame_bytes test_client_hello cmd_padding_continue n (Some test_uuid)"
  obtain n r1 where f: "pad rr r ?p test_client_hello traffic_new = (?fr n, ?p\<lparr>pd_uuid := None\<rparr>, ?ts, r1)"
    "(n, r1) = padding_len rr r (length test_client_hello) True" "n < 65536" by (rule hello_up)
  have hl: "length test_client_hello = 10" by (simp add: test_client_hello_def)
  have "length (?fr n) \<le> length test_client_hello + 1421" by (rule frame_short(1) [OF rng f(2)]) (simp add: uuid16)
  then have len: "length (?fr n) \<le> 8192" using hl by simp
  have ff: "first_frame rr test_client_hello (vision_client (test_duplex []) test_uuid r) = (?fr n, ?p\<lparr>pd_uuid := None\<rparr>, ?ts, r1)"
    using f(1) hl by (auto simp: first_frame_def vision_client_def vision_new_def)
  let ?vs = "\<lambda>i. (vision_client i test_uuid r1)\<lparr>vs_padder := ?p\<lparr>pd_uuid := None\<rparr>, vs_traffic := ?ts\<rparr>"
  obtain i where i: "write_first_on duplex_ops rr (str ''HDR'') test_client_hello (vision_client (test_duplex []) test_uuid r)
      = Some (Inr (), ?vs i)"
    "sends_now 7 (str ''HDR'' @ ?fr n) (?vs i)"
    by (rule first_write_now [OF ff _ len])
      (simp_all add: frame_bytes_def padder_start padder_new_def wants_direct_def)
  let ?q = "?p\<lparr>pd_uuid := None\<rparr>"
  have tf: "traffic_filter ?ts test_app_data = (plain 6)\<lparr>is_tls := True\<rparr>"
    by (simp add: traffic_filter_def sniff_hello_def sniff_versions_def plain_def traffic_new_def test_app_data_def const_defs)
  have fl: "is_tls ((plain 6)\<lparr>is_tls := True\<rparr>)" "\<not> enable_xtls ((plain 6)\<lparr>is_tls := True\<rparr>)" by (simp_all add: plain_def traffic_new_def)
  obtain m r2 where m: "(m, r2) = padding_len rr r1 (length test_app_data) (is_tls (traffic_filter ?ts test_app_data))"
    "pad rr r1 ?q test_app_data ?ts =
       (frame_bytes test_app_data (pad_command (traffic_filter ?ts test_app_data) test_app_data) m (pd_uuid ?q),
        pad_after (traffic_filter ?ts test_app_data) test_app_data ?q, traffic_filter ?ts test_app_data, r2)"
    by (rule pad_one [of ?q test_app_data rr r1 ?ts]) (use app_data(3) in \<open>simp_all add: padder_start\<close>)
  have m': "pad rr r1 ?q test_app_data ?ts = (frame_bytes test_app_data cmd_padding_end m None,
      ?q\<lparr>pd_padding := False, pd_direct := False, pd_uuid := None\<rparr>, (plain 6)\<lparr>is_tls := True\<rparr>, r2)"
    using m(2) by (simp add: tf fl app_data pad_command_def pad_after_def end_command_def)
  have al: "length test_app_data = 13" by (simp add: test_app_data_def)
  have "length (frame_bytes test_app_data cmd_padding_end m None) \<le> length test_app_data + 1421"
    by (rule frame_short(1) [OF rng m(1)]) simp
  then have l2: "length (frame_bytes test_app_data cmd_padding_end m None) \<le> 65536" using al by simp
  have room: "roomy (Suc 6) (str ''HDR'' @ ?fr n) (vs_inner (?vs i))" using i(2) by (simp add: sends_now_def del: str_Cons)
  from roomy_write [OF room l2] obtain j where
    j: "so_write duplex_ops (frame_bytes test_app_data cmd_padding_end m None) (vs_inner (?vs i))
      = (Ready (Inr (length (frame_bytes test_app_data cmd_padding_end m None))), j)"
    by (auto simp: duplex_ops_def)
  have "vs_write_all duplex_ops rr test_app_data (?vs i)
      = Some ((?vs i)\<lparr>vs_padder := ?q\<lparr>pd_padding := False, pd_direct := False, pd_uuid := None\<rparr>,
          vs_traffic := (plain 6)\<lparr>is_tls := True\<rparr>, vs_rng := r2, vs_inner := j\<rparr>)"
    using i(2) m' by (intro write_whole [OF _ _ _ _ _ _ j])
      (simp_all add: sends_now_def vision_client_def vision_new_def wants_direct_def padder_start frame_bytes_def)
  then show ?thesis
    unfolding first_payload_feeds_tls_sniffing_def Let_def i(1) option.case prod.case sum.case
    by (simp add: padding_done_def)
qed

end
