(* ===== verification/TestsUplink.thy ===== *)
theory TestsUplink
  imports TestsStream
begin

text \<open>
  The tests of the uplink of \<^verbatim>\<open>VisionStream\<close> over \<^verbatim>\<open>SplitInner\<close>: behind a complete record of
  application data of a TLS 1.3 session writes go below TLS, and so does the shutdown.
\<close>

section \<open>The tests\<close>

definition test_split :: split_inner where
  "test_split = \<lparr>sp_tls = test_duplex [], sp_raw = test_duplex [], sp_gate_stopped = False\<rparr>"

definition uplink_direct_switches_writes_to_raw_socket :: "'r rng \<Rightarrow> 'r \<Rightarrow> bool" where
  "uplink_direct_switches_writes_to_raw_socket rr r \<longleftrightarrow>
     (case vs_write_all split_ops rr test_client_hello (vision_new test_split test_uuid r) of
        None \<Rightarrow> False
      | Some vs \<Rightarrow>
          let sh = test_server_hello 0x1301 True;
              (f, r) = xtls_padding rr (vs_rng vs) sh cmd_padding_continue (Some test_uuid) True;
              vs = on_inner (\<lambda>i. i\<lparr>sp_tls := peer_writes f (sp_tls i)\<rparr>) (vs\<lparr>vs_rng := r\<rparr>)
          in case vs_read_exact split_ops 9 (length sh) vs of
               None \<Rightarrow> False
             | Some (data, vs) \<Rightarrow>
                 data = sh \<and> enable_xtls (vs_traffic vs) \<and>
                 (case Option.bind (vs_write_all split_ops rr test_app_data vs) (\<lambda>vs.
                       Option.bind (vs_write_all split_ops rr (str ''raw uplink'') vs) (vs_flush split_ops)) of
                    None \<Rightarrow> False
                  | Some vs \<Rightarrow>
                      (case unpad_all (take 8192 (sent (sp_tls (vs_inner vs)))) of
                         None \<Rightarrow> False
                       | Some (u, out) \<Rightarrow> is_direct u \<and> out = test_client_hello @ test_app_data) \<and>
                      take 10 (sent (sp_raw (vs_inner vs))) = str ''raw uplink''))"

definition shutdown_after_uplink_direct_skips_tls :: "'r rng \<Rightarrow> 'r \<Rightarrow> bool" where
  "shutdown_after_uplink_direct_skips_tls rr r \<longleftrightarrow>
     (case vs_write_all split_ops rr test_client_hello (vision_new test_split test_uuid r) of
        None \<Rightarrow> False
      | Some vs \<Rightarrow>
          let vs = vs\<lparr>vs_traffic := traffic_filter (vs_traffic vs) (test_server_hello 0x1301 True)\<rparr>
          in case Option.bind (vs_write_all split_ops rr test_app_data vs) (\<lambda>vs.
                  Option.bind (vs_write_all split_ops rr (str ''bye'') vs) (vs_shutdown split_ops)) of
               None \<Rightarrow> False
             | Some vs \<Rightarrow>
                 sent (sp_raw (vs_inner vs)) = str ''bye'' \<and> wh_shut (dx_out (sp_raw (vs_inner vs))) \<and>
                 \<not> wh_shut (dx_out (sp_tls (vs_inner vs))))"

definition shutdown_without_uplink_direct_uses_tls :: "'r rng \<Rightarrow> 'r \<Rightarrow> bool" where
  "shutdown_without_uplink_direct_uses_tls rr r \<longleftrightarrow>
     (case Option.bind (vs_write_all split_ops rr (str ''plain'') (vision_new test_split test_uuid r))
             (vs_shutdown split_ops) of
        None \<Rightarrow> False
      | Some vs \<Rightarrow>
          wh_shut (dx_out (sp_tls (vs_inner vs))) \<and>
          map_option snd (unpad_all (sent (sp_tls (vs_inner vs)))) = Some (str ''plain''))"

section \<open>Calls that are ready at once\<close>

definition both_roomy :: "nat \<Rightarrow> bytes \<Rightarrow> nat \<Rightarrow> bytes \<Rightarrow> split_inner \<Rightarrow> bool" where
  "both_roomy k b l c i \<longleftrightarrow> roomy k b (sp_tls i) \<and> roomy l c (sp_raw i)"

lemma both_roomy_start: "both_roomy 9 [] 9 [] test_split"
  by (simp add: both_roomy_def test_split_def roomy_start)

lemma tls_write:
  assumes "both_roomy (Suc k) b l c i" and "length x \<le> 65536"
  obtains j where "so_write split_ops x i = (Ready (Inr (length x)), j)" "both_roomy k (b @ x) l c j"
    "dx_in (sp_tls j) = dx_in (sp_tls i)"
proof -
  from assms(1) have r: "roomy (Suc k) b (sp_tls i)" "roomy l c (sp_raw i)" by (simp_all add: both_roomy_def)
  from roomy_write [OF r(1) assms(2)] obtain d where
    "duplex_put (sock_write x) (sp_tls i) = (Ready (Inr (length x)), d)" "roomy k (b @ x) d" "dx_in d = dx_in (sp_tls i)"
    by blast
  with r(2) show thesis
    by (intro that [of "i\<lparr>sp_tls := d\<rparr>"]) (simp_all add: split_ops_def via_tls_def both_roomy_def)
qed

lemma raw_write:
  assumes "both_roomy k b (Suc l) c i" and "length x \<le> 65536"
  obtains j where "so_write_direct split_ops x i = (Ready (Inr (length x)), j)" "both_roomy k b l (c @ x) j"
proof -
  from assms(1) have r: "roomy k b (sp_tls i)" "roomy (Suc l) c (sp_raw i)" by (simp_all add: both_roomy_def)
  from roomy_write [OF r(2) assms(2)] obtain d where
    "duplex_put (sock_write x) (sp_raw i) = (Ready (Inr (length x)), d)" "roomy l (c @ x) d"
    by blast
  with r(1) show thesis
    by (intro that [of "i\<lparr>sp_raw := d\<rparr>"]) (simp_all add: split_ops_def via_raw_def both_roomy_def)
qed

lemma both_flush:
  shows "both_roomy (Suc k) b l c i \<Longrightarrow> \<exists>j. so_flush split_ops i = (Ready (Inr ()), j) \<and> both_roomy k b l c j"
  and "both_roomy k b (Suc l) c i \<Longrightarrow> \<exists>j. so_flush_direct split_ops i = (Ready (Inr ()), j) \<and> both_roomy k b l c j"
  using roomy_flush [of k b "sp_tls i"] roomy_flush [of l c "sp_raw i"]
  by (fastforce simp: both_roomy_def split_ops_def via_tls_def via_raw_def split: prod.splits)+

definition shut_as :: "bytes \<Rightarrow> duplex \<Rightarrow> bool" where
  "shut_as b d \<longleftrightarrow> sent d = b \<and> wh_shut (dx_out d)"

lemma roomy_shutdown:
  assumes "roomy (Suc k) b d"
  shows "\<exists>d'. duplex_put sock_shutdown d = (Ready (Inr ()), d') \<and> shut_as b d'"
  using assms by (simp add: duplex_put_def sock_shutdown_def sock_flush_def roomy_def shut_as_def sent_def)

lemma both_shutdown:
  shows "both_roomy (Suc k) b l c i \<Longrightarrow>
      \<exists>j. so_shutdown split_ops i = (Ready (Inr ()), j) \<and> shut_as b (sp_tls j) \<and> roomy l c (sp_raw j)"
  and "both_roomy k b (Suc l) c i \<Longrightarrow>
      \<exists>j. so_shutdown_direct split_ops i = (Ready (Inr ()), j) \<and> roomy k b (sp_tls j) \<and> shut_as c (sp_raw j)"
  using roomy_shutdown [of k b "sp_tls i"] roomy_shutdown [of l c "sp_raw i"]
  by (fastforce simp: both_roomy_def split_ops_def via_tls_def via_raw_def split: prod.splits)+

text \<open>The write that turns the switch, and the calls behind it.\<close>

lemma write_switches:
  assumes "vs_write_pending v = []" and "pd_padding (vs_padder v)" and "\<not> wants_direct (vs_padder v)" and "\<not> vs_uplink_raw v"
    and "pad rr (vs_rng v) (vs_padder v) d (vs_traffic v) = (out, p, ts, r)" and "out \<noteq> []" and "wants_direct p"
    and "so_write S out (vs_inner v) = (Ready (Inr (length out)), i)" and "so_flush S i = (Ready (Inr ()), j)"
  shows "vs_write_all S rr d v
    = Some (v\<lparr>vs_padder := p, vs_traffic := ts, vs_rng := r, vs_inner := j, vs_uplink_raw := True\<rparr>)"
proof -
  let ?w = "v\<lparr>vs_padder := p, vs_traffic := ts, vs_write_pending := out, vs_rng := r\<rparr>"
  have p: "pad_into rr (vs_rng v) (vs_padder v) d (vs_traffic v) [] = (p, ts, out, r)"
    using assms(5) by (auto simp: pad_def Let_def split: prod.splits)
  have "settle_on S v = (Ready (Inr ()), v)"
    using assms(1,3) by (simp add: settle_on_def drain_on.simps)
  moreover have "settle_on S ?w = (Ready (Inr ()), ?w\<lparr>vs_inner := j, vs_write_pending := [], vs_uplink_raw := True\<rparr>)"
    using drain_whole [of S ?w i] assms(4,6-9) by (simp add: settle_on_def)
  ultimately show ?thesis
    using assms(1,2) p by (cases v) (simp add: vs_write_all_def write_on_def padding_done_def Let_def)
qed

lemma behind_switch:
  assumes "vs_write_pending v = []" and "padding_done (vs_padder v)" and "vs_uplink_raw v"
  shows "so_write_direct S d (vs_inner v) = (Ready (Inr (length d)), i) \<Longrightarrow>
      vs_write_all S rr d v = Some (v\<lparr>vs_traffic := traffic_filter (vs_traffic v) d, vs_inner := i\<rparr>)"
    and "so_flush_direct S (vs_inner v) = (Ready (Inr ()), i) \<Longrightarrow> vs_flush S v = Some (v\<lparr>vs_inner := i\<rparr>)"
    and "so_shutdown_direct S (vs_inner v) = (Ready (Inr ()), i) \<Longrightarrow> vs_shutdown S v = Some (v\<lparr>vs_inner := i\<rparr>)"
  using assms
  by (simp_all add: vs_write_all_def write_on_def vs_flush_def flush_on_def vs_shutdown_def shutdown_on_def
      settle_on_def drain_on.simps Let_def)

lemma before_switch_shutdown:
  assumes "vs_write_pending v = []" and "\<not> wants_direct (vs_padder v)" and "\<not> vs_uplink_raw v"
    and "so_shutdown S (vs_inner v) = (Ready (Inr ()), i)"
  shows "vs_shutdown S v = Some (v\<lparr>vs_inner := i\<rparr>)"
  using assms by (simp add: vs_shutdown_def shutdown_on_def settle_on_def drain_on.simps)

section \<open>The tests hold\<close>

lemma shutdown_without_uplink_direct_uses_tls:
  assumes rng: "rng_ok rr"
  shows "shutdown_without_uplink_direct_uses_tls rr r"
proof -
  let ?a = "str ''plain''" and ?p = "padder_new test_uuid" and ?v = "vision_new test_split test_uuid r"
  obtain n r1 where f: "(n, r1) = padding_len rr r (length ?a) False" "n < 65536" "pad rr r ?p ?a (plain 8) =
      (frame_bytes ?a cmd_padding_continue n (Some test_uuid), ?p\<lparr>pd_uuid := None\<rparr>, plain 7, r1)"
    by (rule pad_plain [of ?p ?a 8 rr r]) (auto simp: padder_start)
  let ?f = "frame_bytes ?a cmd_padding_continue n (Some test_uuid)"
  have "length ?f \<le> length ?a + 1421" by (rule frame_short(1) [OF rng f(1)]) (simp add: uuid16)
  then have "length ?f \<le> 65536" by simp
  with both_roomy_start obtain i where i: "so_write split_ops ?f test_split = (Ready (Inr (length ?f)), i)" "both_roomy 8 ?f 9 [] i"
    using tls_write [of 8 "[]" 9 "[]" test_split ?f] by auto
  from i(2) have "both_roomy (Suc 7) ?f 9 [] i" by simp
  then obtain j where j: "so_shutdown split_ops i = (Ready (Inr ()), j)" "shut_as ?f (sp_tls j)"
    using both_shutdown(1) by blast
  let ?w = "?v\<lparr>vs_padder := ?p\<lparr>pd_uuid := None\<rparr>, vs_traffic := plain 7, vs_rng := r1, vs_inner := i\<rparr>"
  have "vs_write_all split_ops rr ?a ?v = Some ?w"
    by (rule write_whole [where out = ?f])
      (use f(3) i(1) in \<open>simp_all add: vision_new_def padder_start plain_new wants_direct_def frame_bytes_def padder_new_def\<close>)
  moreover have "vs_shutdown split_ops ?w = Some (?w\<lparr>vs_inner := j\<rparr>)"
    by (rule before_switch_shutdown) (use j(1) in \<open>simp_all add: vision_new_def wants_direct_def padder_new_def\<close>)
  moreover have "map_option snd (unpad_all ?f) = Some ?a"
    using first_unpad [of ?a n cmd_padding_continue "[]"] f(2) by (simp add: unpad_all_def cmd_padding_continue_def unpad_empty)
  ultimately show ?thesis
    using j(2) by (simp add: shutdown_without_uplink_direct_uses_tls_def shut_as_def del: str_Cons)
qed

text \<open>The first write of both tests of the switch: the hello, padded and sent.\<close>

lemma hello_sent:
  assumes rng: "rng_ok rr"
  obtains n r1 i where
    "vs_write_all split_ops rr test_client_hello (vision_new test_split test_uuid r)
       = Some ((vision_new i test_uuid r1)\<lparr>vs_padder := padder_new test_uuid\<lparr>pd_uuid := None\<rparr>,
           vs_traffic := (plain 7)\<lparr>is_tls := True\<rparr>\<rparr>)"
    "n < 65536" "length (frame_bytes test_client_hello cmd_padding_continue n (Some test_uuid)) \<le> 1431"
    "both_roomy 8 (frame_bytes test_client_hello cmd_padding_continue n (Some test_uuid)) 9 [] i" "dx_in (sp_tls i) = []"
proof -
  let ?p = "padder_new test_uuid" and ?ts = "(plain 7)\<lparr>is_tls := True\<rparr>"
  let ?fr = "\<lambda>n. frame_bytes test_client_hello cmd_padding_continue n (Some test_uuid)"
  obtain n r1 where f: "pad rr r ?p test_client_hello traffic_new = (?fr n, ?p\<lparr>pd_uuid := None\<rparr>, ?ts, r1)"
    "(n, r1) = padding_len rr r (length test_client_hello) True" "n < 65536" by (rule hello_up)
  have hl: "length test_client_hello = 10" by (simp add: test_client_hello_def)
  have "length (?fr n) \<le> length test_client_hello + 1421" by (rule frame_short(1) [OF rng f(2)]) (simp add: uuid16)
  then have len: "length (?fr n) \<le> 1431" using hl by simp
  then have "length (?fr n) \<le> 65536" by simp
  with both_roomy_start obtain i where i: "so_write split_ops (?fr n) test_split = (Ready (Inr (length (?fr n))), i)"
    "both_roomy 8 (?fr n) 9 [] i" "dx_in (sp_tls i) = []"
    using tls_write [of 8 "[]" 9 "[]" test_split "?fr n"] by (auto simp: test_split_def test_duplex_def)
  let ?v = "vision_new test_split test_uuid r"
  have "vs_write_all split_ops rr test_client_hello ?v
      = Some (?v\<lparr>vs_padder := ?p\<lparr>pd_uuid := None\<rparr>, vs_traffic := ?ts, vs_rng := r1, vs_inner := i\<rparr>)"
    by (rule write_whole [where out = "?fr n"])
      (use f(1) i(1) in \<open>simp_all add: vision_new_def padder_start wants_direct_def frame_bytes_def padder_new_def\<close>)
  also have "\<dots> = Some ((vision_new i test_uuid r1)\<lparr>vs_padder := ?p\<lparr>pd_uuid := None\<rparr>, vs_traffic := ?ts\<rparr>)"
    by (simp add: vision_new_def)
  finally show thesis by (rule that) (use f(3) len i in simp_all)
qed

text \<open>Behind the server hello of TLS 1.3 a complete record of application data turns the switch.\<close>

abbreviation sniffed :: traffic_state where
  "sniffed \<equiv> traffic_filter ((plain 7)\<lparr>is_tls := True\<rparr>) (test_server_hello 0x1301 True)"

lemma app_data_switches:
  assumes rng: "rng_ok rr" and "vs_write_pending v = []" and "vs_padder v = padder_new test_uuid\<lparr>pd_uuid := None\<rparr>"
    and "\<not> vs_uplink_raw v" and "vs_traffic v = sniffed" and "both_roomy 8 b 9 [] (vs_inner v)"
  obtains m v' where "vs_write_all split_ops rr test_app_data v = Some v'" "m < 65536"
    "length (frame_bytes test_app_data cmd_padding_direct m None) \<le> 1434" "vs_write_pending v' = []" "padding_done (vs_padder v')" "vs_uplink_raw v'"
    "both_roomy 6 (b @ frame_bytes test_app_data cmd_padding_direct m None) 9 [] (vs_inner v')"
proof -
  let ?q = "padder_new test_uuid\<lparr>pd_uuid := None\<rparr>" and ?fr = "\<lambda>m. frame_bytes test_app_data cmd_padding_direct m None"
  have ts: "sniffed = \<lparr>filter_budget = 0, is_tls = True, is_tls12_or_above = True, enable_xtls = True,
      cipher = 0x1301, remaining_server_hello = 0\<rparr>"
    using sniff_test_hello [OF suites(1), of "(plain 7)\<lparr>is_tls := True\<rparr>" True] suites(3)
    by (simp add: plain_def traffic_new_def)
  have stay: "traffic_filter sniffed test_app_data = sniffed" unfolding ts by (simp add: traffic_filter_def)
  obtain m r2 where m: "m < 65536" "(m, r2) = padding_len rr (vs_rng v) (length test_app_data) (is_tls sniffed)"
    "pad rr (vs_rng v) ?q test_app_data sniffed =
       (frame_bytes test_app_data (pad_command sniffed test_app_data) m None, pad_after sniffed test_app_data ?q, sniffed, r2)"
    by (rule pad_one [of ?q test_app_data rr "vs_rng v" sniffed]) (use app_data(3) stay in \<open>simp_all add: padder_start\<close>)
  have c: "pad_command sniffed test_app_data = cmd_padding_direct"
    "pad_after sniffed test_app_data ?q = ?q\<lparr>pd_padding := False, pd_direct := True, pd_uuid := None\<rparr>"
    using app_data by (simp_all add: ts pad_command_def pad_after_def end_command_def)
  have "length test_app_data = 13" by (simp add: test_app_data_def)
  moreover have "length (?fr m) \<le> length test_app_data + 1421" by (rule frame_short(1) [OF rng m(2)]) simp
  ultimately have len: "length (?fr m) \<le> 1434" by simp
  then have "length (?fr m) \<le> 65536" by simp
  with assms(6) obtain i where i: "so_write split_ops (?fr m) (vs_inner v) = (Ready (Inr (length (?fr m))), i)" "both_roomy 7 (b @ ?fr m) 9 [] i"
    using tls_write [of 7 b 9 "[]" "vs_inner v" "?fr m"] by auto
  from i(2) have "both_roomy (Suc 6) (b @ ?fr m) 9 [] i" by simp
  then obtain j where j: "so_flush split_ops i = (Ready (Inr ()), j)" "both_roomy 6 (b @ ?fr m) 9 [] j"
    using both_flush(1) by blast
  have "vs_write_all split_ops rr test_app_data v
      = Some (v\<lparr>vs_padder := ?q\<lparr>pd_padding := False, pd_direct := True, pd_uuid := None\<rparr>, vs_traffic := sniffed, vs_rng := r2,
          vs_inner := j, vs_uplink_raw := True\<rparr>)"
    by (rule write_switches [OF assms(2) _ _ assms(4) _ _ _ i(1) j(1)])
      (use assms(3,5) m(3) c in \<open>simp_all add: padder_start wants_direct_def frame_bytes_def padder_new_def\<close>)
  then show thesis
    by (rule that) (use m(1) len j(2) assms(2) in \<open>simp_all add: padding_done_def\<close>)
qed

lemma shutdown_after_uplink_direct_skips_tls:
  assumes rng: "rng_ok rr"
  shows "shutdown_after_uplink_direct_skips_tls rr r"
proof -
  let ?c = "str ''bye''" and ?fr = "\<lambda>n. frame_bytes test_client_hello cmd_padding_continue n (Some test_uuid)"
  obtain n r1 i where h: "vs_write_all split_ops rr test_client_hello (vision_new test_split test_uuid r)
       = Some ((vision_new i test_uuid r1)\<lparr>vs_padder := padder_new test_uuid\<lparr>pd_uuid := None\<rparr>,
           vs_traffic := (plain 7)\<lparr>is_tls := True\<rparr>\<rparr>)" "both_roomy 8 (?fr n) 9 [] i"
    by (rule hello_sent [OF rng])
  let ?v = "(vision_new i test_uuid r1)\<lparr>vs_padder := padder_new test_uuid\<lparr>pd_uuid := None\<rparr>, vs_traffic := sniffed\<rparr>"
  obtain m w where w: "vs_write_all split_ops rr test_app_data ?v = Some w" "vs_write_pending w = []" "padding_done (vs_padder w)"
    "vs_uplink_raw w" "both_roomy 6 (?fr n @ frame_bytes test_app_data cmd_padding_direct m None) 9 [] (vs_inner w)"
    by (rule app_data_switches [OF rng, of ?v "?fr n"]) (use h(2) in \<open>simp_all add: vision_new_def\<close>)
  let ?b = "?fr n @ frame_bytes test_app_data cmd_padding_direct m None"
  obtain j where j: "so_write_direct split_ops ?c (vs_inner w) = (Ready (Inr (length ?c)), j)" "both_roomy 6 ?b 8 ?c j"
    using raw_write [of 6 ?b 8 "[]" "vs_inner w" ?c] w(5) by auto
  let ?x = "w\<lparr>vs_traffic := traffic_filter (vs_traffic w) ?c, vs_inner := j\<rparr>"
  have x: "vs_write_all split_ops rr ?c w = Some ?x" by (rule behind_switch(1) [OF w(2-4) j(1)])
  from j(2) have "both_roomy 6 ?b (Suc 7) ?c j" by simp
  then obtain k where k: "so_shutdown_direct split_ops j = (Ready (Inr ()), k)" "roomy 6 ?b (sp_tls k)" "shut_as ?c (sp_raw k)"
    using both_shutdown(2) by blast
  have "vs_shutdown split_ops ?x = Some (?x\<lparr>vs_inner := k\<rparr>)"
    by (rule behind_switch(3)) (use w(2-4) k(1) in simp_all)
  then show ?thesis
    using k(2,3) w(1) x by (simp add: shutdown_after_uplink_direct_skips_tls_def h(1) shut_as_def roomy_def Let_def del: str_Cons)
qed

lemma uplink_direct_switches_writes_to_raw_socket:
  assumes rng: "rng_ok rr"
  shows "uplink_direct_switches_writes_to_raw_socket rr r"
proof -
  let ?c = "str ''raw uplink''" and ?fr = "\<lambda>n. frame_bytes test_client_hello cmd_padding_continue n (Some test_uuid)"
  let ?sh = "test_server_hello 0x1301 True" and ?u = "after_command unpadder_new cmd_padding_continue"
  obtain n r1 i where h: "vs_write_all split_ops rr test_client_hello (vision_new test_split test_uuid r)
       = Some ((vision_new i test_uuid r1)\<lparr>vs_padder := padder_new test_uuid\<lparr>pd_uuid := None\<rparr>,
           vs_traffic := (plain 7)\<lparr>is_tls := True\<rparr>\<rparr>)" "n < 65536" "length (?fr n) \<le> 1431" "both_roomy 8 (?fr n) 9 [] i"
     "dx_in (sp_tls i) = []"
    by (rule hello_sent [OF rng])
  have sl: "length ?sh = 93" by (simp add: test_server_hello_def Let_def u16_be_def)
  then have sl': "length ?sh \<le> 8171" "0 < length ?sh" by simp_all
  then have ne: "?sh \<noteq> []" by auto
  obtain m r2 where f: "xtls_padding rr r1 ?sh cmd_padding_continue (Some test_uuid) True = (frame_bytes ?sh cmd_padding_continue m (Some test_uuid), r2)"
    "length (frame_bytes ?sh cmd_padding_continue m (Some test_uuid)) \<le> 16384" "frame_bytes ?sh cmd_padding_continue m (Some test_uuid) \<noteq> []"
    "unpad unpadder_new (frame_bytes ?sh cmd_padding_continue m (Some test_uuid)) [] = (Inr (), ?u, [], ?sh)"
    by (rule test_split_frame [OF rng sl', of cmd_padding_continue r1 True]) (simp_all add: cmd_padding_continue_def)
  let ?f = "frame_bytes ?sh cmd_padding_continue m (Some test_uuid)"
  let ?i = "i\<lparr>sp_tls := peer_writes ?f (sp_tls i)\<rparr>"
  let ?v = "(vision_new ?i test_uuid r2)\<lparr>vs_padder := padder_new test_uuid\<lparr>pd_uuid := None\<rparr>, vs_traffic := (plain 7)\<lparr>is_tls := True\<rparr>\<rparr>"
  have vf: "vs_inner ?v = ?i" "vs_read_out ?v = []" "vs_read_raw ?v = []" "vs_unpadder ?v = unpadder_new" "vs_header ?v = already_consumed"
    by (simp_all add: new_stream)
  obtain v1 where v: "vs_read_exact split_ops 9 (length ?sh) ?v = Some (?sh, v1)"
    "v1 = behind_read split_ops ((vs_inner ?v)\<lparr>sp_tls := (sp_tls (vs_inner ?v))\<lparr>dx_in := []\<rparr>\<rparr>) already_consumed ?u [] ?sh (length ?sh) ?v"
    by (rule split_read_exact [where d = ?f and cs = "[]" and v = ?v and k = 9 and want = "length ?sh"
          and h = already_consumed and x = ?f and u = ?u and b = "[]" and out = ?sh])
      (use f(2-4) h(5) ne in \<open>simp_all add: peer_writes_def done_header new_stream\<close>)
  have nd: "\<not> (is_done ?u \<and> \<not> is_direct ?u)"
    by (simp add: after_command_def is_done_def is_direct_def cmd_padding_continue_def unpadder_new_def)
  have vr: "both_roomy 8 (?fr n) 9 [] (vs_inner v1)"
    using h(4) nd by (auto simp: v(2) behind_fields new_stream both_roomy_def roomy_def peer_writes_def)
  have vt: "vs_traffic v1 = sniffed" by (simp add: v(2) behind_fields)
  have vp: "vs_write_pending v1 = []" "vs_padder v1 = padder_new test_uuid\<lparr>pd_uuid := None\<rparr>" "\<not> vs_uplink_raw v1"
    by (simp_all add: v(2) behind_fields vision_new_def)
  obtain l w where w: "vs_write_all split_ops rr test_app_data v1 = Some w" "l < 65536"
    "length (frame_bytes test_app_data cmd_padding_direct l None) \<le> 1434" "vs_write_pending w = []" "padding_done (vs_padder w)"
    "vs_uplink_raw w" "both_roomy 6 (?fr n @ frame_bytes test_app_data cmd_padding_direct l None) 9 [] (vs_inner w)"
    by (rule app_data_switches [OF rng vp vt vr])
  let ?b = "?fr n @ frame_bytes test_app_data cmd_padding_direct l None"
  obtain j where j: "so_write_direct split_ops ?c (vs_inner w) = (Ready (Inr (length ?c)), j)" "both_roomy 6 ?b 8 ?c j"
    using raw_write [of 6 ?b 8 "[]" "vs_inner w" ?c] w(7) by auto
  let ?x = "w\<lparr>vs_traffic := traffic_filter (vs_traffic w) ?c, vs_inner := j\<rparr>"
  have x: "vs_write_all split_ops rr ?c w = Some ?x" by (rule behind_switch(1) [OF w(4-6) j(1)])
  from j(2) have "both_roomy 6 ?b (Suc 7) ?c j" by simp
  then obtain k where k: "so_flush_direct split_ops j = (Ready (Inr ()), k)" "both_roomy 6 ?b 7 ?c k"
    using both_flush(2) by blast
  have fl: "vs_flush split_ops ?x = Some (?x\<lparr>vs_inner := k\<rparr>)"
    by (rule behind_switch(2)) (use w(4-6) k(1) in simp_all)
  have "length ?b \<le> 8192" using h(3) w(3) by simp
  then have s: "take 8192 (sent (sp_tls k)) = ?b" "take 10 (sent (sp_raw k)) = ?c"
    using k(2) by (simp_all add: both_roomy_def roomy_def sent_def)
  let ?d = "after_command ?u cmd_padding_direct"
  have lens: "length test_client_hello < 65536" "length test_app_data < 65536"
    by (simp_all add: test_client_hello_def test_app_data_def)
  have "unpad unpadder_new ?b [] = unpad ?u (frame_bytes test_app_data cmd_padding_direct l None) test_client_hello"
    by (rule first_unpad) (simp_all add: lens h(2) cmd_padding_continue_def)
  also have "\<dots> = (Inr (), ?d, [], test_client_hello @ test_app_data)"
    by (rule unpad_one(2)) (simp_all add: lens w(2) after_command_def cmd_padding_continue_def cmd_padding_direct_def)
  finally have un: "unpad_all ?b = Some (?d, test_client_hello @ test_app_data)" by (simp add: unpad_all_def)
  have d: "is_direct ?d" by (simp add: after_command_def is_direct_def cmd_padding_direct_def)
  have ex: "enable_xtls sniffed"
    using sniff_test_hello [OF suites(1), of "(plain 7)\<lparr>is_tls := True\<rparr>" True] suites(3) by (simp add: plain_def traffic_new_def)
  have on: "on_inner (\<lambda>i. i\<lparr>sp_tls := peer_writes ?f (sp_tls i)\<rparr>) ((vision_new i test_uuid r1)\<lparr>vs_padder := padder_new test_uuid\<lparr>pd_uuid := None\<rparr>,
      vs_traffic := (plain 7)\<lparr>is_tls := True\<rparr>, vs_rng := r2\<rparr>) = ?v"
    by (simp add: on_inner_def vision_new_def)
  have rg: "vs_rng ((vision_new i test_uuid r1)\<lparr>vs_padder := padder_new test_uuid\<lparr>pd_uuid := None\<rparr>, vs_traffic := (plain 7)\<lparr>is_tls := True\<rparr>\<rparr>) = r1"
    by (simp add: vision_new_def)
  show ?thesis
    unfolding uplink_direct_switches_writes_to_raw_socket_def h(1) option.case Let_def rg f(1) prod.case on v(1) w(1) Option.bind.simps x fl
    using ex vt d s un by (simp del: str_Cons)
qed

end
