(* ===== verification/TestsRuntime.thy ===== *)
theory TestsRuntime
  imports TestsCodec RaceTiming DriverModel ServiceModel
begin

text \<open>
  The tests of \<^verbatim>\<open>src/net.rs\<close>, \<^verbatim>\<open>src/relay.rs\<close>, \<^verbatim>\<open>src/driver.rs\<close> and \<^verbatim>\<open>src/service.rs\<close>. What a
  test sets up around the code, a socket that refuses, a task that sleeps, a peer that closes,
  is here the list of events it makes happen.
\<close>

section \<open>Addresses and the cache\<close>

definition test_v4 :: "u8 \<Rightarrow> u16 \<Rightarrow> sock_addr" where
  "test_v4 final port = (v4_from [10, 0, 0, final], port)"

definition test_v6 :: "u16 \<Rightarrow> u16 \<Rightarrow> sock_addr" where
  "test_v6 final port = (v6_from ([0x20, 0x01, 0x0d, 0xb8] @ replicate 10 0 @ u16_be final), port)"

definition interleaves_address_families :: bool where
  "interleaves_address_families \<longleftrightarrow>
     interleave [test_v6 1 1, test_v6 2 1, test_v4 1 1, test_v4 2 1]
       = [test_v6 1 1, test_v4 1 1, test_v6 2 1, test_v4 2 1] \<and>
     interleave [test_v4 1 1, test_v4 2 1, test_v6 1 1] = [test_v4 1 1, test_v6 1 1, test_v4 2 1] \<and>
     interleave [test_v4 1 1, test_v4 2 1] = [test_v4 1 1, test_v4 2 1]"

lemma test_families: "\<not> is_ipv6 (fst (test_v4 n p))" "is_ipv6 (fst (test_v6 m q))"
  by (simp_all add: test_v4_def test_v6_def v4_from_def v6_from_def)

lemma interleaves_address_families: interleaves_address_families
  by (simp add: interleaves_address_families_def interleave_def test_families Let_def)

text \<open>
  A lookup that answers at once. Whether the cache makes one is seen by a lookup that does not
  come back.
\<close>

definition answers_at :: "nat \<Rightarrow> sock_addr list \<Rightarrow> lookup" where
  "answers_at now addrs entries = (Some (Inr addrs), entries, now)"

definition looks_up :: "dns_entries \<Rightarrow> bytes \<Rightarrow> u16 \<Rightarrow> nat \<Rightarrow> nat \<Rightarrow> nat" where
  "looks_up entries host port ttl now =
     (if fst (resolve_with entries host port ttl now (\<lambda>entries. (None, entries, now))) = None then 1 else 0)"

definition dns_cache_reuses_until_invalidated_or_expired :: "nat \<Rightarrow> bool" where
  "dns_cache_reuses_until_invalidated_or_expired now \<longleftrightarrow>
     (let ex = str ''ex.com''; ttl = 100 * ms; addrs = [test_v4 1 443];
          later = now + ttl + 20 * ms;
          n1 = looks_up Map.empty ex 443 ttl now;
          (got, c1) = resolve_with Map.empty ex 443 ttl now (answers_at now addrs);
          n2 = n1 + looks_up c1 ex 443 ttl now;
          (_, c2) = resolve_with c1 ex 443 ttl now (answers_at now addrs);
          c3 = invalidate ex 443 c2;
          n3 = n2 + looks_up c3 ex 443 ttl now;
          (_, c4) = resolve_with c3 ex 443 ttl now (answers_at now addrs);
          n4 = n3 + looks_up c4 ex 443 ttl later
      in got = Some (Inr addrs) \<and> n2 = 1 \<and> n3 = 2 \<and> n4 = 3)"

lemma dns_cache_reuses_until_invalidated_or_expired: "dns_cache_reuses_until_invalidated_or_expired now"
  by (simp add: dns_cache_reuses_until_invalidated_or_expired_def looks_up_def resolve_with_def answers_at_def
      invalidate_def ms_def Let_def del: str_Cons)

definition ip_literal_skips_dns :: bool where
  "ip_literal_skips_dns \<longleftrightarrow>
     (let silent = \<lambda>entries. (None, entries, 0) in
      fst (resolve Map.empty (str ''127.0.0.1'') 8444 0 silent) = Some (Inr [(v4_from [127, 0, 0, 1], 8444)]) \<and>
      fst (resolve Map.empty (str ''::1'') 8444 0 silent) = Some (Inr [(v6_from (replicate 15 0 @ [1]), 8444)]))"

lemma loopback_ip: "parse_ip (str ''127.0.0.1'') = Some (v4_from [127, 0, 0, 1])"
  by (simp add: parse_ip_def read_number_def read_separator_def digit_def read_v6_def groups_numeral u16_be_def Let_def)

lemma ip_literal_skips_dns: ip_literal_skips_dns
proof -
  have "parse_ip (str ''::1'') = Some (v6_from (replicate 15 0 @ [1]))"
  proof -
    have "replicate 14 0 @ [0, 1 :: u8] = replicate 15 0 @ [1]" by code_simp
    then show ?thesis using parse_ip_samples(4) by metis
  qed
  then show ?thesis
    by (simp add: loopback_ip ip_literal_skips_dns_def resolve_def Let_def del: str_Cons replicate.simps replicate_Suc)
qed

section \<open>The race and dialling\<close>

text \<open>
  \<^verbatim>\<open>connect_any\<close> with a clock in milliseconds: the winner and when it won, for a list of events with the
  times between them.
\<close>

definition race_won :: "nat \<Rightarrow> sock_addr list \<Rightarrow> (nat \<times> 'c race_event) list \<Rightarrow> (io_error + sock_addr \<times> 'c) option \<times> nat" where
  "race_won delay addrs evs =
     (let tr = run (timed_event delay) (timed_start addrs) evs in (rc_result (tr_race tr), tr_now tr))"

definition slow_address_does_not_block_the_next :: bool where
  "slow_address_does_not_block_the_next \<longleftrightarrow>
     (case race_won 50 [test_v4 1 1, test_v4 2 1] [(50, Elapsed), (0, Joined 1 (Conn (test_v4 2 1)))] of
        (Some (Inr (_, c)), elapsed) \<Rightarrow> c = test_v4 2 1 \<and> 50 \<le> elapsed \<and> elapsed < 1000
      | _ \<Rightarrow> False)"

definition refused_address_falls_through_immediately :: "io_error \<Rightarrow> bool" where
  "refused_address_falls_through_immediately e \<longleftrightarrow>
     (case race_won 5000 [test_v4 1 1, test_v4 2 1] [(0, Joined 0 (Failed e)), (0, Joined 0 (Conn (test_v4 2 1)))] of
        (Some (Inr (_, c)), elapsed) \<Rightarrow> c = test_v4 2 1 \<and> elapsed < 1000
      | _ \<Rightarrow> False)"

definition all_addresses_failing_is_an_error :: "io_error \<Rightarrow> bool" where
  "all_addresses_failing_is_an_error e \<longleftrightarrow>
     (case race_won 50 [test_v4 1 1, test_v4 2 1] [(0, Joined 0 (Failed e)), (0, Joined 0 (Failed e) :: unit race_event)] of
        (Some (Inl _), _) \<Rightarrow> True | _ \<Rightarrow> False) \<and>
     (case race_won 50 [] ([] :: (nat \<times> unit race_event) list) of (Some (Inl _), _) \<Rightarrow> True | _ \<Rightarrow> False)"

lemmas race_script =
  race_won_def timed_start_def timed_event_def race_start_def race_top_def race_event_def drop_nth_def

lemma slow_address_does_not_block_the_next: slow_address_does_not_block_the_next
  by (simp add: slow_address_does_not_block_the_next_def race_script Let_def)

lemma refused_address_falls_through_immediately: "refused_address_falls_through_immediately e"
  by (simp add: refused_address_falls_through_immediately_def race_script Let_def)

lemma all_addresses_failing_is_an_error: "all_addresses_failing_is_an_error e"
  by (simp add: all_addresses_failing_is_an_error_def race_script Let_def)

text \<open>Dialling the loopback address, where nobody or somebody listens.\<close>

definition loopback_env :: "'c attempt_end \<Rightarrow> u64 \<Rightarrow> nat \<Rightarrow> 'c dial_env" where
  "loopback_env r connect_limit k =
     \<lparr>de_before = id, de_during = id, de_now = 0, de_lookup = (\<lambda>entries. (None, entries, 0)),
      de_events = [Joined 0 r], de_nodelay = Inr (), de_keepalive = Inr ()\<rparr>"

fun slept_ms :: "'c dial_act \<Rightarrow> nat" where
  "slept_ms (Slept n) = n"
| "slept_ms _ = 0"

definition dial_unreachable_errors_after_retries :: "io_error \<Rightarrow> bool" where
  "dial_unreachable_errors_after_retries e \<longleftrightarrow>
     isl (fst (dial (str ''127.0.0.1'') 1 200 1 (loopback_env (Failed e :: unit attempt_end)) Map.empty))"

definition dial_backs_off_between_retries :: "io_error \<Rightarrow> bool" where
  "dial_backs_off_between_retries e \<longleftrightarrow>
     (case dial (str ''127.0.0.1'') 1 200 2 (loopback_env (Failed e :: unit attempt_end)) Map.empty of
        (r, _, acts) \<Rightarrow> isl r \<and> 600 \<le> sum_list (map slept_ms acts))"

definition dial_localhost_succeeds :: "u16 \<Rightarrow> bool" where
  "dial_localhost_succeeds port \<longleftrightarrow>
     (case dial (str ''127.0.0.1'') port 1000 1 (loopback_env (Conn ())) Map.empty of
        (r, _, acts) \<Rightarrow> r = Inr () \<and> NodelaySet \<in> set acts \<and> (\<exists>a \<in> set acts. a = KeepaliveSet keepalive))"

lemma loopback_attempt:
  "dial_attempt (str ''127.0.0.1'') port (loopback_env (Failed e) l k) entries = (AttemptFailed e, entries)"
  "dial_attempt (str ''127.0.0.1'') port (loopback_env (Conn c) l k) entries = (Connected c, entries)"
  by (simp_all add: loopback_ip dial_attempt_def loopback_env_def resolve_def interleave_def connect_any_def
      race_start_def race_top_def race_event_def drop_nth_def Let_def del: str_Cons)

lemma dial_unreachable_errors_after_retries: "dial_unreachable_errors_after_retries e"
  by (simp add: dial_unreachable_errors_after_retries_def dial_def dial_from.simps loopback_attempt Let_def del: str_Cons)

lemma dial_backs_off_between_retries: "dial_backs_off_between_retries e"
  by (simp add: dial_backs_off_between_retries_def dial_def dial_from.simps loopback_attempt Let_def del: str_Cons)

lemma dial_localhost_succeeds: "dial_localhost_succeeds port"
proof -
  have "de_nodelay (loopback_env r l k) = Inr ()" "de_keepalive (loopback_env r l k) = Inr ()" for r :: "unit attempt_end" and l k
    by (simp_all add: loopback_env_def)
  then show ?thesis
    by (simp add: dial_localhost_succeeds_def dial_def dial_from.simps loopback_attempt del: str_Cons)
qed

section \<open>The relay\<close>

definition long_timeouts :: timeouts where
  "long_timeouts = \<lparr>tm_idle = 10000 * ms, tm_half_close = 10000 * ms\<rparr>"

definition short_timeouts :: timeouts where
  "short_timeouts = \<lparr>tm_idle = 100 * ms, tm_half_close = 50 * ms\<rparr>"

text \<open>A chunk that is read, written at once and flushed; an end that is passed on.\<close>

definition chunk_at :: "nat \<Rightarrow> dir \<Rightarrow> bytes \<Rightarrow> (nat \<times> relay_event) list" where
  "chunk_at at d b = [(at, Io d (Got (Inr b))), (at, Io d (Took (Inr (length b)))), (at, Io d (Flushed (Inr ())))]"

definition end_at :: "nat \<Rightarrow> dir \<Rightarrow> (nat \<times> relay_event) list" where
  "end_at at d = [(at, Io d (Got (Inr []))), (at, Io d (Shut (Inr ())))]"

definition relayed :: "timeouts \<Rightarrow> (nat \<times> relay_event) list \<Rightarrow> relay" where
  "relayed t = run (relay_step t) (relay_start t)"

definition relays_both_directions :: bool where
  "relays_both_directions \<longleftrightarrow>
     (let r = relayed long_timeouts (chunk_at 0 Up (str ''ping'') @ chunk_at 0 Down (str ''pong'')) in
      rl_written r Up = str ''ping'' \<and> rl_written r Down = str ''pong'')"

text \<open>The duplex stream of the next test holds 16 KiB: so much is read at most at a time.\<close>

function chop :: "nat \<Rightarrow> bytes \<Rightarrow> bytes list" where
  "chop n b = (if b = [] \<or> n = 0 then [] else take n b # chop n (drop n b))"
  by pat_completeness auto
termination by (relation "measure (\<lambda>(n, b). length b)") auto

declare chop.simps [simp del]

definition relays_payload_larger_than_buffer :: bool where
  "relays_payload_larger_than_buffer \<longleftrightarrow>
     (let payload = map (\<lambda>i. of_nat (i mod 251)) [0 ..< 300 * 1024];
          r = relayed long_timeouts (concat (map (chunk_at 0 Up) (chop (16 * 1024) payload)) @ end_at 0 Up)
      in rl_written r Up = payload \<and> rl_pump r Up = Returned)"

definition finishes_when_one_side_closes :: bool where
  "finishes_when_one_side_closes \<longleftrightarrow>
     (let r = relayed long_timeouts (chunk_at 0 Up (str ''bye'') @ end_at 0 Up);
          r' = run (relay_step long_timeouts) r (end_at 0 Down)
      in rl_written r Up = str ''bye'' \<and> rl_pump r Up = Returned \<and> rl_result r = None \<and> rl_result r' = Some (Inr ()))"

definition idle_connection_is_closed :: "nat \<Rightarrow> bool" where
  "idle_connection_is_closed early \<longleftrightarrow>
     (let r = relayed short_timeouts [(early, TimerFired)];
          r' = run (relay_step short_timeouts) r [(tm_idle short_timeouts, TimerFired)]
      in (early < tm_idle short_timeouts \<longrightarrow> rl_result r = None) \<and> rl_result r' = Some (Inr ()))"

definition activity_keeps_connection_alive :: bool where
  "activity_keeps_connection_alive \<longleftrightarrow>
     (let r = relayed short_timeouts
                (concat (map (\<lambda>k. chunk_at (60 * ms * k) Up (str ''x'') @ [(60 * ms * k + 40 * ms, TimerFired)]) [1 ..< 6])
                 @ chunk_at (60 * ms * 6) Up (str ''x''));
          r' = run (relay_step short_timeouts) r [(rl_sleep r, TimerFired), (60 * ms * 6 + 100 * ms, TimerFired)]
      in rl_result r = None \<and> rl_written r Up = str ''xxxxxx'' \<and> rl_result r' = Some (Inr ()))"

definition half_closed_connection_uses_short_timeout :: bool where
  "half_closed_connection_uses_short_timeout \<longleftrightarrow>
     (let t = \<lparr>tm_idle = 10000 * ms, tm_half_close = 50 * ms\<rparr>;
          r = relayed t (end_at 0 Up @ [(0, Notified), (50 * ms, TimerFired)])
      in rl_result r = Some (Inr ()) \<and> rl_now r < 2000 * ms)"

lemma relay_begins:
  assumes "0 < tm_idle t"
  shows "relay_start t = \<lparr>rl_pump = (\<lambda>_. Reading), rl_activity = activity_new, rl_sleep = tm_idle t, rl_result = None,
     rl_now = 0, rl_read = (\<lambda>_. []), rl_written = (\<lambda>_. []), rl_last = 0, rl_timed_out = False\<rparr>"
  using assms by (simp add: relay_start_def watchdog_def deadline_def activity_new_def Let_def)

lemma chunk_relayed:
  assumes "rl_result r = None" and "rl_pump r d = Reading" and "b \<noteq> []" and "length b \<le> relay_buf" and "rl_now r \<le> at"
  shows "run (relay_step t) r (chunk_at at d b) =
     r\<lparr>rl_now := at, rl_activity := touch at (rl_activity r), rl_read := (rl_read r)(d := rl_read r d @ b),
       rl_written := (rl_written r)(d := rl_written r d @ b), rl_last := at\<rparr>"
proof -
  have p: "(rl_pump r)(d := Reading) = rl_pump r" using assms(2) by (metis fun_upd_triv)
  show ?thesis
    using assms p by (cases r; cases d) (simp_all add: chunk_at_def relay_step_def relay_io_def max_def Let_def)
qed

lemma chunks_relayed:
  assumes "rl_result r = None" and "rl_pump r d = Reading" and "\<forall>b \<in> set bs. b \<noteq> [] \<and> length b \<le> relay_buf" and "rl_now r \<le> at"
  shows "\<exists>r'. run (relay_step t) r (concat (map (chunk_at at d) bs)) = r' \<and> rl_result r' = None \<and> rl_pump r' = rl_pump r \<and>
     rl_written r' = (rl_written r)(d := rl_written r d @ concat bs) \<and> rl_now r' \<le> at"
  using assms
proof (induction bs arbitrary: r)
  case (Cons b bs)
  let ?r = "r\<lparr>rl_now := at, rl_activity := touch at (rl_activity r), rl_read := (rl_read r)(d := rl_read r d @ b),
       rl_written := (rl_written r)(d := rl_written r d @ b), rl_last := at\<rparr>"
  have "run (relay_step t) r (chunk_at at d b) = ?r" by (rule chunk_relayed) (use Cons.prems in auto)
  then show ?case using Cons.IH [of ?r] Cons.prems by (simp add: run_append fun_upd_def cong: if_cong)
qed simp

lemma concat_chop: "0 < n \<Longrightarrow> concat (chop n b) = b"
  and chop_pieces: "0 < n \<Longrightarrow> \<forall>x \<in> set (chop n b). x \<noteq> [] \<and> length x \<le> n"
  by (induction n b rule: chop.induct; subst chop.simps; simp)+

lemma limits: "0 < tm_idle long_timeouts" "0 < tm_idle short_timeouts"
  by (simp_all add: long_timeouts_def short_timeouts_def ms_def)

lemma short_limits: "tm_idle short_timeouts = 100 * ms" "tm_half_close short_timeouts = 50 * ms"
  by (simp_all add: short_timeouts_def)

lemma relays_both_directions: relays_both_directions
  unfolding relays_both_directions_def Let_def relayed_def run_append
  by (simp add: chunk_relayed relay_begins [OF limits(1)] relay_buf_def)

text \<open>A payload of any length, read in pieces of any size.\<close>

lemma payload_relayed:
  assumes "0 < n" and "n \<le> relay_buf"
  shows "rl_written (relayed long_timeouts (concat (map (chunk_at 0 Up) (chop n payload)) @ end_at 0 Up)) Up = payload \<and>
    rl_pump (relayed long_timeouts (concat (map (chunk_at 0 Up) (chop n payload)) @ end_at 0 Up)) Up = Returned"
proof -
  have "\<forall>b \<in> set (chop n payload). b \<noteq> [] \<and> length b \<le> relay_buf"
    using chop_pieces [OF assms(1), of payload] assms(2) by fastforce
  then obtain r where r: "relayed long_timeouts (concat (map (chunk_at 0 Up) (chop n payload))) = r"
    "rl_result r = None" "rl_pump r = (\<lambda>_. Reading)" "rl_written r = (\<lambda>_. [])(Up := payload)" "rl_now r = 0"
    using chunks_relayed [of "relay_start long_timeouts" Up "chop n payload" 0 long_timeouts]
    by (auto simp: relay_begins [OF limits(1)] concat_chop [OF assms(1)] relayed_def)
  then show ?thesis
    unfolding relayed_def run_append by (simp add: end_at_def relay_step_def relay_io_def Let_def)
qed

lemma relays_payload_larger_than_buffer: relays_payload_larger_than_buffer
  unfolding relays_payload_larger_than_buffer_def Let_def
  by (rule payload_relayed) (simp_all add: relay_buf_def)

lemma finishes_when_one_side_closes: finishes_when_one_side_closes
  unfolding finishes_when_one_side_closes_def Let_def relayed_def run_append
  by (simp add: chunk_relayed relay_begins [OF limits(1)] relay_buf_def end_at_def relay_step_def relay_io_def Let_def)

lemma idle_connection_is_closed: "idle_connection_is_closed early"
  by (simp add: idle_connection_is_closed_def relayed_def relay_begins [OF limits(2)] relay_step_def watchdog_def deadline_def
      activity_new_def short_limits max_def ms_def Let_def)

text \<open>The rounds of the test: \<open>k\<close> bytes have been relayed, the last at \<open>60 k\<close> milliseconds.\<close>

definition awake :: "nat \<Rightarrow> relay \<Rightarrow> bool" where
  "awake k r \<longleftrightarrow> rl_result r = None \<and> rl_pump r Up = Reading \<and> ac_last_ms (rl_activity r) = of_nat (60 * k) \<and>
     \<not> ac_half_closed (rl_activity r) \<and> rl_now r \<le> 60 * ms * k + 40 * ms \<and> rl_written r Up = replicate k 120 \<and>
     rl_sleep r \<le> 60 * ms * k + 100 * ms"

lemma awake_chunk:
  assumes "awake k r"
  shows "awake (Suc k) (run (relay_step short_timeouts) r (chunk_at (60 * ms * Suc k) Up (str ''x'')))"
proof -
  have "60 * ms * Suc k div ms = 60 * Suc k" by (simp add: ms_def)
  then show ?thesis
    using assms by (subst chunk_relayed) (auto simp: awake_def relay_buf_def touch_def ms_def replicate_append_same)
qed

lemma awake_timer:
  assumes "awake k r" and "k < 100"
  shows "awake k (relay_step short_timeouts r (60 * ms * k + 40 * ms, TimerFired))"
proof -
  have "unat (of_nat (60 * k) :: u64) = 60 * k" by (subst unat_of_nat) (use assms(2) in simp)
  then have "deadline short_timeouts (rl_activity r) = 60 * ms * k + 100 * ms"
    using assms(1) by (simp add: awake_def deadline_def short_limits)
  then show ?thesis
    using assms by (simp add: awake_def relay_step_def watchdog_def max_def Let_def ms_def)
qed

lemma awake_rounds:
  assumes "n < 100"
  shows "awake n (relayed short_timeouts
    (concat (map (\<lambda>k. chunk_at (60 * ms * k) Up (str ''x'') @ [(60 * ms * k + 40 * ms, TimerFired)]) [1 ..< Suc n])))"
  using assms
proof (induction n)
  case 0
  then show ?case
    by (simp add: relayed_def awake_def relay_begins [OF limits(2)] activity_new_def short_limits)
next
  case (Suc n)
  then show ?case
    using awake_timer [OF awake_chunk [OF Suc.IH], of] by (simp add: relayed_def run_append del: str_Cons)
qed

lemma activity_keeps_connection_alive: activity_keeps_connection_alive
proof -
  let ?es = "concat (map (\<lambda>k. chunk_at (60 * ms * k) Up (str ''x'') @ [(60 * ms * k + 40 * ms, TimerFired)]) [1 ..< 6])"
  define r where "r = relayed short_timeouts (?es @ chunk_at (60 * ms * 6) Up (str ''x''))"
  have "awake 5 (relayed short_timeouts ?es)" using awake_rounds [of 5] by simp
  from awake_chunk [OF this] have a: "awake 6 r" by (simp add: r_def relayed_def run_append del: str_Cons)
  have dl: "deadline short_timeouts (rl_activity r) = 460 * ms"
    using a by (simp add: awake_def deadline_def short_limits)
  have "rl_result (run (relay_step short_timeouts) r [(rl_sleep r, TimerFired), (60 * ms * 6 + 100 * ms, TimerFired)]) = Some (Inr ())"
    using a dl by (auto simp: awake_def relay_step_def watchdog_def max_def Let_def ms_def)
  moreover have "rl_result r = None" "rl_written r Up = str ''xxxxxx''" using a by (simp_all add: awake_def numeral_eq_Suc)
  ultimately show ?thesis
    unfolding activity_keeps_connection_alive_def Let_def r_def by simp
qed

lemma half_closed_connection_uses_short_timeout: half_closed_connection_uses_short_timeout
  by (simp add: half_closed_connection_uses_short_timeout_def relayed_def relay_begins end_at_def relay_step_def relay_io_def
      watchdog_def deadline_def activity_new_def half_close_def touch_def ms_def max_def Let_def)

section \<open>The accept loop\<close>

text \<open>
  A client that was accepted and sends its greeting gets the method; one that waits in the
  backlog does not. \<open>driver_raw\<close> is \<^verbatim>\<open>CONFIG\<close>.
\<close>

definition driver_raw :: raw_config where
  "driver_raw =
     raw_sample\<lparr>raw_inbound_of := (raw_inbound_of raw_sample)\<lparr>raw_max_connections := 1\<rparr>,
       raw_outbound_of := (raw_outbound_of raw_sample)\<lparr>raw_server := str ''127.0.0.1'', raw_out_port := 9\<rparr>,
       raw_timeout_of := default_timeout\<rparr>"

definition greeted :: "bool \<Rightarrow> bool" where
  "greeted accepted \<longleftrightarrow>
     accepted \<and> take 2 (c_out (snd (handshake (peer_sends [0x05, 0x01, 0x00])))) = [0x05, 0x00]"

definition max_connections_pauses_accept_until_a_slot_frees :: bool where
  "max_connections_pauses_accept_until_a_slot_frees \<longleftrightarrow>
     (case parse (\<lambda>_. Inr driver_raw) [] of
        Inl _ \<Rightarrow> False
      | Inr cfg \<Rightarrow>
          let s0 = serve_start (max_connections (cfg_inbound cfg));
              s1 = run serve_step s0 [Granted, Accepted];
              s2 = run serve_step s1 [Granted, Accepted];
              s3 = run serve_step s2 [ConnectionEnds];
              s4 = run serve_step s3 [Granted, Accepted]
          in greeted (sv_active s0 < sv_active s1) \<and> \<not> greeted (sv_active s1 < sv_active s2) \<and>
             greeted (sv_active s3 < sv_active s4))"

lemma max_connections_pauses_accept_until_a_slot_frees: max_connections_pauses_accept_until_a_slot_frees
proof -
  have "greeted True" by (simp add: greeted_def socks_defs)
  moreover have "\<not> greeted False" by (simp add: greeted_def)
  moreover obtain cfg where "parse (\<lambda>_. Inr driver_raw) [] = Inr cfg" "max_connections (cfg_inbound cfg) = 1"
    by (auto simp: parse_def driver_raw_def raw_sample_def try_from_raw_def sample_fields sample_key Let_def
        simp del: str_Cons)
  ultimately show ?thesis
    by (simp add: max_connections_pauses_accept_until_a_slot_frees_def serve_start_def serve_top_def release_def Let_def)
qed

section \<open>The service\<close>

text \<open>The parsed form of \<^verbatim>\<open>CFG\<close>; its text is whatever the TOML parser reads so.\<close>

definition service_raw :: raw_config where
  "service_raw =
     raw_sample\<lparr>raw_log_of := \<lparr>raw_level = str ''warn''\<rparr>,
       raw_inbound_of := (raw_inbound_of raw_sample)\<lparr>raw_in_port := 0\<rparr>,
       raw_outbound_of := (raw_outbound_of raw_sample)\<lparr>raw_server := str ''127.0.0.1'', raw_out_port := 9\<rparr>\<rparr>"

definition start_returns_bound_port :: "(bytes \<Rightarrow> toml_error + raw_config) \<Rightarrow> os \<Rightarrow> bytes \<Rightarrow> bool" where
  "start_returns_bound_port from_str os cfg \<longleftrightarrow>
     (case start from_str os cfg service_init of
        (Inl _, _) \<Rightarrow> False
      | (Inr port, s) \<Rightarrow> 0 < port \<and> port \<in> sv_bound s \<and> fst (stop s))"

definition start_twice_fails_until_stopped :: "(bytes \<Rightarrow> toml_error + raw_config) \<Rightarrow> os \<Rightarrow> bytes \<Rightarrow> bool" where
  "start_twice_fails_until_stopped from_str os cfg \<longleftrightarrow>
     (let (first, s) = start from_str os cfg service_init;
          (second, s) = start from_str os cfg s;
          (stopped, s) = stop s;
          (third, s) = start from_str os cfg s
      in \<not> isl first \<and> isl second \<and> stopped \<and> \<not> isl third \<and> fst (stop s))"

definition stop_is_idempotent :: bool where
  "stop_is_idempotent \<longleftrightarrow> (let (first, s) = stop service_init; (second, s) = stop s in first \<and> second)"

definition start_rejects_bad_config :: "(bytes \<Rightarrow> toml_error + raw_config) \<Rightarrow> os \<Rightarrow> bytes \<Rightarrow> bool" where
  "start_rejects_bad_config from_str os cfg \<longleftrightarrow>
     (let (bad, s) = start from_str os (str ''not toml'') service_init;
          (good, s) = start from_str os cfg s
      in isl bad \<and> \<not> isl good \<and> fst (stop s))"

text \<open>An operating system that grants port 0: some port that is not zero.\<close>

definition grants_ports :: "os \<Rightarrow> bool" where
  "grants_ports os \<longleftrightarrow> os_runtime os = Inr () \<and> os_local_addr os = Inr () \<and>
     (\<forall>bound ip. \<exists>q. os_bind os bound ip 0 = Inr q \<and> 0 < q)"

lemma service_starts:
  assumes "from_str cfg = Inr service_raw" and "grants_ports os" and "sv_running s = None"
  obtains port where "start from_str os cfg s = (Inr port, \<lparr>sv_running = Some port, sv_bound = insert port (sv_bound s)\<rparr>)" "0 < port"
proof -
  obtain c where c: "parse from_str cfg = Inr c" "in_port (cfg_inbound c) = 0"
    using assms(1) by (auto simp: parse_def service_raw_def raw_sample_def try_from_raw_def sample_fields sample_key Let_def
        simp del: str_Cons)
  obtain q where "os_bind os (sv_bound s) (in_listen (cfg_inbound c)) 0 = Inr q" "0 < q"
    using assms(2) by (auto simp: grants_ports_def)
  with c assms show thesis by (intro that [of q]) (simp_all add: start_def grants_ports_def)
qed

lemma first_start:
  assumes "from_str cfg = Inr service_raw" and "grants_ports os"
  obtains p where "start from_str os cfg service_init = (Inr p, \<lparr>sv_running = Some p, sv_bound = {p}\<rparr>)" "0 < p"
  by (rule service_starts [of from_str cfg os service_init, OF assms]) (simp_all add: service_init_def that)

lemma start_returns_bound_port:
  assumes "from_str cfg = Inr service_raw" and "grants_ports os"
  shows "start_returns_bound_port from_str os cfg"
proof -
  obtain p where "start from_str os cfg service_init = (Inr p, \<lparr>sv_running = Some p, sv_bound = {p}\<rparr>)" "0 < p"
    by (rule first_start [of from_str cfg os, OF assms])
  then show ?thesis by (simp add: start_returns_bound_port_def stop_def)
qed

lemma start_twice_fails_until_stopped:
  assumes "from_str cfg = Inr service_raw" and "grants_ports os"
  shows "start_twice_fails_until_stopped from_str os cfg"
proof -
  obtain p where p: "start from_str os cfg service_init = (Inr p, \<lparr>sv_running = Some p, sv_bound = {p}\<rparr>)"
    by (rule first_start [of from_str cfg os, OF assms])
  obtain q where q: "start from_str os cfg \<lparr>sv_running = None, sv_bound = {p}\<rparr>
      = (Inr q, \<lparr>sv_running = Some q, sv_bound = {q, p}\<rparr>)"
    by (rule service_starts [of from_str cfg os "\<lparr>sv_running = None, sv_bound = {p}\<rparr>", OF assms]) simp_all
  have "start from_str os cfg \<lparr>sv_running = Some p, sv_bound = {p}\<rparr>
      = (Inl (Custom service_module already_running), \<lparr>sv_running = Some p, sv_bound = {p}\<rparr>)"
    by (simp add: start_def)
  with p q show ?thesis by (simp add: start_twice_fails_until_stopped_def stop_def)
qed

lemma stop_is_idempotent: stop_is_idempotent
  by (simp add: stop_is_idempotent_def stop_def)

lemma start_rejects_bad_config:
  assumes "from_str cfg = Inr service_raw" and "from_str (str ''not toml'') = Inl e" and "grants_ports os"
  shows "start_rejects_bad_config from_str os cfg"
proof -
  have "start from_str os (str ''not toml'') service_init = (Inl (describe_toml_error e (str ''not toml'')), service_init)"
    using assms(2) by (simp add: start_def service_init_def parse_def del: str_Cons)
  moreover obtain p where "start from_str os cfg service_init = (Inr p, \<lparr>sv_running = Some p, sv_bound = {p}\<rparr>)"
    by (rule first_start [of from_str cfg os, OF assms(1,3)])
  ultimately show ?thesis by (simp add: start_rejects_bad_config_def stop_def del: str_Cons)
qed

end
