(* ===== verification/TestsReality.thy ===== *)
theory TestsReality
  imports RealityServer
begin

text \<open>
  The tests of \<^verbatim>\<open>src/outbound/reality.rs\<close>: those of the ClientHello, of the key shares and of the
  authentication data. The cryptography is a parameter, and so is rustls; what a test relies on in them is a
  hypothesis of its lemma.
\<close>

section \<open>The ClientHello of a test\<close>

definition emit_hello ::
  "crypto \<Rightarrow> (nat \<Rightarrow> unit + bytes) \<Rightarrow> rustls \<Rightarrow> bytes \<Rightarrow> bytes \<Rightarrow> bytes \<Rightarrow> bytes \<Rightarrow> (nat \<times> bytes) option \<Rightarrow> (bytes \<times> bytes list) option" where
  "emit_hello cr fb new_conn mlkem_pub sni seed kx_secret replace =
     (case with_script cr fb seed kx_secret (PubOnly mlkem_pub) replace (new_conn (client_config (replicate 32 0)) sni) of
        (Inr (Inr records), calls) \<Rightarrow>
          (case client_hello_body records of Inr hello \<Rightarrow> Some (hello, calls) | Inl _ \<Rightarrow> None)
      | _ \<Rightarrow> None)"

lemma emit_hello_Some:
  assumes "emit_hello cr fb new_conn pub sni seed sec rep = Some (hello, calls)"
  obtains records where
    "with_script cr fb seed sec (PubOnly pub) rep (new_conn (client_config (replicate 32 0)) sni) = (Inr (Inr records), calls)"
    "client_hello_body records = Inr hello"
  using assms by (auto simp: emit_hello_def split: prod.splits sum.splits)

section \<open>The tests of the ClientHello\<close>

text \<open>
  A test is given the bytes rustls writes for its seed and secret; where rustls fails the test does too.
\<close>

definition client_hello_offers_browser_alpn :: "(bytes \<times> bytes list) option \<Rightarrow> bool" where
  "client_hello_offers_browser_alpn emitted \<longleftrightarrow>
     (case emitted of
        None \<Rightarrow> False
      | Some (hello, _) \<Rightarrow>
          extension hello 0x0010 = Some (Some ([0x00, 0x0c, 0x02] @ str ''h2'' @ [0x08] @ str ''http/1.1'')))"

definition key_shares_pass_reality_server_selection :: "crypto \<Rightarrow> bytes \<Rightarrow> (bytes \<times> bytes list) option \<Rightarrow> bool" where
  "key_shares_pass_reality_server_selection cr secret emitted \<longleftrightarrow>
     (case emitted of
        None \<Rightarrow> False
      | Some (hello, _) \<Rightarrow>
          (case key_shares hello of
             None \<Rightarrow> False
           | Some shares \<Rightarrow>
               let expect = cr_x25519 cr secret (cr_base cr) in
               map fst shares = [0x11ec, 0x001d] \<and> drop 1184 (snd (shares ! 0)) = expect \<and>
               reality_server_peer_pub shares = Some expect))"

definition session_id_draw_is_locatable :: "(bytes \<times> bytes list) option \<Rightarrow> bool" where
  "session_id_draw_is_locatable emitted \<longleftrightarrow>
     (case emitted of
        None \<Rightarrow> False
      | Some (hello, calls) \<Rightarrow>
          (case locate_session_id_call hello calls of Inl _ \<Rightarrow> False | Inr idx \<Rightarrow> length (calls ! idx) = session_id_len))"

definition replacing_session_id_draw_changes_only_session_id ::
  "((nat \<times> bytes) option \<Rightarrow> (bytes \<times> bytes list) option) \<Rightarrow> bool" where
  "replacing_session_id_draw_changes_only_session_id emit \<longleftrightarrow>
     (case emit None of
        None \<Rightarrow> False
      | Some (hello_a, calls) \<Rightarrow>
          (case locate_session_id_call hello_a calls of
             Inl _ \<Rightarrow> False
           | Inr idx \<Rightarrow>
               let ciphertext = replicate session_id_len 0xAB in
               (case emit (Some (idx, ciphertext)) of
                  None \<Rightarrow> False
                | Some (hello_b, _) \<Rightarrow>
                    length hello_a = length hello_b \<and>
                    slice session_id_offset (session_id_offset + session_id_len) hello_b = ciphertext \<and>
                    aad_from_hello hello_a = aad_from_hello hello_b)))"

lemma client_hello_offers_browser_alpn:
  assumes "lists_offers new_conn" and "emit_hello cr fb new_conn pub sni seed sec None = Some e"
    and "length pub = 1184" and "length (cr_x25519 cr sec (cr_base cr)) = 32"
  shows "client_hello_offers_browser_alpn (emit_hello cr fb new_conn pub sni seed sec None)"
proof -
  obtain hello calls where e: "e = (hello, calls)" by fastforce
  obtain records where r: "with_script cr fb seed sec (PubOnly pub) None (new_conn (client_config (replicate 32 0)) sni)
      = (Inr (Inr records), calls)" "client_hello_body records = Inr hello"
    by (rule emit_hello_Some [OF assms(2) [unfolded e]])
  have "extension hello 0x0010 = Some (Some (alpn_data (cc_alpn (client_config (replicate 32 0)))))"
    by (rule hello_offers(2) [OF assms(1) r]) (simp_all add: assms)
  moreover have "alpn_data (cc_alpn (client_config (replicate 32 0))) = [0x00, 0x0c, 0x02] @ str ''h2'' @ [0x08] @ str ''http/1.1''"
    by (simp add: client_config_def alpn_data_def u16_be_def Let_def)
  ultimately show ?thesis by (simp add: client_hello_offers_browser_alpn_def assms(2) e)
qed

lemma key_shares_pass_reality_server_selection:
  assumes "lists_offers new_conn" and "emit_hello cr fb new_conn pub sni seed sec None = Some e"
    and "length pub = 1184" and "length (cr_x25519 cr sec (cr_base cr)) = 32"
  shows "key_shares_pass_reality_server_selection cr sec (emit_hello cr fb new_conn pub sni seed sec None)"
proof -
  obtain hello calls where e: "e = (hello, calls)" by fastforce
  obtain records where r: "with_script cr fb seed sec (PubOnly pub) None (new_conn (client_config (replicate 32 0)) sni)
      = (Inr (Inr records), calls)" "client_hello_body records = Inr hello"
    by (rule emit_hello_Some [OF assms(2) [unfolded e]])
  let ?c = "cr_x25519 cr sec (cr_base cr)"
  let ?g = "cc_groups (client_config (replicate 32 0))"
  have "key_shares hello = Some (offered ?g (pub @ ?c) ?c)"
    using hello_offers(1) [OF assms(1) r] assms(3,4) by simp
  moreover have "reality_server_peer_pub (offered ?g (pub @ ?c) ?c) = Some ?c"
    by (rule peer_pub_offered) (simp_all add: assms)
  ultimately show ?thesis
    unfolding provider_offers by (simp add: key_shares_pass_reality_server_selection_def assms(2,3) e Let_def)
qed

text \<open>The draw of the session id: by the way rustls copies it.\<close>

lemma emitted_session_id:
  assumes "copies_session_id (new_conn (client_config (replicate 32 0)) sni) k"
    and "emit_hello cr fb new_conn pub sni seed sec None = Some (hello, calls)" and "distinct calls"
  shows "locate_session_id_call hello calls = Inr k" "length (calls ! k) = 32" "71 \<le> length hello"
    "length s = 32 \<Longrightarrow>
      emit_hello cr fb new_conn pub sni seed sec (Some (k, s)) = Some (take 39 hello @ s @ drop 71 hello, calls[k := s])"
proof -
  let ?h = "new_conn (client_config (replicate 32 0)) sni" and ?kx = "\<lparr>kx_pub = pub, kx_complete = Inr\<rparr>"
  obtain records where r: "with_script cr fb seed sec (PubOnly (kx_pub ?kx)) None ?h = (Inr (Inr records), calls)"
    "client_hello_body records = Inr hello"
    by (rule emit_hello_Some [OF assms(2)]) simp
  show len: "71 \<le> length hello" using r(2) by (auto simp: client_hello_body_iff)
  have pass: "k < length calls \<and> calls ! k = slice 39 71 hello \<and>
      (\<exists>records'. with_script cr fb seed sec (Active ?kx) (Some (k, s)) ?h = (Inr (Inr records'), calls[k := s]) \<and>
         client_hello_body records' = Inr (take 39 hello @ s @ drop 71 hello))" if "length s = 32" for s
    by (rule second_pass_replaces [OF r assms(1) that]) blast
  from pass [of "replicate 32 0"] have k: "k < length calls" "calls ! k = slice 39 71 hello" by simp_all
  show "length (calls ! k) = 32" using k(2) len by simp
  have "calls ! j \<noteq> slice 39 71 hello" if "j < k" for j
    using that k nth_eq_iff_index_eq [OF assms(3), of j k] by simp
  then have "position (\<lambda>c. c = slice 39 71 hello) calls = Some k"
    using k by (simp add: position_Some)
  then show "locate_session_id_call hello calls = Inr k" by (simp add: locate_session_id_call_def const_defs)
  show "emit_hello cr fb new_conn pub sni seed sec (Some (k, s)) = Some (take 39 hello @ s @ drop 71 hello, calls[k := s])"
    if s: "length s = 32"
  proof -
    obtain records' where a: "with_script cr fb seed sec (Active ?kx) (Some (k, s)) ?h = (Inr (Inr records'), calls[k := s])"
      "client_hello_body records' = Inr (take 39 hello @ s @ drop 71 hello)" using pass [OF s] by blast
    let ?a = "new_script seed sec (Active ?kx) (Some (k, s))" and ?b = "new_script seed sec (PubOnly pub) (Some (k, s))"
    obtain ns where ns: "calls[k := s] = served cr ns ?a" "map length (calls[k := s]) = ns"
      "play ?h (share_of cr ?a) (calls[k := s]) = Some (Inr (Inr records'))"
      using with_script_play [OF a(1)] by blast
    have "served cr ns ?b = served cr ns ?a" using served_mlkem [where cr = cr and ns = ns and sc = ?a and m = "Some (PubOnly pub)"] by simp
    moreover have "share_of cr ?b = share_of cr ?a" using share_of_new_script [where cr = cr and seed = seed and sec = sec and kx = ?kx and rep = "Some (k, s)" and rep' = "Some (k, s)"] by simp
    ultimately have "with_script cr fb seed sec (PubOnly pub) (Some (k, s)) ?h = (Inr (Inr records'), calls[k := s])"
      using ns play_with_script [where h = ?h and cr = cr and seed = seed and sec = sec and m = "PubOnly pub"
          and rep = "Some (k, s)" and ns = ns and x = "Inr (Inr records')" and fb = fb] by metis
    then show ?thesis by (simp add: emit_hello_def a(2))
  qed
qed

lemma session_id_draw_is_locatable:
  assumes "copies_session_id (new_conn (client_config (replicate 32 0)) sni) k"
    and "emit_hello cr fb new_conn pub sni seed sec None = Some (hello, calls)" and "distinct calls"
  shows "session_id_draw_is_locatable (emit_hello cr fb new_conn pub sni seed sec None)"
  using emitted_session_id(1,2) [OF assms] assms(2) by (simp add: session_id_draw_is_locatable_def session_id_len_def)

lemma replacing_session_id_draw_changes_only_session_id:
  assumes "copies_session_id (new_conn (client_config (replicate 32 0)) sni) k"
    and "emit_hello cr fb new_conn pub sni seed sec None = Some (hello, calls)" and "distinct calls"
  shows "replacing_session_id_draw_changes_only_session_id (emit_hello cr fb new_conn pub sni seed sec)"
proof -
  let ?s = "replicate 32 0xAB :: bytes"
  have s: "length ?s = 32" by simp
  note e = emitted_session_id [OF assms]
  show ?thesis
    unfolding replacing_session_id_draw_changes_only_session_id_def assms(2) option.case prod.case e(1) sum.case Let_def
      session_id_len_def e(4) [OF s]
    using e(3) by (simp add: const_defs slice_def aad_from_hello_def min_absorb2 drop_take)
qed

section \<open>The tests of the key shares and of the authentication data\<close>

definition start_active_hybrid :: "crypto \<Rightarrow> kx \<Rightarrow> bytes \<Rightarrow> tls_error + hybrid_kx" where
  "start_active_hybrid cr mlkem secret =
     fst (start_hybrid cr (Some (new_script (replicate 32 7) secret (Active mlkem) None)))"

text \<open>\<open>server\<close> is \<^verbatim>\<open>start_and_complete\<close> of rustls: its key share and the secret, from the client's share.\<close>

definition hybrid_key_exchange_agrees_with_server :: "crypto \<Rightarrow> kx \<Rightarrow> (bytes \<Rightarrow> bytes \<times> bytes) \<Rightarrow> bool" where
  "hybrid_key_exchange_agrees_with_server cr mlkem server \<longleftrightarrow>
     (case start_active_hybrid cr mlkem (replicate 32 9) of
        Inl _ \<Rightarrow> False
      | Inr kx \<Rightarrow>
          length (hk_combined kx) = mlkem768_encap_len + x25519_len \<and>
          (case server (hk_combined kx) of (pub, secret) \<Rightarrow> complete_hybrid cr kx pub = Inr secret))"

definition x25519_component_agrees_with_server :: "crypto \<Rightarrow> kx \<Rightarrow> (bytes \<Rightarrow> bytes \<times> bytes) \<Rightarrow> bool" where
  "x25519_component_agrees_with_server cr mlkem server \<longleftrightarrow>
     (case start_active_hybrid cr mlkem (replicate 32 9) of
        Inl _ \<Rightarrow> False
      | Inr kx \<Rightarrow>
          (case server (hybrid_component kx) of (pub, secret) \<Rightarrow> complete_hybrid_component cr kx pub = Inr secret))"

definition pub_only_hybrid_refuses_to_complete :: "crypto \<Rightarrow> bytes \<Rightarrow> bool" where
  "pub_only_hybrid_refuses_to_complete cr mlkem_pub \<longleftrightarrow>
     (case fst (start_hybrid cr (Some (new_script (replicate 32 7) (replicate 32 9) (PubOnly mlkem_pub) None))) of
        Inl _ \<Rightarrow> False
      | Inr kx \<Rightarrow> isl (complete_hybrid cr kx (replicate (mlkem768_ciphertext_len + x25519_len) 0)))"

lemma active_hybrid:
  assumes "length (kx_pub mlkem) = 1184"
  shows "start_active_hybrid cr mlkem sec = Inr \<lparr>hk_x25519 = \<lparr>xk_secret = sec, xk_public = cr_x25519 cr sec (cr_base cr)\<rparr>,
    hk_mlkem = Some mlkem, hk_combined = kx_pub mlkem @ cr_x25519 cr sec (cr_base cr)\<rparr>"
  using assms by (simp add: start_active_hybrid_def start_hybrid_def const_defs Let_def)

lemma hybrid_key_exchange_agrees_with_server:
  assumes "length (kx_pub mlkem) = 1184" and "length (cr_x25519 cr (replicate 32 9) (cr_base cr)) = 32"
    and "kx_complete mlkem ct = Inr pq" and "length ct = 1088" and "length srv = 32"
    and "server (kx_pub mlkem @ cr_x25519 cr (replicate 32 9) (cr_base cr)) = (ct @ srv, pq @ cr_x25519 cr (replicate 32 9) srv)"
  shows "hybrid_key_exchange_agrees_with_server cr mlkem server"
  using assms
  by (simp add: hybrid_key_exchange_agrees_with_server_def active_hybrid complete_hybrid_def complete_x25519_def const_defs)

lemma x25519_component_agrees_with_server:
  assumes "length (kx_pub mlkem) = 1184" and "length srv = 32"
    and "server (cr_x25519 cr (replicate 32 9) (cr_base cr)) = (srv, cr_x25519 cr (replicate 32 9) srv)"
  shows "x25519_component_agrees_with_server cr mlkem server"
  using assms
  by (simp add: x25519_component_agrees_with_server_def active_hybrid hybrid_component_def complete_hybrid_component_def
      complete_x25519_def)

lemma pub_only_hybrid_refuses_to_complete:
  "length mlkem_pub = 1184 \<Longrightarrow> pub_only_hybrid_refuses_to_complete cr mlkem_pub"
  by (simp add: pub_only_hybrid_refuses_to_complete_def start_hybrid_def complete_hybrid_def const_defs Let_def)

definition auth_plaintext_layout :: bool where
  "auth_plaintext_layout \<longleftrightarrow>
     (case build_auth_plaintext [0x01, 0x23, 0xab, 0xcd] 0x12345678 of
        Inl _ \<Rightarrow> False
      | Inr p \<Rightarrow>
          take 3 p = client_version \<and> p ! 3 = 0 \<and> slice 4 8 p = [0x12, 0x34, 0x56, 0x78] \<and>
          slice 8 16 p = [0x01, 0x23, 0xab, 0xcd, 0, 0, 0, 0])"

definition rejects_oversized_short_id :: bool where
  "rejects_oversized_short_id \<longleftrightarrow> isl (build_auth_plaintext (replicate 9 0) 0)"

definition sealed_session_id_is_32_bytes :: "crypto \<Rightarrow> bool" where
  "sealed_session_id_is_32_bytes cr \<longleftrightarrow>
     (case and_then (build_auth_plaintext [0x01] 42) (seal_session_id cr (replicate 32 3) (replicate 12 4) (str ''aad'')) of
        Inl _ \<Rightarrow> False
      | Inr sealed \<Rightarrow> length sealed = session_id_len)"

definition sealed_session_id_round_trips ::
  "crypto \<Rightarrow> (bytes \<Rightarrow> bytes \<Rightarrow> bytes \<Rightarrow> bytes \<Rightarrow> bytes option) \<Rightarrow> bool" where
  "sealed_session_id_round_trips cr gcm_open \<longleftrightarrow>
     (let key = replicate 32 3; nonce = replicate 12 4; aad = str ''the client hello'' in
      case build_auth_plaintext [0x01, 0x23] 1700000000 of
        Inl _ \<Rightarrow> False
      | Inr plaintext \<Rightarrow>
          (case seal_session_id cr key nonce aad plaintext of
             Inl _ \<Rightarrow> False
           | Inr sealed \<Rightarrow>
               gcm_open key nonce aad sealed = Some plaintext \<and>
               gcm_open key nonce (str ''other hello'') sealed = None))"

definition auth_key_matches_server_side_derivation :: "crypto \<Rightarrow> bool" where
  "auth_key_matches_server_side_derivation cr \<longleftrightarrow>
     (let random = replicate random_len 5; server_secret = replicate 32 7; client_secret = replicate 32 9;
          server_pub = cr_x25519 cr server_secret (cr_base cr); client_pub = cr_x25519 cr client_secret (cr_base cr)
      in case (derive_auth_key cr client_secret server_pub random, derive_auth_key cr server_secret client_pub random) of
           (Inr client_derived, Inr server_derived) \<Rightarrow> client_derived = server_derived
         | _ \<Rightarrow> False)"

lemma stamp_bytes: "to_be 4 0x12345678 = [0x12, 0x34, 0x56, 0x78]" "replicate 4 (0 :: u8) = [0, 0, 0, 0]"
  by (simp_all add: byte_simps) (simp add: numeral_eq_Suc)

lemma auth_plaintext_layout: auth_plaintext_layout
  and rejects_oversized_short_id: rejects_oversized_short_id
  by (simp_all add: auth_plaintext_layout_def rejects_oversized_short_id_def build_auth_plaintext_def const_defs u32_be_def
      slice_def stamp_bytes)

text \<open>What AES-GCM documents: the tag is 16 bytes long, opening undoes sealing, other data do not open.\<close>

definition gcm_laws :: "crypto \<Rightarrow> (bytes \<Rightarrow> bytes \<Rightarrow> bytes \<Rightarrow> bytes \<Rightarrow> bytes option) \<Rightarrow> bool" where
  "gcm_laws cr gcm_open \<longleftrightarrow>
     (\<forall>key nonce aad m. \<exists>c. cr_seal cr key nonce aad m = Some c \<and> length c = length m + 16 \<and>
        gcm_open key nonce aad c = Some m \<and> (\<forall>aad'. aad' \<noteq> aad \<longrightarrow> gcm_open key nonce aad' c = None))"

lemma sealed_session_id_is_32_bytes:
  assumes "gcm_laws cr gcm_open"
  shows "sealed_session_id_is_32_bytes cr"
proof -
  obtain p where p: "build_auth_plaintext [0x01] 42 = Inr p" "length p = 16"
    using length_auth_plaintext [of "[0x01]" 42] by (simp add: build_auth_plaintext_def const_defs)
  obtain c where "cr_seal cr (replicate 32 3) (replicate 12 4) (str ''aad'') p = Some c" "length c = length p + 16"
    using assms unfolding gcm_laws_def by metis
  with p show ?thesis by (simp add: sealed_session_id_is_32_bytes_def seal_session_id_def session_id_len_def del: str_Cons)
qed

lemma sealed_session_id_round_trips:
  assumes "gcm_laws cr gcm_open"
  shows "sealed_session_id_round_trips cr gcm_open"
proof -
  let ?k = "replicate 32 3" and ?n = "replicate 12 4" and ?a = "str ''the client hello''" and ?o = "str ''other hello''"
  obtain p where p: "build_auth_plaintext [0x01, 0x23] 1700000000 = Inr p" "length p = 16"
    using length_auth_plaintext [of "[0x01, 0x23]" 1700000000] by (simp add: build_auth_plaintext_def const_defs)
  have "\<exists>c. cr_seal cr ?k ?n ?a p = Some c \<and> length c = length p + 16 \<and> gcm_open ?k ?n ?a c = Some p \<and>
      (\<forall>aad'. aad' \<noteq> ?a \<longrightarrow> gcm_open ?k ?n aad' c = None)"
    using assms unfolding gcm_laws_def by blast
  moreover have "?o \<noteq> ?a" by simp
  ultimately obtain c where "cr_seal cr ?k ?n ?a p = Some c" "length c = length p + 16" "gcm_open ?k ?n ?a c = Some p"
    "gcm_open ?k ?n ?o c = None" by blast
  with p show ?thesis
    by (simp add: sealed_session_id_round_trips_def seal_session_id_def session_id_len_def Let_def del: str_Cons)
qed

lemma auth_key_matches_server_side_derivation:
  fixes cr :: crypto
  defines "shared \<equiv> cr_x25519 cr (replicate 32 9) (cr_x25519 cr (replicate 32 7) (cr_base cr))"
  assumes "cr_x25519 cr (replicate 32 7) (cr_x25519 cr (replicate 32 9) (cr_base cr)) = shared"
    and "\<exists>b \<in> set shared. b \<noteq> 0" and "cr_hkdf cr (replicate 20 5) shared hkdf_info = Some key"
  shows "auth_key_matches_server_side_derivation cr"
  using assms
  by (simp add: auth_key_matches_server_side_derivation_def derive_auth_key_def const_defs Let_def)

end
