(* ===== verification/Spec2Isabelle.thy ===== *)
theory Spec2Isabelle
  imports DriverModel RaceTiming ServiceModel StreamProgress RealityServer TestsCodec TestsVision TestsGate TestsStream TestsUplink
    TestsRuntime TestsReality
begin

text \<open>
  A model of \<^verbatim>\<open>rray\<close>, a SOCKS5 proxy client that tunnels connections through VLESS with the
  XTLS Vision flow over a REALITY TLS connection, with the theorems that make it correct.

  \<^bold>\<open>The program.\<close> A client speaks SOCKS5 (\<^verbatim>\<open>src/inbound/socks5.rs\<close>) to the accept loop
  (\<^verbatim>\<open>src/driver.rs\<close>). Each connection opens an outbound (\<^verbatim>\<open>src/outbound/mod.rs\<close>): dial the
  server (\<^verbatim>\<open>src/net.rs\<close>), do the REALITY handshake (\<^verbatim>\<open>src/outbound/reality.rs\<close>) over a
  record gate (\<^verbatim>\<open>src/outbound/record_gate.rs\<close>), write the VLESS request header
  (\<^verbatim>\<open>src/outbound/vless.rs\<close>) and the first Vision frame, and relay both directions
  (\<^verbatim>\<open>src/relay.rs\<close>) through a \<^verbatim>\<open>VisionStream\<close> (\<^verbatim>\<open>src/outbound/vision.rs\<close>). It runs as a
  binary (\<^verbatim>\<open>src/main.rs\<close>) or as an embedded service (\<^verbatim>\<open>src/service.rs\<close>), configured by
  \<^verbatim>\<open>src/config.rs\<close>.

  \<^bold>\<open>The theories.\<close>
  \<^item> \<open>Prelude\<close>: bytes and big-endian numbers, slices and searches of the Rust library, units
    with a length header (locale \<open>delimited\<close>), machines that react to events (locales
    \<open>invariant_machine\<close> and \<open>monotone_machine\<close>), keyed stores (locale \<open>keyed_store\<close>). The
    components that provide these interfaces interpret them on their own definitions.
  \<^item> \<open>Utf8\<close>: strings. \<open>RErrors\<close>: \<^verbatim>\<open>src/error.rs\<close> and the blocking use of a connection.
    \<open>Address\<close>, \<open>IpText\<close>: addresses and their text form.
  \<^item> \<open>ConfigModel\<close>: the typed and the raw configuration, the hexadecimal, UUID and base64
    parsers, and the diagnosis of a TOML error by line and column.
  \<^item> \<open>Socks5\<close>: handshake and reply. \<open>VlessModel\<close>: request header and response header.
  \<^item> \<open>VisionFrame\<close>: the length of the padding, framing, the deframing state machine.
    \<open>TlsRecord\<close>, \<open>VisionTraffic\<close>: TLS records, sniffing of the inner TLS session, splitting of
    writes. \<open>VisionPadder\<close>: what the padder emits over a session. \<open>RecordGate\<close>: the gate under
    TLS.
  \<^item> \<open>VisionStream\<close>: the stream's write and read side over a scripted inner stream;
    \<open>VisionUplink\<close>, \<open>VisionDownlink\<close>: the invariants of the two sides; \<open>VisionSession\<close>: any
    sequence of calls. \<open>AnyStream\<close>: the same code over any implementation of the traits
    (record \<open>stream_ops\<close>: \<^verbatim>\<open>AsyncRead\<close>, \<^verbatim>\<open>AsyncWrite\<close>, \<^verbatim>\<open>DirectSwitch\<close>), its traces of calls, and
    that it mirrors the scripted stream; \<open>AnyScript\<close>: the properties of the stream for every
    inner stream, by the script its trace gives.
  \<^item> \<open>GatedTls\<close>: the two implementations of \<^verbatim>\<open>DirectSwitch\<close>, TLS over the gate and the duplex
    stream, and what the TLS library promises (\<open>tls_laws\<close>). \<open>TlsStack\<close>: invariants of TLS over
    the gate along any trace. \<open>ClearTls\<close>: a TLS library with a null cipher that obeys the
    laws, for the examples. \<open>StackSession\<close>: the Vision stream over TLS over the gate.
  \<^item> \<open>RealityRandom\<close>: the deterministic byte stream. \<open>RealityScript\<close>: the script of a thread, the
    key shares, \<^verbatim>\<open>with_script\<close>, and the replay of a ClientHello. \<open>RealityAuth\<close>: the sealed
    session id and the certificate check. \<open>RealityConnect\<close>: the two passes and \<^verbatim>\<open>connect\<close>.
  \<^item> \<open>NetModel\<close>: order of addresses, DNS cache, race of attempts, dialling;
    \<open>RaceTiming\<close>: the race with its clock. \<open>RelayModel\<close>: pumps, activity and watchdog.
    \<open>ConnRelay\<close>: the relay with a Vision stream as its upstream.
  \<^item> \<open>BufferBounds\<close>: how much a stream, a gate and a relay ever hold. \<open>StreamProgress\<close>: calls of a
    stream return over a stream below that answers (locale \<open>answering_stream\<close>, interpreted on the duplex
    stream and on TLS over the gate).
    \<open>OutboundModel\<close>: \<^verbatim>\<open>open\<close>. \<open>DriverModel\<close>: \<^verbatim>\<open>handle_connection\<close>, from the SOCKS5 handshake to
    the relay, and the accept loop. \<open>ServiceModel\<close>: start and stop, \<^verbatim>\<open>main\<close> and
    \<^verbatim>\<open>logger_service\<close>.
  \<^item> \<open>RealityServer\<close>: the REALITY server's reading of a ClientHello and its choice of the client's key, as
    the tests of \<^verbatim>\<open>src/outbound/reality.rs\<close> port it.
  \<^item> \<open>TestsCodec\<close>, \<open>TestsVision\<close>, \<open>TestsGate\<close>, \<open>TestsStream\<close>, \<open>TestsUplink\<close>, \<open>TestsRuntime\<close>,
    \<open>TestsReality\<close>: the unit tests of the repository. Each is a definition of the test's name over
    the models, and a lemma of that name shows that it holds, for every random generator and for every
    cryptography with the named laws.

  \<^bold>\<open>How the code is represented.\<close> Structs are records with one field per field, enums are
  datatypes, a \<^verbatim>\<open>u8\<close>, \<^verbatim>\<open>u16\<close>, \<^verbatim>\<open>u32\<close>, \<^verbatim>\<open>u64\<close> is a word, a \<^verbatim>\<open>usize\<close> that counts bytes in memory a
  natural number. Errors are the left side of a sum, \<^verbatim>\<open>Poll\<close> is a datatype. A function that
  polls takes the state and returns the result with the new state. What an operation gets from
  its surroundings is a script of answers (\<open>wr_answer\<close>, \<open>rd_event\<close>, \<open>conn\<close>), a log records the
  calls it makes. A task that waits for several things (the race of attempts, the relay, the
  accept loop) is a function from state and event to state, run over any list of events; an
  event that is not awaited changes nothing, so that the theorems cover every order. Times are
  natural numbers of nanoseconds; the relay's 64-bit milliseconds wrap and are modelled so.

  \<^bold>\<open>Parameters.\<close> The code of other packages is an argument: the TOML parser (\<open>from_str\<close>), the
  random generator (\<open>rr\<close>), SHA-256, x25519, HKDF, AES-GCM and HMAC (record \<open>crypto\<close>), ML-KEM
  (record \<open>kx\<close>), the construction of a ClientHello in rustls (datatype \<open>hello\<close>: it draws random
  bytes, asks for a key share and emits records), the TLS handshake itself, the TLS session
  after it (record \<open>tls_lib\<close>: the polls of the stream of tokio-rustls over the gate), the
  resolver, the clock, and the operating system's \<^verbatim>\<open>bind\<close>. Theorems that rely on a property of
  such code name it: \<open>copies_session_id\<close>, \<open>auth_blind\<close>, the laws of the cipher and of the key
  exchange in \<open>server_authenticates\<close>; \<open>bind_ok\<close> in \<open>restart_needs_release\<close>; the range of the
  random generator in \<open>padding_len_bounds\<close>; \<open>tls_laws\<close> (records are decrypted one by one and in
  order, the gate is read only when no plaintext waits, the peer decrypts what was accepted,
  a flush leaves nothing unsent) and \<open>fresh_stream\<close> (nothing is pending in TLS when the gate
  starts) in the theorems of \<open>StackSession\<close>, \<open>OutboundModel\<close> and \<open>DriverModel\<close>; \<open>io_contract\<close>
  (a poll reads at most the room and takes at most the bytes given) in those of \<open>AnyScript\<close>;
  \<open>lists_offers\<close> (a ClientHello lists the share of the first configured group, its component if that
  group is configured too, and the configured protocols) in \<open>server_selects_share\<close>.

  \<^bold>\<open>What is shown.\<close> Parsers accept exactly their language and are inverse to the encoders
  (\<open>handshake_exact\<close>, \<open>request_header_roundtrip\<close>, \<open>base64_decode_encode\<close>, \<open>parse_uuid_exact\<close>);
  deframing, stripping and the byte stream do not depend on how data is cut
  (\<open>unpad_chunking\<close>, \<open>response_header_exact\<close>, \<open>seed_stream_chunking\<close>); whatever the padder, the stream
  and the relay do, the peer decodes exactly the bytes written and the reader gets exactly the
  bytes sent (\<open>uplink_decodes\<close>, \<open>stream_uplink\<close>, \<open>stream_downlink\<close>, \<open>gate_conserves\<close>,
  \<open>relay_delivers\<close>); this holds through all layers, from the client's socket to the bytes on
  the wire and back (\<open>direct_switch_lossless\<close>, \<open>direct_uplink\<close>, \<open>open_reaches_server\<close>,
  \<open>connection_end_to_end\<close>); what a connection holds in memory is bounded
  (\<open>bounded_connection\<close>); the switch to direct copy is made at a record boundary and never mixes raw and TLS bytes (\<open>direct_only_at_record_boundary\<close>, \<open>stream_calls_ordered\<close>,
  \<open>one_record_per_opening\<close>, \<open>records_per_opening\<close>); the two-pass handshake produces a ClientHello the server
  authenticates (\<open>server_authenticates\<close>) and whose key shares its selection accepts
  (\<open>server_selects_share\<close>); direct copy is enabled only where a ServerHello named TLS 1.3
  (\<open>sniffing_sound\<close>, \<open>server_hello_decides\<close>); an error in the configuration is reported by position and
  message alone (\<open>load_result\<close>); timers fire when they should and only then
  (\<open>timeout_when_idle\<close>, \<open>watchdog_fires\<close>, \<open>attempts_staggered\<close>); dialling, caching and limiting do what they promise.

  \<^bold>\<open>The bounds.\<close> A pump reads at most its buffer of 64 KiB and writes all of it before it reads again.
  A write is padded only when all earlier frames are written, so what is pending are the frames of one
  write: two pieces in a row are at least 4117 bytes together, which makes at most 32 frames of at
  most 8 KiB each. What is left undeframed is an incomplete header or content or padding, whose
  lengths have 16 bits: below 20 bytes and twice 65535 (131090). A read adds at most 16 KiB, and the
  switch to direct copy what the gate holds: at most 16 KiB and an incomplete record header (16388), for it
  reads ahead only when it has no whole header; so the application is owed at most 163862 bytes.

  \<^bold>\<open>Termination.\<close> The functions of the scripted models are total: loops over buffers decrease
  the buffer, the read loops of the gate and of the scripted stream decrease the size of the
  script behind them, dialling decreases the attempts left. There is no fuel: a task that waits
  for ever is one whose script or list of events ends, with result \<open>Pending\<close> or \<open>None\<close>. Over an
  arbitrary inner stream the read loop and \<^verbatim>\<open>write_all\<close> need not end; there they are
  \<open>partial_function\<close>s with \<open>None\<close> for a loop that does not end, and over TLS and the gate the read
  loop always ends (\<open>stream_reads_return\<close>). That the race of attempts returns
  (\<open>race_returns\<close>), that padding ends (\<open>padding_ends\<close>), that a pending read has a wake-up
  (\<open>gate_pending_wakes\<close>, \<open>read_pending_registered\<close>) are theorems.

  \<^bold>\<open>Not modelled.\<close> The log messages, apart from their number and severity where they have a
  condition, and what the tracing crates make of the subscriber's settings; vectored writes;
  the thread-local and mutex cells as such (their contents are the state, a poisoned lock is
  used as any other); socket buffers and the network itself. In the relay of \<open>ConnRelay\<close> the
  client's socket gives completed calls, the upstream is polled; a pending \<^verbatim>\<open>write_all\<close> keeps
  what it has not written.
\<close>

section \<open>Properties across components\<close>

text \<open>
  C40: Settings the program cannot work with are errors, never silent misbehaviour, although
  loading accepts them: with another flow than Vision, opening fails with a configuration error
  before anything is dialled; with a short id of more than 8 bytes no connection is ever opened,
  for the session id cannot be built.
\<close>

theorem unusable_settings:
  assumes "vl_flow (out_vless out) \<noteq> required_flow \<or> 8 < length (short_id (out_reality out))"
  shows "fst (open_outbound L cr tt fb new_conn rr env out to tg) \<noteq> Some (Inr vs) \<and>
    (vl_flow (out_vless out) \<noteq> required_flow \<longrightarrow>
       (\<exists>m. open_outbound L cr tt fb new_conn rr env out to tg = (Some (Inl (Config m)), [])))"
proof (intro conjI notI)
  assume "fst (open_outbound L cr tt fb new_conn rr env out to tg) = Some (Inr vs)"
  then obtain acts where "open_outbound L cr tt fb new_conn rr env out to tg = (Some (Inr vs), acts)"
    by (metis prod.collapse)
  then obtain tcp tls where "vl_flow (out_vless out) = required_flow"
    and c: "connect cr tt fb new_conn (oe_reality env tcp) (out_reality out) (handshake_ms to) = Inr tls"
    by (rule open_Inr) blast
  with assms have "8 < length (short_id (out_reality out))" by simp
  with c show False
    by (auto simp: connect_def and_then_Inr prepare_def build_auth_plaintext_def const_defs Let_def
        split: option.splits prod.splits)
qed (simp add: open_outbound_def)

theorem unusable_settings_witness:
  "\<exists>m. open_outbound clear_tls sum_crypto (\<lambda>_. []) (\<lambda>_. Inl ()) sample_rustls sample_rng (ce_open sample_client_env)
     \<lparr>out_server = [97], out_port = 1, out_vless = \<lparr>vl_uuid = sample_uuid, vl_flow = []\<rparr>,
      out_reality = sample_reality\<rparr> (cfg_timeout sample_config) \<lparr>tg_addr = Domain [97], tg_port = 80\<rparr>
     = (Some (Inl (Config m)), [])"
proof -
  let ?out = "\<lparr>out_server = [97], out_port = 1, out_vless = \<lparr>vl_uuid = sample_uuid, vl_flow = []\<rparr>,
      out_reality = sample_reality\<rparr>"
  have "vl_flow (out_vless ?out) \<noteq> required_flow" by (simp add: required_flow_def)
  then show ?thesis
    using unusable_settings [of ?out, THEN conjunct2, of clear_tls sum_crypto "\<lambda>_. []" "\<lambda>_. Inl ()" sample_rustls]
    by blast
qed

end
